(* ===== verification/QE_Prelude.thy ===== *)
theory QE_Prelude
  imports Main "HOL-Library.Word"
begin

text \<open>
  Shared ground of the development: the names of the machine types, the error codes of
  \<^verbatim>\<open>include/tsdb.h\<close>, and the generic facts on bit lists and little-endian byte lists that
  the codec theories rest on.

  \<^item> \<open>u8\<close>, \<open>u16\<close>, \<open>u32\<close>, \<open>u64\<close> are the fixed-width C integers. \<open>i64\<close> is an \<^verbatim>\<open>int64_t\<close> as its
    two's complement pattern; signed comparisons are written with \<open>sint\<close> or \<open>\<le>s\<close>.
    A \<^verbatim>\<open>double\<close> is carried as its 64-bit pattern (\<open>f64\<close>).
  \<^item> \<open>bits_of n w\<close> lists the low \<open>n\<close> bits of a word, least significant first, which is the
    order in which the bit stream of \<^verbatim>\<open>src/core/bits.h\<close> writes them.
  \<^item> \<open>le_bytes k w\<close> is the little-endian store loop \<^verbatim>\<open>out[i] = (uint8_t)(w >> (8*i))\<close>, and
    \<open>le_acc\<close> the load loop \<^verbatim>\<open>v |= (uint64_t)in[i] << (8*i)\<close>.
\<close>

unbundle bit_operations_syntax

type_synonym u8 = "8 word"
type_synonym u16 = "16 word"
type_synonym u32 = "32 word"
type_synonym u64 = "64 word"
type_synonym i64 = "64 word"
type_synonym f64 = "64 word"

named_theorems bitlist_simps \<open>facts that move between words, bit lists and byte lists\<close>

section \<open>Error codes\<close>

datatype tsdb_err =
    TSDB_ERR_INVAL
  | TSDB_ERR_NOMEM
  | TSDB_ERR_IO
  | TSDB_ERR_CORRUPT
  | TSDB_ERR_NOTFOUND
  | TSDB_ERR_EXISTS
  | TSDB_ERR_FULL
  | TSDB_ERR_OVERFLOW
  | TSDB_ERR_UNSUPPORTED
  | TSDB_ERR_PARSE
  | TSDB_ERR_SCHEMA
  | TSDB_ERR_INTERNAL
  | TSDB_ERR_PERMISSION
  | TSDB_ERR_BUSY
  | TSDB_ERR_TIMEOUT
  | TSDB_ERR_INDETERMINATE

section \<open>Results\<close>

text \<open>
  A fallible function returns \<open>tsdb_err + 'a\<close>. \<open>res_bind\<close> is the idiom
  \<^verbatim>\<open>rc = f(...); if (rc) return rc;\<close> and \<open>res_opt\<close> turns a failed helper into an error code.
\<close>

definition res_bind :: "'e + 'a \<Rightarrow> ('a \<Rightarrow> 'e + 'b) \<Rightarrow> 'e + 'b" where
  "res_bind m f = (case m of Inl e \<Rightarrow> Inl e | Inr x \<Rightarrow> f x)"

definition res_opt :: "'e \<Rightarrow> 'a option \<Rightarrow> 'e + 'a" where
  "res_opt e m = (case m of None \<Rightarrow> Inl e | Some x \<Rightarrow> Inr x)"

lemma res_bind_simps [simp]:
  "res_bind (Inl e) f = Inl e"
  "res_bind (Inr x) f = f x"
  by (simp_all add: res_bind_def)

lemma res_opt_simps [simp]:
  "res_opt e None = Inl e"
  "res_opt e (Some x) = Inr x"
  by (simp_all add: res_opt_def)

lemma res_bind_Inr_iff: "res_bind m f = Inr y \<longleftrightarrow> (\<exists>x. m = Inr x \<and> f x = Inr y)"
  by (cases m) simp_all

lemma res_bind_Inl_iff: "res_bind m f = Inl e \<longleftrightarrow> m = Inl e \<or> (\<exists>x. m = Inr x \<and> f x = Inl e)"
  by (cases m) simp_all

lemma res_opt_Inr_iff [simp]: "res_opt e m = Inr x \<longleftrightarrow> m = Some x"
  by (cases m) simp_all

lemma res_bind_cong [fundef_cong]:
  "m = m' \<Longrightarrow> (\<And>x. m' = Inr x \<Longrightarrow> f x = g x) \<Longrightarrow> res_bind m f = res_bind m' g"
  by (cases m') simp_all

section \<open>Bit lists\<close>

definition bits_of :: "nat \<Rightarrow> 'a::len word \<Rightarrow> bool list" where
  "bits_of n w = map (bit w) [0..<n]"

definition word_of_bits :: "bool list \<Rightarrow> 'a::len word" where
  "word_of_bits bs = horner_sum of_bool 2 bs"

definition bytes_bits :: "u8 list \<Rightarrow> bool list" where
  "bytes_bits bs = concat (map (bits_of 8) bs)"

lemma length_bits_of [simp]: "length (bits_of n w) = n"
  by (simp add: bits_of_def)

lemma nth_bits_of [simp]: "i < n \<Longrightarrow> bits_of n w ! i = bit w i"
  by (simp add: bits_of_def)

lemma bits_of_0 [simp]: "bits_of 0 w = []"
  by (simp add: bits_of_def)

lemma bits_of_Suc: "bits_of (Suc n) w = bit w 0 # bits_of n (drop_bit 1 w)"
  by (rule nth_equalityI) (auto simp: nth_Cons bit_drop_bit_eq split: nat.splits)

lemma bits_of_eqI: "(\<And>i. i < n \<Longrightarrow> bit v i = bit w i) \<Longrightarrow> bits_of n v = bits_of n w"
  by (auto intro: nth_equalityI)

lemma bits_of_zero [simp]: "bits_of n 0 = replicate n False"
  by (rule nth_equalityI) auto

lemma bits_of_add [bitlist_simps]: "bits_of (m + n) w = bits_of m w @ bits_of n (drop_bit m w)"
  by (rule nth_equalityI) (auto simp: nth_append bit_drop_bit_eq)

lemma take_bits_of [simp]: "take m (bits_of n w) = bits_of (min m n) w"
  by (rule nth_equalityI) auto

lemma drop_bits_of [simp]: "drop m (bits_of n w) = bits_of (n - m) (drop_bit m w)"
  by (rule nth_equalityI) (auto simp: bit_drop_bit_eq)

lemma bits_of_take_bit [simp]: "n \<le> m \<Longrightarrow> bits_of n (take_bit m w) = bits_of n w"
  by (rule bits_of_eqI) (simp add: bit_take_bit_iff)

lemma bits_of_ucast: "n \<le> LENGTH('a) \<Longrightarrow> bits_of n (ucast (w :: 'b::len word) :: 'a::len word) = bits_of n w"
  by (rule bits_of_eqI) (simp add: bit_simps)

lemma bit_word_of_bits [bit_simps]:
  "bit (word_of_bits bs :: 'a::len word) i \<longleftrightarrow> i < LENGTH('a) \<and> i < length bs \<and> bs ! i"
  by (auto simp: word_of_bits_def bit_horner_sum_bit_word_iff)

lemma word_of_bits_bits_of [simp]: "(word_of_bits (bits_of n w) :: 'a::len word) = take_bit n w"
  for w :: "'a::len word"
  by (rule bit_word_eqI) (auto simp: bit_simps)

lemma bits_of_word_of_bits:
  "length bs = n \<Longrightarrow> n \<le> LENGTH('a) \<Longrightarrow> bits_of n (word_of_bits bs :: 'a::len word) = bs"
  by (rule nth_equalityI) (auto simp: bit_simps)

lemma bits_of_inj:
  "bits_of n v = bits_of n w \<longleftrightarrow> take_bit n v = take_bit n (w :: 'a::len word)"
proof
  assume "bits_of n v = bits_of n w"
  then have "(word_of_bits (bits_of n v) :: 'a word) = word_of_bits (bits_of n w)" by simp
  then show "take_bit n v = take_bit n w" by simp
next
  assume a: "take_bit n v = take_bit n w"
  have "bits_of n (take_bit n v) = bits_of n (take_bit n w)" unfolding a ..
  then show "bits_of n v = bits_of n w" by simp
qed

lemma bytes_bits_Nil [simp]: "bytes_bits [] = []"
  by (simp add: bytes_bits_def)

lemma bytes_bits_Cons [simp]: "bytes_bits (b # bs) = bits_of 8 b @ bytes_bits bs"
  by (simp add: bytes_bits_def)

lemma bytes_bits_append [simp]: "bytes_bits (as @ bs) = bytes_bits as @ bytes_bits bs"
  by (simp add: bytes_bits_def)

lemma length_bytes_bits [simp]: "length (bytes_bits bs) = 8 * length bs"
  by (induction bs) auto

lemma take_bytes_bits: "take (8 * k) (bytes_bits bs) = bytes_bits (take k bs)"
proof (induction bs arbitrary: k)
  case (Cons b bs)
  then show ?case by (cases k) auto
qed simp

lemma drop_bytes_bits: "drop (8 * k) (bytes_bits bs) = bytes_bits (drop k bs)"
proof (induction bs arbitrary: k)
  case (Cons b bs)
  then show ?case by (cases k) auto
qed simp

lemma bytes_bits_inject: "bytes_bits as = bytes_bits bs \<Longrightarrow> length as = length bs \<Longrightarrow> as = bs"
proof (induction as arbitrary: bs)
  case (Cons a as)
  then obtain b cs where bs: "bs = b # cs" by (cases bs) auto
  have "bits_of 8 a = bits_of 8 b \<and> bytes_bits as = bytes_bits cs" using Cons.prems bs by simp
  then have "take_bit 8 a = take_bit 8 b" "as = cs" using Cons bs by (auto simp: bits_of_inj)
  then show ?case using bs by (simp add: take_bit_word_eq_self)
qed simp

section \<open>Masks and bounded words\<close>

lemma and_exp_minus_1 [simp]: "w AND (2 ^ n - 1) = take_bit n (w :: 'a::len word)"
  by (simp add: take_bit_eq_mask mask_eq_exp_minus_1)

lemma and_mask_take_bit [simp]: "w AND mask n = take_bit n (w :: 'a::len word)"
  by (simp add: take_bit_eq_mask)

text \<open>\<open>take_bit n w = w\<close> says that \<open>w\<close> fits in \<open>n\<close> bits.\<close>

lemma fits_bit: "take_bit n w = w \<Longrightarrow> n \<le> i \<Longrightarrow> \<not> bit (w :: 'a::len word) i"
  by (metis bit_take_bit_iff not_less)

lemma fits_mono:
  assumes "take_bit n w = w" and "n \<le> m"
  shows "take_bit m w = (w :: 'a::len word)"
proof -
  have "take_bit m (take_bit n w) = take_bit n w" using assms(2) by (simp add: min_def)
  then show ?thesis by (simp only: assms(1))
qed

lemma take_drop_or: "take_bit k w OR push_bit k (drop_bit k w) = (w :: 'a::len word)"
proof (rule bit_word_eqI)
  fix i assume "i < LENGTH('a)"
  then show "bit (take_bit k w OR push_bit k (drop_bit k w)) i = bit w i"
    by (cases "i < k") (auto simp: bit_simps)
qed

lemma drop_bit_or_push:
  assumes "take_bit k x = x" and "take_bit (LENGTH('a) - k) y = y"
  shows "drop_bit k (x OR push_bit k y) = (y :: 'a::len word)"
proof (rule bit_word_eqI)
  fix i assume "i < LENGTH('a)"
  then show "bit (drop_bit k (x OR push_bit k y)) i = bit y i"
    using fits_bit [OF assms(1), of "k + i"] fits_bit [OF assms(2), of i] by (cases "k + i < LENGTH('a)") (auto simp: bit_simps)
qed

lemma fits_drop_bit:
  assumes "take_bit n w = w"
  shows "drop_bit n w = (0 :: 'a::len word)"
proof -
  have "drop_bit n (take_bit n w) = 0" by (simp add: drop_bit_take_bit)
  then show ?thesis by (simp only: assms)
qed

lemma fitsI: "(\<And>i. n \<le> i \<Longrightarrow> i < LENGTH('a) \<Longrightarrow> \<not> bit w i) \<Longrightarrow> take_bit n w = (w :: 'a::len word)"
  by (rule bit_word_eqI) (metis bit_take_bit_iff not_le)

lemma word_nonzero_bit: "w \<noteq> 0 \<Longrightarrow> \<exists>i. bit (w :: 'a::len word) i"
  by (auto simp: bit_eq_iff)

lemma unat_drop_bit: "unat (drop_bit n w) = unat (w :: 'a::len word) div 2 ^ n"
  unfolding unat_drop_bit_eq by (rule drop_bit_eq_div)

lemma fits_unat: "take_bit n w = w \<longleftrightarrow> unat (w :: 'a::len word) < 2 ^ n"
  by (metis take_bit_nat_eq_self take_bit_nat_less_exp unsigned_take_bit_eq word_unat_eq_iff)

section \<open>Little-endian bytes\<close>

definition le_bytes :: "nat \<Rightarrow> 'a::len word \<Rightarrow> u8 list" where
  "le_bytes k w = map (\<lambda>i. ucast (drop_bit (8 * i) w)) [0..<k]"

fun le_acc :: "nat \<Rightarrow> 'a::len word \<Rightarrow> u8 list \<Rightarrow> 'a word" where
  "le_acc i v [] = v"
| "le_acc i v (b # bs) = le_acc (Suc i) (v OR push_bit (8 * i) (ucast b)) bs"

lemma length_le_bytes [simp]: "length (le_bytes k w) = k"
  by (simp add: le_bytes_def)

lemma le_bytes_0 [simp]: "le_bytes 0 w = []"
  by (simp add: le_bytes_def)

lemma le_bytes_Suc: "le_bytes (Suc k) w = ucast w # le_bytes k (drop_bit 8 w)"
  by (rule nth_equalityI) (auto simp: le_bytes_def nth_Cons add.commute split: nat.splits simp del: upt_Suc)

lemma bytes_bits_le_bytes [bitlist_simps]: "bytes_bits (le_bytes k w) = bits_of (8 * k) w"
proof (induction k arbitrary: w)
  case 0
  then show ?case by simp
next
  case (Suc k)
  have "bits_of (8 + 8 * k) w = bits_of 8 w @ bits_of (8 * k) (drop_bit 8 w)"
    by (rule bits_of_add)
  then show ?case by (simp add: le_bytes_Suc Suc bits_of_ucast)
qed

lemma bit_le_acc:
  "bit (le_acc i v bs :: 'a::len word) j \<longleftrightarrow>
     bit v j \<or> (j < LENGTH('a) \<and> 8 * i \<le> j \<and> j < 8 * (i + length bs) \<and> bytes_bits bs ! (j - 8 * i))"
proof (induction bs arbitrary: i v)
  case Nil
  then show ?case by auto
next
  case (Cons b bs)
  have hd: "bits_of 8 b ! (j - 8 * i) = bit b (j - 8 * i)" if "j - 8 * i < 8"
    using that by simp
  show ?case
    by (cases "j - 8 * i < 8")
      (auto simp: Cons.IH bit_simps nth_append hd add.commute dest: bit_imp_le_length)
qed

lemma le_acc_eq_word_of_bits: "(le_acc 0 0 bs :: 'a::len word) = word_of_bits (bytes_bits bs)"
  by (rule bit_word_eqI) (auto simp: bit_le_acc bit_simps)

lemma le_acc_le_bytes [simp]:
  "8 * k = LENGTH('a) \<Longrightarrow> le_acc 0 0 (le_bytes k w) = (w :: 'a::len word)"
  by (simp add: le_acc_eq_word_of_bits bytes_bits_le_bytes)

end
