(* ===== verification/Core_Bits.thy ===== *)
theory Core_Bits
  imports QE_Prelude
begin

text \<open>
  Model of \<^verbatim>\<open>src/core/bits.h\<close>: the bit-stream writer and reader every variable-length codec
  uses, the zigzag map, the leading and trailing zero counts and the 64-bit Bloom filter.

  \<^item> A writer (\<open>tsdb_bw\<close>) holds the bytes already spilled. The C code stores byte \<open>i\<close> only at
    index \<^verbatim>\<open>bytes + i\<close> of the caller's buffer and never re-reads it, so the buffer is the list of
    bytes written and \<^verbatim>\<open>bytes\<close> is its length; \<^verbatim>\<open>cap\<close> stays a separate field.
  \<^item> A reader (\<open>tsdb_br\<close>) holds the whole input; \<^verbatim>\<open>cap\<close> is its length.
  \<^item> \<open>bw_bits\<close> and \<open>br_rest\<close> are the abstract states, lists of bits: what has been written, and
    what is still to be read. The locale \<open>bit_stream\<close> states the contract between the two ends,
    and its interpretation \<open>bs64\<close> discharges it for the code's writer and reader.
\<close>

section \<open>The writer\<close>

record tsdb_bw =
  bw_buf :: "u8 list"
  bw_cap :: nat
  bw_scratch :: u64
  bw_nbits :: nat
  bw_overflow :: bool

definition tsdb_bw_init :: "nat \<Rightarrow> tsdb_bw" where
  "tsdb_bw_init cap =
     \<lparr>bw_buf = [], bw_cap = cap, bw_scratch = 0, bw_nbits = 0, bw_overflow = False\<rparr>"

definition tsdb_bw_put :: "tsdb_bw \<Rightarrow> u64 \<Rightarrow> nat \<Rightarrow> tsdb_bw" where
  "tsdb_bw_put w val n =
     (if n = 0 then w
      else let v = (if n < 64 then val AND (push_bit n 1 - 1) else val);
               out = bw_scratch w OR push_bit (bw_nbits w) v
           in if bw_nbits w + n < 64
              then w\<lparr>bw_scratch := out, bw_nbits := bw_nbits w + n\<rparr>
              else if length (bw_buf w) + 8 > bw_cap w
              then w\<lparr>bw_scratch := out, bw_overflow := True\<rparr>
              else let w1 = w\<lparr>bw_buf := bw_buf w @ le_bytes 8 out\<rparr>;
                       shift = 64 - bw_nbits w
                   in if shift = 64 \<or> n = shift
                      then w1\<lparr>bw_scratch := 0, bw_nbits := (bw_nbits w + n) - 64\<rparr>
                      else w1\<lparr>bw_scratch := drop_bit shift v, bw_nbits := n - shift\<rparr>)"

definition tsdb_bw_finish :: "tsdb_bw \<Rightarrow> u8 list option" where
  "tsdb_bw_finish w =
     (if bw_overflow w then None
      else let need = (bw_nbits w + 7) div 8
           in if length (bw_buf w) + need > bw_cap w then None
              else Some (bw_buf w @ le_bytes need (bw_scratch w)))"

section \<open>The reader\<close>

record tsdb_br =
  br_buf :: "u8 list"
  br_bytes :: nat
  br_scratch :: u64
  br_nbits :: nat
  br_underflow :: bool

definition tsdb_br_init :: "u8 list \<Rightarrow> tsdb_br" where
  "tsdb_br_init buf =
     \<lparr>br_buf = buf, br_bytes = 0, br_scratch = 0, br_nbits = 0, br_underflow = False\<rparr>"

text \<open>The one-shot 8-byte load at the head of \<^verbatim>\<open>tsdb_br_refill\<close>.\<close>

definition br_bulk :: "tsdb_br \<Rightarrow> nat \<Rightarrow> tsdb_br" where
  "br_bulk r n =
     (if br_nbits r < n \<and> br_nbits r \<le> 56 \<and> br_bytes r + 8 \<le> length (br_buf r)
      then let w = le_acc 0 0 (take 8 (drop (br_bytes r) (br_buf r)));
               tk = (64 - br_nbits r) div 8;
               hv = br_nbits r + 8 * tk;
               s = (br_scratch r OR push_bit (br_nbits r) w) AND drop_bit (64 - hv) (- 1)
           in r\<lparr>br_scratch := s, br_bytes := br_bytes r + tk, br_nbits := hv\<rparr>
      else r)"

text \<open>Absorbing one byte: the body of the byte loop when input is left.\<close>

definition br_absorb :: "tsdb_br \<Rightarrow> tsdb_br" where
  "br_absorb r =
     r\<lparr>br_scratch := br_scratch r OR push_bit (br_nbits r) (ucast (br_buf r ! br_bytes r)),
       br_bytes := br_bytes r + 1,
       br_nbits := br_nbits r + 8\<rparr>"

function br_loop :: "tsdb_br \<Rightarrow> nat \<Rightarrow> tsdb_br" where
  "br_loop r n =
     (if br_nbits r < n
      then if br_bytes r \<ge> length (br_buf r)
           then let r1 = (if br_nbits r + 8 < n then r\<lparr>br_underflow := True\<rparr> else r);
                    r2 = r1\<lparr>br_nbits := br_nbits r + 8\<rparr>
                in if br_nbits r2 \<ge> 64 then r2\<lparr>br_nbits := 64\<rparr> else br_loop r2 n
           else br_loop (br_absorb r) n
      else r)"
  by pat_completeness auto
termination
  by (relation "measure (\<lambda>(r, n). n - br_nbits r)") (auto simp: br_absorb_def Let_def)

declare br_loop.simps [simp del]

definition tsdb_br_refill :: "tsdb_br \<Rightarrow> nat \<Rightarrow> tsdb_br" where
  "tsdb_br_refill r n = br_loop (br_bulk r n) n"

definition tsdb_br_get :: "tsdb_br \<Rightarrow> nat \<Rightarrow> u64 \<times> tsdb_br" where
  "tsdb_br_get r n0 =
     (if n0 = 0 then (0, r)
      else let n = (if n0 > 64 then 64 else n0);
               r1 = tsdb_br_refill r n;
               v = br_scratch r1 AND (if n = 64 then NOT 0 else push_bit n 1 - 1)
           in (v, r1\<lparr>br_scratch := (if n = 64 then 0 else drop_bit n (br_scratch r1)),
                    br_nbits := br_nbits r1 - n\<rparr>))"

section \<open>Zigzag, zero counts\<close>

definition tsdb_zigzag_enc :: "i64 \<Rightarrow> u64" where
  "tsdb_zigzag_enc v = push_bit 1 v XOR signed_drop_bit 63 v"

definition tsdb_zigzag_dec :: "u64 \<Rightarrow> i64" where
  "tsdb_zigzag_dec v = drop_bit 1 v XOR (- (v AND 1))"

text \<open>
  The portable branches of \<^verbatim>\<open>tsdb_clz64\<close> and \<^verbatim>\<open>tsdb_ctz64\<close>. The loop of the latter runs on a
  non-zero argument only; the test \<open>x \<noteq> 0\<close> in \<open>ctz_loop\<close> makes it total and changes no value there.
\<close>

definition clz_step :: "nat \<Rightarrow> u64 \<times> nat \<Rightarrow> u64 \<times> nat" where
  "clz_step k = (\<lambda>(x, n). if drop_bit (64 - k) x = 0 then (push_bit k x, n + k) else (x, n))"

definition tsdb_clz64 :: "u64 \<Rightarrow> nat" where
  "tsdb_clz64 x =
     (if x = 0 then 64
      else snd (clz_step 1 (clz_step 2 (clz_step 4 (clz_step 8 (clz_step 16 (clz_step 32 (x, 0))))))))"

function ctz_loop :: "u64 \<Rightarrow> nat \<Rightarrow> nat" where
  "ctz_loop x n = (if x \<noteq> 0 \<and> x AND 1 = 0 then ctz_loop (drop_bit 1 x) (n + 1) else n)"
  by pat_completeness auto
termination
proof (relation "measure (\<lambda>(x, n). unat x)", goal_cases)
  case 1
  show ?case by simp
next
  case (2 x n)
  then have "0 < unat x" by (simp add: unat_gt_0)
  then show ?case by (simp add: drop_bit_Suc unat_div)
qed

declare ctz_loop.simps [simp del]

definition tsdb_ctz64 :: "u64 \<Rightarrow> nat" where
  "tsdb_ctz64 x = (if x = 0 then 64 else ctz_loop x 0)"


section \<open>Bloom filter\<close>

definition tsdb_bloom_fnv1a :: "u32 \<Rightarrow> u32 \<Rightarrow> u32" where
  "tsdb_bloom_fnv1a v seed =
     (let p = 0x01000193;
          h1 = (seed XOR ucast (ucast v :: u8)) * p;
          h2 = (h1 XOR ucast (ucast (drop_bit 8 v) :: u8)) * p;
          h3 = (h2 XOR ucast (ucast (drop_bit 16 v) :: u8)) * p
      in (h3 XOR ucast (ucast (drop_bit 24 v) :: u8)) * p)"

text \<open>The three hashes of \<^verbatim>\<open>tsdb_bloom_add\<close> and \<^verbatim>\<open>tsdb_bloom_test\<close>, each reduced to a bit index.\<close>

definition bloom_hashes :: "u32 \<Rightarrow> u32 \<times> u32 \<times> u32" where
  "bloom_hashes v =
     (let h0 = tsdb_bloom_fnv1a v 0x811c9dc5;
          h1 = tsdb_bloom_fnv1a v 0x01000193 XOR drop_bit 5 h0;
          h2 = tsdb_bloom_fnv1a v 0x6b432795 XOR drop_bit 11 h0
      in (h0, h1, h2))"

definition tsdb_bloom_add :: "u64 \<Rightarrow> u32 \<Rightarrow> u64" where
  "tsdb_bloom_add bloom v =
     (case bloom_hashes v of (h0, h1, h2) \<Rightarrow>
        bloom OR push_bit (unat (h0 AND 63)) 1 OR push_bit (unat (h1 AND 63)) 1
              OR push_bit (unat (h2 AND 63)) 1)"

definition tsdb_bloom_test :: "u64 \<Rightarrow> u32 \<Rightarrow> bool" where
  "tsdb_bloom_test bloom v =
     (case bloom_hashes v of (h0, h1, h2) \<Rightarrow>
        if bloom AND push_bit (unat (h0 AND 63)) 1 = 0 then False
        else if bloom AND push_bit (unat (h1 AND 63)) 1 = 0 then False
        else if bloom AND push_bit (unat (h2 AND 63)) 1 = 0 then False
        else True)"

section \<open>Correctness of the writer\<close>

text \<open>The bits a writer holds, in stream order.\<close>

definition bw_bits :: "tsdb_bw \<Rightarrow> bool list" where
  "bw_bits w = bytes_bits (bw_buf w) @ bits_of (bw_nbits w) (bw_scratch w)"

definition bw_inv :: "tsdb_bw \<Rightarrow> bool" where
  "bw_inv w \<longleftrightarrow> bw_nbits w < 64 \<and> (bw_overflow w \<or> take_bit (bw_nbits w) (bw_scratch w) = bw_scratch w)
     \<and> length (bw_buf w) \<le> bw_cap w"

lemma bits_of_or_push_bit:
  assumes "take_bit n s = s" and "n + m \<le> LENGTH('a)"
  shows "bits_of (n + m) (s OR push_bit n v) = bits_of n s @ bits_of m (v :: 'a::len word)"
proof (rule nth_equalityI)
  fix i assume "i < length (bits_of (n + m) (s OR push_bit n v))"
  then have i: "i < n + m" by simp
  have hi: "\<not> bit s i" if "n \<le> i"
    using fits_bit [OF assms(1) that] .
  show "bits_of (n + m) (s OR push_bit n v) ! i = (bits_of n s @ bits_of m v) ! i"
    using i assms(2) hi by (auto simp: nth_append bit_simps)
qed simp

lemma tsdb_bw_init_inv [simp]: "bw_inv (tsdb_bw_init cap)"
  by (simp add: bw_inv_def tsdb_bw_init_def)

lemma tsdb_bw_init_bits [simp]: "bw_bits (tsdb_bw_init cap) = []"
  by (simp add: bw_bits_def tsdb_bw_init_def)

lemma bw_put_val:
  "n \<le> 64 \<Longrightarrow> (if n < 64 then val AND (push_bit n 1 - 1) else val) = take_bit n (val :: u64)"
  by (simp add: take_bit_word_eq_self)

lemma take_bit_or_push_bit:
  "take_bit n s = s \<Longrightarrow> take_bit (n + m) (s OR push_bit n (take_bit m v)) = s OR push_bit n (take_bit m (v :: u64))"
  by (rule fitsI) (auto simp: bit_simps fits_bit [of n s])

text \<open>The three outcomes of a put of \<open>n \<le> 64\<close> bits: buffered, refused, spilled.\<close>

lemma tsdb_bw_put_cases:
  assumes "n \<le> 64" and "bw_nbits w < 64"
  shows "tsdb_bw_put w val n =
    (let v = take_bit n val; nb = bw_nbits w; out = bw_scratch w OR push_bit nb v
     in if n = 0 then w
        else if nb + n < 64 then w\<lparr>bw_scratch := out, bw_nbits := nb + n\<rparr>
        else if length (bw_buf w) + 8 > bw_cap w then w\<lparr>bw_scratch := out, bw_overflow := True\<rparr>
        else w\<lparr>bw_buf := bw_buf w @ le_bytes 8 out, bw_scratch := drop_bit (64 - nb) v,
                bw_nbits := n - (64 - nb)\<rparr>)"
proof (cases "bw_nbits w + n = 64")
  case True
  then have n: "n = 64 - bw_nbits w" using assms by simp
  have "drop_bit (64 - bw_nbits w) (take_bit n val) = 0" by (simp add: n drop_bit_take_bit)
  then show ?thesis by (simp only: tsdb_bw_put_def Let_def bw_put_val [OF assms(1)]) (simp add: n)
next
  case False
  then show ?thesis
    using assms by (simp only: tsdb_bw_put_def Let_def bw_put_val [OF assms(1)]) auto
qed

lemma tsdb_bw_put_inv: "bw_inv w \<Longrightarrow> n \<le> 64 \<Longrightarrow> bw_inv (tsdb_bw_put w v n)"
  by (auto simp: bw_inv_def tsdb_bw_put_cases Let_def take_bit_or_push_bit drop_bit_take_bit simp del: take_bit_or)

lemma tsdb_bw_put_overflow: "bw_overflow w \<Longrightarrow> bw_overflow (tsdb_bw_put w v n)"
  by (simp add: tsdb_bw_put_def Let_def)

lemma tsdb_bw_put_bits:
  assumes "bw_inv w" and "n \<le> 64" and "\<not> bw_overflow (tsdb_bw_put w v n)"
  shows "bw_bits (tsdb_bw_put w v n) = bw_bits w @ bits_of n v"
proof -
  let ?nb = "bw_nbits w" and ?s = "bw_scratch w"
  have nb: "?nb < 64" using assms(1) by (simp add: bw_inv_def)
  have "\<not> bw_overflow w" using assms(3) tsdb_bw_put_overflow by blast
  then have s: "take_bit ?nb ?s = ?s" using assms(1) by (simp add: bw_inv_def)
  show ?thesis
  proof (cases "?nb + n < 64")
    case True
    then show ?thesis
      using s nb assms(2) bits_of_or_push_bit [OF s, of n "take_bit n v"]
      by (auto simp: tsdb_bw_put_cases Let_def bw_bits_def)
  next
    case False
    have out: "bits_of 64 (?s OR push_bit ?nb (take_bit n v)) = bits_of ?nb ?s @ bits_of (64 - ?nb) v"
      using bits_of_or_push_bit [OF s, of "64 - ?nb" "take_bit n v"] nb False by simp
    have "bits_of (64 - ?nb + (n - (64 - ?nb))) v
        = bits_of (64 - ?nb) v @ bits_of (n - (64 - ?nb)) (drop_bit (64 - ?nb) v)"
      by (rule bits_of_add)
    then have vs: "bits_of n v = bits_of (64 - ?nb) v @ bits_of (n - (64 - ?nb)) (drop_bit (64 - ?nb) v)"
      using False by simp
    have "tsdb_bw_put w v n = w\<lparr>bw_buf := bw_buf w @ le_bytes 8 (?s OR push_bit ?nb (take_bit n v)),
        bw_scratch := drop_bit (64 - ?nb) (take_bit n v), bw_nbits := n - (64 - ?nb)\<rparr>"
      using False nb assms(2,3) by (auto simp: tsdb_bw_put_cases Let_def split: if_splits)
    then have "bw_bits (tsdb_bw_put w v n) = bytes_bits (bw_buf w) @ bits_of ?nb ?s @ bits_of (64 - ?nb) v
        @ bits_of (n - (64 - ?nb)) (drop_bit (64 - ?nb) (take_bit n v))"
      by (simp add: bw_bits_def bytes_bits_le_bytes out)
    then show ?thesis by (simp add: bw_bits_def vs drop_bit_take_bit)
  qed
qed

text \<open>Closing a stream pads the last byte with zero bits only.\<close>

lemma tsdb_bw_finish_bits:
  assumes "bw_inv w" and "tsdb_bw_finish w = Some bs"
  shows "\<exists>k < 8. bytes_bits bs = bw_bits w @ replicate k False"
proof -
  let ?nb = "bw_nbits w" and ?s = "bw_scratch w" and ?need = "(bw_nbits w + 7) div 8"
  from assms(2) have ov: "\<not> bw_overflow w" and bs: "bs = bw_buf w @ le_bytes ?need ?s"
    by (auto simp: tsdb_bw_finish_def Let_def split: if_splits)
  have s: "take_bit ?nb ?s = ?s" using assms(1) ov by (simp add: bw_inv_def)
  define k where "k = 8 * ?need - ?nb"
  have k: "k < 8" "8 * ?need = ?nb + k" by (auto simp: k_def)
  have "drop_bit ?nb ?s = 0" using s by (rule fits_drop_bit)
  then have "bits_of (8 * ?need) ?s = bits_of ?nb ?s @ replicate k False"
    by (simp add: k(2) bits_of_add)
  then show ?thesis using k(1) by (auto simp: bs bw_bits_def bytes_bits_le_bytes)
qed

section \<open>Correctness of the reader\<close>

text \<open>The bits still to be delivered: those banked in the scratch register, then the input.\<close>

definition br_rest :: "tsdb_br \<Rightarrow> bool list" where
  "br_rest r = bits_of (br_nbits r) (br_scratch r) @ bytes_bits (drop (br_bytes r) (br_buf r))"

definition br_inv :: "tsdb_br \<Rightarrow> bool" where
  "br_inv r \<longleftrightarrow> br_nbits r \<le> 64 \<and> take_bit (br_nbits r) (br_scratch r) = br_scratch r
     \<and> br_bytes r \<le> length (br_buf r)"

definition br_ahead :: "tsdb_br \<Rightarrow> bool list \<Rightarrow> bool" where
  "br_ahead r bs \<longleftrightarrow> br_inv r \<and> \<not> br_underflow r \<and> (\<exists>pad. br_rest r = bs @ pad)"

lemma tsdb_br_init_inv [simp]: "br_inv (tsdb_br_init buf)"
  by (simp add: br_inv_def tsdb_br_init_def)

lemma tsdb_br_init_rest [simp]: "br_rest (tsdb_br_init buf) = bytes_bits buf"
  by (simp add: br_rest_def tsdb_br_init_def)

lemma br_absorb_fields [simp]:
  "br_nbits (br_absorb r) = br_nbits r + 8"
  "br_bytes (br_absorb r) = br_bytes r + 1"
  "br_buf (br_absorb r) = br_buf r"
  "br_underflow (br_absorb r) = br_underflow r"
  by (simp_all add: br_absorb_def)

lemma br_absorb_rest:
  assumes "br_inv r" and "br_nbits r \<le> 56" and "br_bytes r < length (br_buf r)"
  shows "br_rest (br_absorb r) = br_rest r" and "br_inv (br_absorb r)"
proof -
  let ?nb = "br_nbits r" and ?s = "br_scratch r" and ?b = "br_buf r ! br_bytes r"
  have s: "take_bit ?nb ?s = ?s" using assms(1) by (simp add: br_inv_def)
  have "bits_of (?nb + 8) (?s OR push_bit ?nb (ucast ?b :: u64)) = bits_of ?nb ?s @ bits_of 8 (ucast ?b :: u64)"
    using s assms(2) by (intro bits_of_or_push_bit) auto
  then have "bits_of (?nb + 8) (?s OR push_bit ?nb (ucast ?b :: u64)) = bits_of ?nb ?s @ bits_of 8 ?b"
    by (simp add: bits_of_ucast)
  then show "br_rest (br_absorb r) = br_rest r"
    using assms(3) by (simp add: br_rest_def br_absorb_def flip: Cons_nth_drop_Suc)
  have "take_bit (?nb + 8) (?s OR push_bit ?nb (ucast ?b :: u64)) = ?s OR push_bit ?nb (ucast ?b)"
    by (rule fitsI) (auto simp: bit_simps fits_bit [OF s] dest: bit_imp_le_length)
  then show "br_inv (br_absorb r)"
    using assms by (simp add: br_inv_def br_absorb_def del: take_bit_or)
qed

lemma br_bulk_rest:
  assumes "br_inv r"
  shows "br_rest (br_bulk r n) = br_rest r" and "br_inv (br_bulk r n)"
    and "br_underflow (br_bulk r n) = br_underflow r"
proof -
  let ?nb = "br_nbits r" and ?s = "br_scratch r" and ?B = "take 8 (drop (br_bytes r) (br_buf r))"
  let ?tk = "(64 - br_nbits r) div 8"
  define w :: u64 where "w = le_acc 0 0 ?B"
  show "br_underflow (br_bulk r n) = br_underflow r" by (simp add: br_bulk_def Let_def)
  have s: "take_bit ?nb ?s = ?s" using assms by (simp add: br_inv_def)
  have "br_rest (br_bulk r n) = br_rest r \<and> br_inv (br_bulk r n)"
  proof (cases "?nb < n \<and> ?nb \<le> 56 \<and> br_bytes r + 8 \<le> length (br_buf r)")
    case True
    have hv: "?nb + 8 * ?tk \<le> 64" "?tk \<le> 8" using True by linarith+
    have B: "length ?B = 8" using True by auto
    have "bits_of 64 w = bytes_bits ?B"
      unfolding w_def le_acc_eq_word_of_bits by (rule bits_of_word_of_bits) (simp_all add: B del: length_take)
    then have "take (8 * ?tk) (bits_of 64 w) = bytes_bits (take ?tk ?B)"
      by (simp only: take_bytes_bits)
    then have w: "bits_of (8 * ?tk) w = bytes_bits (take ?tk (drop (br_bytes r) (br_buf r)))"
      using hv by (simp add: min_def)
    have "bits_of (?nb + 8 * ?tk) (?s OR push_bit ?nb w) = bits_of ?nb ?s @ bits_of (8 * ?tk) w"
      using s hv by (intro bits_of_or_push_bit) auto
    then have bits: "bits_of (?nb + 8 * ?tk) (?s OR push_bit ?nb w)
        = bits_of ?nb ?s @ bytes_bits (take ?tk (drop (br_bytes r) (br_buf r)))"
      by (simp only: w)
    have eq: "br_bulk r n = r\<lparr>br_scratch := take_bit (?nb + 8 * ?tk) (?s OR push_bit ?nb w),
        br_bytes := br_bytes r + ?tk, br_nbits := ?nb + 8 * ?tk\<rparr>"
      using True hv by (simp add: br_bulk_def Let_def w_def [symmetric] del: take_bit_or)
    have "br_rest (br_bulk r n) = bits_of ?nb ?s @ bytes_bits (take ?tk (drop (br_bytes r) (br_buf r)))
        @ bytes_bits (drop (br_bytes r + ?tk) (br_buf r))"
      unfolding br_rest_def eq by (simp add: bits del: take_bit_or)
    also have "drop (br_bytes r + ?tk) (br_buf r) = drop ?tk (drop (br_bytes r) (br_buf r))"
      by (simp add: add.commute)
    also have "bits_of ?nb ?s @ bytes_bits (take ?tk (drop (br_bytes r) (br_buf r)))
        @ bytes_bits (drop ?tk (drop (br_bytes r) (br_buf r))) = br_rest r"
      unfolding br_rest_def bytes_bits_append [symmetric] append_take_drop_id ..
    finally show ?thesis
      using assms True hv by (simp add: br_inv_def eq del: take_bit_or)
  qed (use assms in \<open>auto simp: br_bulk_def\<close>)
  then show "br_rest (br_bulk r n) = br_rest r" "br_inv (br_bulk r n)" by auto
qed

text \<open>With at least \<open>n \<le> 57\<close> bits ahead the byte loop loses nothing and pads nothing.\<close>

lemma br_loop_rest:
  assumes "br_inv r" and "n \<le> 57" and "n \<le> length (br_rest r)"
  shows "br_rest (br_loop r n) = br_rest r \<and> br_inv (br_loop r n) \<and> n \<le> br_nbits (br_loop r n)
    \<and> br_underflow (br_loop r n) = br_underflow r"
  using assms
proof (induction r n rule: br_loop.induct)
  case (1 r n)
  show ?case
  proof (cases "br_nbits r < n")
    case True
    then have more: "br_bytes r < length (br_buf r)"
      using "1.prems" by (auto simp: br_rest_def)
    have "br_nbits r \<le> 56" using True "1.prems" by simp
    then have ab: "br_rest (br_absorb r) = br_rest r" "br_inv (br_absorb r)"
      using br_absorb_rest "1.prems"(1) more by blast+
    show ?thesis
      using "1.IH"(2) [OF True] more ab "1.prems" True by (simp add: br_loop.simps [of r n])
  next
    case False
    then show ?thesis using "1.prems" by (simp add: br_loop.simps [of r n])
  qed
qed

lemma tsdb_br_refill_rest:
  assumes "br_inv r" and "n \<le> 57" and "n \<le> length (br_rest r)"
  shows "br_rest (tsdb_br_refill r n) = br_rest r" and "br_inv (tsdb_br_refill r n)"
    and "n \<le> br_nbits (tsdb_br_refill r n)"
    and "br_underflow (tsdb_br_refill r n) = br_underflow r"
  using br_loop_rest [of "br_bulk r n" n] br_bulk_rest [OF assms(1), of n] assms(2,3)
  by (simp_all add: tsdb_br_refill_def)

lemma tsdb_br_get_ahead:
  assumes "br_ahead r (bits_of n v @ bs)" and "n \<le> 57"
  shows "\<exists>r'. tsdb_br_get r n = (take_bit n v, r') \<and> br_ahead r' bs"
proof (cases "n = 0")
  case True
  then show ?thesis using assms(1) by (simp add: tsdb_br_get_def)
next
  case False
  from assms(1) obtain pad where inv: "br_inv r" and nu: "\<not> br_underflow r"
    and rest: "br_rest r = bits_of n v @ bs @ pad" by (auto simp: br_ahead_def)
  define r1 where "r1 = tsdb_br_refill r n"
  have r1: "br_rest r1 = bits_of n v @ bs @ pad" "br_inv r1" "n \<le> br_nbits r1" "\<not> br_underflow r1"
    using tsdb_br_refill_rest [OF inv assms(2)] rest nu by (auto simp: r1_def)
  let ?s = "br_scratch r1" and ?nb = "br_nbits r1"
  have "take n (br_rest r1) = bits_of n v" by (simp add: r1(1))
  then have "bits_of n ?s = bits_of n v" using r1(3) by (simp add: br_rest_def min_def)
  then have val: "take_bit n ?s = take_bit n v" by (simp add: bits_of_inj)
  let ?r' = "r1\<lparr>br_scratch := drop_bit n ?s, br_nbits := ?nb - n\<rparr>"
  have get: "tsdb_br_get r n = (take_bit n v, ?r')"
    using False assms(2) by (simp add: tsdb_br_get_def Let_def r1_def [symmetric] val)
  have "br_rest ?r' = drop n (br_rest r1)" using r1(3) by (simp add: br_rest_def)
  then have "br_rest ?r' = bs @ pad" by (simp add: r1(1))
  moreover have "br_inv ?r'"
  proof -
    have fit: "take_bit ?nb ?s = ?s" using r1(2) by (simp add: br_inv_def)
    show ?thesis using r1(2) by (auto simp: br_inv_def bit_simps fits_bit [OF fit] intro!: fitsI)
  qed
  ultimately show ?thesis using get r1(4) by (auto simp: br_ahead_def)
qed

section \<open>The stream contract\<close>

text \<open>
  What the codecs rely on: a put appends its bits unless the writer has overflowed, overflow is
  sticky, and a get of at most \<open>lim\<close> bits returns the bits that were put. The code's reader has
  \<open>lim = 57\<close>: one more than the 56 bits the comments in \<^verbatim>\<open>gorilla.c\<close> and \<^verbatim>\<open>chimp.c\<close> allow.
  Longer fields are split in two by the clients; that the split is right is proved here once.
\<close>

locale bit_stream =
  fixes put :: "'w \<Rightarrow> u64 \<Rightarrow> nat \<Rightarrow> 'w"
    and overflow :: "'w \<Rightarrow> bool"
    and winv :: "'w \<Rightarrow> bool"
    and written :: "'w \<Rightarrow> bool list"
    and get :: "'r \<Rightarrow> nat \<Rightarrow> u64 \<times> 'r"
    and ahead :: "'r \<Rightarrow> bool list \<Rightarrow> bool"
    and lim :: nat
  assumes put_inv: "winv w \<Longrightarrow> n \<le> 64 \<Longrightarrow> winv (put w v n)"
    and put_overflow: "overflow w \<Longrightarrow> overflow (put w v n)"
    and put_written: "winv w \<Longrightarrow> n \<le> 64 \<Longrightarrow> \<not> overflow (put w v n) \<Longrightarrow>
          written (put w v n) = written w @ bits_of n v"
    and get_ahead: "ahead r (bits_of n v @ bs) \<Longrightarrow> n \<le> lim \<Longrightarrow>
          \<exists>r'. get r n = (take_bit n v, r') \<and> ahead r' bs"
    and lim_half: "32 \<le> lim"
begin

lemma put_split_written:
  assumes "winv w" and "32 < n" and "n \<le> 64"
    and "\<not> overflow (put (put w (take_bit 32 v) 32) (drop_bit 32 v) (n - 32))"
  shows "written (put (put w (take_bit 32 v) 32) (drop_bit 32 v) (n - 32)) = written w @ bits_of n v"
proof -
  have no: "\<not> overflow (put w (take_bit 32 v) 32)" using assms(4) put_overflow by blast
  have "bits_of (32 + (n - 32)) v = bits_of 32 v @ bits_of (n - 32) (drop_bit 32 v)"
    by (rule bits_of_add)
  then show ?thesis
    using assms no by (simp add: put_written put_inv)
qed

lemma get_split_ahead:
  assumes "ahead r (bits_of n v @ bs)" and "32 < n" and "n \<le> 64"
  shows "\<exists>lo r1 hi r2. get r 32 = (lo, r1) \<and> get r1 (n - 32) = (hi, r2)
           \<and> lo OR push_bit 32 hi = take_bit n v \<and> ahead r2 bs"
proof -
  have "bits_of (32 + (n - 32)) v = bits_of 32 v @ bits_of (n - 32) (drop_bit 32 v)"
    by (rule bits_of_add)
  then have v: "bits_of n v @ bs = bits_of 32 v @ bits_of (n - 32) (drop_bit 32 v) @ bs"
    using assms(2) by simp
  obtain r1 where r1: "get r 32 = (take_bit 32 v, r1)" "ahead r1 (bits_of (n - 32) (drop_bit 32 v) @ bs)"
    using get_ahead [of r 32 v] assms(1) lim_half unfolding v by blast
  have "n - 32 \<le> lim" using assms(3) lim_half by linarith
  then obtain r2 where r2: "get r1 (n - 32) = (take_bit (n - 32) (drop_bit 32 v), r2)" "ahead r2 bs"
    using get_ahead [OF r1(2)] by blast
  have "take_bit 32 v OR push_bit 32 (take_bit (n - 32) (drop_bit 32 v)) = take_bit n v"
    using assms(2,3) by (intro bit_word_eqI) (auto simp: bit_simps)
  then show ?thesis using r1(1) r2 by blast
qed

end

interpretation bs64: bit_stream tsdb_bw_put bw_overflow bw_inv bw_bits tsdb_br_get br_ahead 57
  by unfold_locales
    (simp_all add: tsdb_bw_put_inv tsdb_bw_put_overflow tsdb_bw_put_bits tsdb_br_get_ahead)

section \<open>Zigzag is a bijection that keeps small magnitudes small\<close>

lemma bit_zigzag_enc:
  "bit (tsdb_zigzag_enc v) i \<longleftrightarrow> i < 64 \<and> (if i = 0 then bit v 63 else bit v (i - 1) \<noteq> bit v 63)"
  unfolding tsdb_zigzag_enc_def bit_xor_iff bit_push_bit_iff
  by (auto simp: bit_signed_drop_bit_iff dest: bit_imp_le_length)

lemma bit_zigzag_dec:
  "bit (tsdb_zigzag_dec u) i \<longleftrightarrow> i < 64 \<and> bit u (Suc i) \<noteq> bit u 0"
proof -
  have "- (u AND 1) = (if bit u 0 then - 1 else 0)"
    by (simp add: and_one_eq bit_0 mod2_eq_if)
  then show ?thesis
    by (auto simp: tsdb_zigzag_dec_def bit_simps dest: bit_imp_le_length)
qed

lemma zigzag_dec_enc [simp]: "tsdb_zigzag_dec (tsdb_zigzag_enc v) = v"
proof (rule bit_word_eqI)
  fix i assume "i < LENGTH(64)"
  then have "i < 63 \<or> i = 63" by auto
  then show "bit (tsdb_zigzag_dec (tsdb_zigzag_enc v)) i = bit v i"
    by (auto simp: bit_zigzag_dec bit_zigzag_enc)
qed

lemma zigzag_enc_dec [simp]: "tsdb_zigzag_enc (tsdb_zigzag_dec u) = u"
proof (rule bit_word_eqI)
  fix i assume "i < LENGTH(64)"
  then have "i = 0 \<or> 0 < i \<and> i < 64" by auto
  moreover have "\<not> bit u 64" by (auto dest: bit_imp_le_length)
  ultimately show "bit (tsdb_zigzag_enc (tsdb_zigzag_dec u)) i = bit u i"
    by (auto simp: bit_zigzag_dec bit_zigzag_enc)
qed

lemma zigzag_enc_fits:
  assumes "- (2 ^ k) \<le> sint v" and "sint v < 2 ^ k" and "k < 64"
  shows "take_bit (Suc k) (tsdb_zigzag_enc v) = tsdb_zigzag_enc v"
proof (rule fitsI)
  have "signed_take_bit k (sint v) = sint v"
    using assms by (intro signed_take_bit_int_eq_self) auto
  then have min: "bit (sint v) i = bit (sint v) (min k i)" for i
    using bit_signed_take_bit_iff [of k "sint v" i] by simp
  have word: "bit (sint v) i = bit v i" if "i < 64" for i
    using that by (auto simp: bit_sint_iff dest: bit_imp_le_length)
  have eq: "bit v i = bit v k" if "k \<le> i" "i < 64" for i
    using that assms(3) min [of i] word [of i] word [of k] by simp
  fix i :: nat assume i: "Suc k \<le> i" "i < LENGTH(64)"
  then have "bit v (i - 1) = bit v 63" using eq [of "i - 1"] eq [of 63] assms(3) by auto
  then show "\<not> bit (tsdb_zigzag_enc v) i" using i by (simp add: bit_zigzag_enc)
qed

lemma zigzag_enc_fits32:
  assumes "- (2 ^ 31) \<le> sint v" and "sint v < 2 ^ 31"
  shows "take_bit 32 (tsdb_zigzag_enc v) = tsdb_zigzag_enc v"
  using zigzag_enc_fits [OF assms] by (simp add: numeral_eq_Suc)

section \<open>Leading and trailing zero counts\<close>

definition clz_inv :: "u64 \<Rightarrow> nat \<Rightarrow> u64 \<times> nat \<Rightarrow> bool" where
  "clz_inv x k = (\<lambda>(y, n). y = push_bit n x \<and> (\<forall>i. 64 - n \<le> i \<longrightarrow> \<not> bit x i) \<and> drop_bit (64 - k) y \<noteq> 0)"

lemma clz_step_inv:
  assumes "clz_inv x m s" and "m = k + k" and "m \<le> 64"
  shows "clz_inv x k (clz_step k s)"
proof (cases s)
  case (Pair y n)
  show ?thesis
  proof (cases "drop_bit (64 - k) y = 0")
    case True
    have y: "y = push_bit n x" and nz: "drop_bit (64 - (k + k)) y \<noteq> 0"
      and hi: "\<And>i. 64 - n \<le> i \<Longrightarrow> \<not> bit x i"
      using assms(1,2) Pair by (auto simp: clz_inv_def)
    have top: "\<not> bit y i" if "64 - k \<le> i" for i
      using arg_cong [OF True, of "\<lambda>w. bit w (i - (64 - k))"] that by (simp add: bit_drop_bit_eq)
    obtain j where "bit y (64 - (k + k) + j)"
      using word_nonzero_bit [OF nz] by (auto simp: bit_drop_bit_eq)
    then have "bit y (64 - (k + k) + j)" and "64 - (k + k) + j < 64 - k"
      using top not_le by blast+
    then have "bit (push_bit k y) (64 - k + j)" using assms(2,3) by (auto simp: bit_simps add.commute)
    then have "bit (drop_bit (64 - k) (push_bit k y)) j" by (simp add: bit_drop_bit_eq)
    then have nz': "drop_bit (64 - k) (push_bit k y) \<noteq> 0" by auto
    have "\<not> bit x i" if "64 - (n + k) \<le> i" for i
      using top [of "i + n"] hi [of i] that by (cases "64 - n \<le> i") (auto simp: y bit_simps)
    then show ?thesis
      using True nz' Pair by (simp add: clz_inv_def clz_step_def y add.commute)
  qed (use assms Pair in \<open>auto simp: clz_inv_def clz_step_def\<close>)
qed

lemma tsdb_clz64_spec:
  assumes "x \<noteq> 0"
  shows "tsdb_clz64 x < 64" and "bit x (63 - tsdb_clz64 x)" and "64 - tsdb_clz64 x \<le> i \<Longrightarrow> \<not> bit x i"
proof -
  have "clz_inv x 64 (x, 0)"
    using assms by (auto simp: clz_inv_def dest: bit_imp_le_length)
  then have "clz_inv x 1 (clz_step 1 (clz_step 2 (clz_step 4 (clz_step 8 (clz_step 16 (clz_step 32 (x, 0)))))))"
    by (intro clz_step_inv [where m = 2 and k = 1] clz_step_inv [where m = 4 and k = 2]
        clz_step_inv [where m = 8 and k = 4] clz_step_inv [where m = 16 and k = 8]
        clz_step_inv [where m = 32 and k = 16] clz_step_inv [where m = 64 and k = 32]) simp_all
  then obtain y n where inv: "clz_inv x 1 (y, n)" and n: "tsdb_clz64 x = n"
    using assms by (metis prod.collapse tsdb_clz64_def)
  from inv have nz: "drop_bit 63 (push_bit n x) \<noteq> 0" and hi: "\<And>i. 64 - n \<le> i \<Longrightarrow> \<not> bit x i"
    by (auto simp: clz_inv_def)
  obtain j where "bit (push_bit n x) (63 + j)"
    using word_nonzero_bit [OF nz] by (auto simp: bit_drop_bit_eq)
  then have "n \<le> 63" "bit x (63 - n)" by (auto simp: bit_simps dest: bit_imp_le_length)
  with n hi show "tsdb_clz64 x < 64" "bit x (63 - tsdb_clz64 x)" "64 - tsdb_clz64 x \<le> i \<Longrightarrow> \<not> bit x i"
    by auto
qed

lemma ctz_loop_spec:
  "x \<noteq> 0 \<Longrightarrow> \<exists>j < 64. ctz_loop x n = n + j \<and> bit x j \<and> (\<forall>i < j. \<not> bit x i)"
proof (induction x n rule: ctz_loop.induct)
  case (1 x n)
  show ?case
  proof (cases "x AND 1 = 0")
    case True
    then have b0: "\<not> bit x 0" by (simp add: and_one_eq bit_0 odd_iff_mod_2_eq_one)
    obtain i where "bit x i" using word_nonzero_bit [OF "1.prems"] by blast
    then have "bit (drop_bit 1 x) (i - 1)" using b0 by (cases i) (auto simp: bit_drop_bit_eq)
    then have "drop_bit 1 x \<noteq> 0" by auto
    then obtain j where j: "ctz_loop (drop_bit 1 x) (n + 1) = n + 1 + j" "bit x (Suc j)"
      "\<forall>i < j. \<not> bit x (Suc i)"
      using "1.IH" "1.prems" True by (auto simp: bit_drop_bit_eq)
    have "Suc j < 64" using j(2) by (auto dest: bit_imp_le_length)
    moreover have "\<forall>i < Suc j. \<not> bit x i" using j(3) b0 by (auto simp: less_Suc_eq_0_disj)
    ultimately show ?thesis
      using j True "1.prems" by (intro exI [of _ "Suc j"]) (simp add: ctz_loop.simps [of x n])
  next
    case False
    then have "bit x 0" by (simp add: and_one_eq bit_0 odd_iff_mod_2_eq_one)
    then show ?thesis using False by (intro exI [of _ 0]) (simp add: ctz_loop.simps [of x n])
  qed
qed

lemma tsdb_ctz64_spec:
  assumes "x \<noteq> 0"
  shows "tsdb_ctz64 x < 64" and "bit x (tsdb_ctz64 x)" and "i < tsdb_ctz64 x \<Longrightarrow> \<not> bit x i"
  using ctz_loop_spec [OF assms, of 0] assms by (auto simp: tsdb_ctz64_def)

lemma clz_ctz_bound: "x \<noteq> 0 \<Longrightarrow> tsdb_clz64 x + tsdb_ctz64 x < 64"
  using tsdb_clz64_spec(1) [of x] tsdb_clz64_spec(3) [of x "tsdb_ctz64 x"] tsdb_ctz64_spec(2) [of x]
  by linarith

text \<open>
  A non-zero word is recovered from any window that covers its significant bits: this is what
  the XOR codecs store.
\<close>

lemma window_restore:
  assumes "x \<noteq> 0" and "lead \<le> tsdb_clz64 x" and "trail \<le> tsdb_ctz64 x" and "m = 64 - lead - trail"
  shows "push_bit trail (take_bit m (drop_bit trail x)) = x"
proof (rule bit_word_eqI)
  fix i assume i: "i < LENGTH(64)"
  have "bit x i \<Longrightarrow> i < 64 - lead" using assms(1,2) tsdb_clz64_spec(3) [of x i] by linarith
  moreover have "bit x i \<Longrightarrow> trail \<le> i" using assms(1,3) tsdb_ctz64_spec(3) [of x i] by linarith
  ultimately show "bit (push_bit trail (take_bit m (drop_bit trail x))) i = bit x i"
    using i assms(4) by (auto simp: bit_simps)
qed

section \<open>The Bloom filter has no false negatives\<close>

lemma and_push_bit_one_eq_0:
  "k < 64 \<Longrightarrow> (b AND push_bit k 1 = (0 :: u64)) \<longleftrightarrow> \<not> bit b k"
  using bit_eq_iff [of "b AND push_bit k 1" 0] by (auto simp: bit_simps)

lemma bloom_index_bound: "unat ((h :: u32) AND 63) < 64"
  using and_mask_less_size [of 6 h] by (simp add: mask_eq_exp_minus_1 word_size word_less_nat_alt)

lemma tsdb_bloom_test_iff:
  "tsdb_bloom_test b v \<longleftrightarrow> (case bloom_hashes v of (h0, h1, h2) \<Rightarrow>
     bit b (unat (h0 AND 63)) \<and> bit b (unat (h1 AND 63)) \<and> bit b (unat (h2 AND 63)))"
  by (auto simp: tsdb_bloom_test_def and_push_bit_one_eq_0 bloom_index_bound split: prod.splits
      simp del: push_bit_of_1)

lemma bit_bloom_add:
  "bit (tsdb_bloom_add b v) i \<longleftrightarrow> bit b i \<or> (i < 64 \<and> (case bloom_hashes v of (h0, h1, h2) \<Rightarrow>
     i = unat (h0 AND 63) \<or> i = unat (h1 AND 63) \<or> i = unat (h2 AND 63)))"
  by (auto simp: tsdb_bloom_add_def bit_simps split: prod.splits)

lemma bloom_add_test: "tsdb_bloom_test (tsdb_bloom_add b v) v"
  by (simp add: tsdb_bloom_test_iff bit_bloom_add bloom_index_bound split: prod.splits)

lemma bloom_add_mono: "tsdb_bloom_test b u \<Longrightarrow> tsdb_bloom_test (tsdb_bloom_add b v) u"
  by (auto simp: tsdb_bloom_test_iff bit_bloom_add split: prod.splits)

lemma bloom_fold_mono: "tsdb_bloom_test b u \<Longrightarrow> tsdb_bloom_test (fold (\<lambda>v b. tsdb_bloom_add b v) vs b) u"
  by (induction vs arbitrary: b) (simp_all add: bloom_add_mono)

lemma bloom_fold_member: "v \<in> set vs \<Longrightarrow> tsdb_bloom_test (fold (\<lambda>v b. tsdb_bloom_add b v) vs b) v"
  by (induction vs arbitrary: b) (auto simp: bloom_fold_mono bloom_add_test)

end
