(* ===== verification/Core_Fields.thy ===== *)
theory Core_Fields
  imports Core_Bits
begin

text \<open>
  Whole streams of bit fields over the writer and the reader of \<^verbatim>\<open>src/core/bits.h\<close>.

  \<^item> \<open>put_fields\<close> and \<open>get_fields\<close> are any sequence of puts and of gets, as a client makes them.
  \<^item> A stream is refused exactly when its bits do not fit the buffer, and what is accepted reads back.
  \<^item> \<open>br_get_bytewise\<close> is the reader without the 8-byte load; the comment on \<^verbatim>\<open>tsdb_br_refill\<close> claims
    that the load changes nothing a client can see, and \<open>br_ahead_of\<close> is the simulation that
    shows it for fields of up to 57 bits, also when the input runs out.
\<close>

section \<open>Sequences of fields\<close>

definition put_fields :: "(u64 \<times> nat) list \<Rightarrow> tsdb_bw \<Rightarrow> tsdb_bw" where
  "put_fields fs w = fold (\<lambda>(v, n) w. tsdb_bw_put w v n) fs w"

fun get_fields :: "(tsdb_br \<Rightarrow> nat \<Rightarrow> u64 \<times> tsdb_br) \<Rightarrow> tsdb_br \<Rightarrow> nat list \<Rightarrow> (u64 \<times> bool) list" where
  "get_fields get r [] = []"
| "get_fields get r (n # ns) =
     (case get r n of (v, r') \<Rightarrow> (v, br_underflow r') # get_fields get r' ns)"

definition fields_bits :: "(u64 \<times> nat) list \<Rightarrow> bool list" where
  "fields_bits fs = concat (map (\<lambda>(v, n). bits_of n v) fs)"

lemma put_fields_simps [simp]:
  "put_fields [] w = w"
  "put_fields ((v, n) # fs) w = put_fields fs (tsdb_bw_put w v n)"
  by (simp_all add: put_fields_def)

lemma fields_bits_simps [simp]:
  "fields_bits [] = []"
  "fields_bits ((v, n) # fs) = bits_of n v @ fields_bits fs"
  by (simp_all add: fields_bits_def)

lemma length_fields_bits: "length (fields_bits fs) = sum_list (map snd fs)"
  by (induction fs) auto

section \<open>A stream is refused exactly when it does not fit\<close>

lemma tsdb_bw_put_cap [simp]: "bw_cap (tsdb_bw_put w v n) = bw_cap w"
  by (simp add: tsdb_bw_put_def Let_def)

lemma length_bw_bits: "length (bw_bits w) = 8 * length (bw_buf w) + bw_nbits w"
  by (simp add: bw_bits_def)

lemma tsdb_bw_put_overflow_room:
  assumes "bw_inv w" and "n \<le> 64" and "\<not> bw_overflow w" and "bw_overflow (tsdb_bw_put w v n)"
  shows "8 * bw_cap w < length (bw_bits w) + n"
  using assms by (auto simp: bw_inv_def tsdb_bw_put_cases length_bw_bits Let_def split: if_splits)

lemma tsdb_bw_finish_None_iff:
  assumes "bw_inv w"
  shows "tsdb_bw_finish w = None \<longleftrightarrow> bw_overflow w \<or> 8 * bw_cap w < length (bw_bits w)"
  using assms by (auto simp: tsdb_bw_finish_def length_bw_bits Let_def bw_inv_def)

lemma put_fields_None_iff:
  assumes "bw_inv w" and "\<forall>(v, n) \<in> set fs. n \<le> 64"
  shows "tsdb_bw_finish (put_fields fs w) = None \<longleftrightarrow>
           bw_overflow w \<or> 8 * bw_cap w < length (bw_bits w) + length (fields_bits fs)"
  using assms
proof (induction fs arbitrary: w)
  case Nil
  then show ?case by (simp add: tsdb_bw_finish_None_iff)
next
  case (Cons f fs)
  obtain v n where f: "f = (v, n)" by (cases f)
  let ?w = "tsdb_bw_put w v n"
  have n: "n \<le> 64" using Cons.prems(2) by (simp add: f)
  have IH: "tsdb_bw_finish (put_fields fs ?w) = None \<longleftrightarrow>
      bw_overflow ?w \<or> 8 * bw_cap w < length (bw_bits ?w) + length (fields_bits fs)"
    using Cons.IH [of ?w] Cons.prems n by (simp add: tsdb_bw_put_inv)
  show ?case
  proof (cases "bw_overflow ?w")
    case True
    then have "bw_overflow w \<or> 8 * bw_cap w < length (bw_bits w) + n"
      using tsdb_bw_put_overflow_room [OF Cons.prems(1) n] by blast
    then show ?thesis using IH True by (auto simp: f)
  next
    case False
    then have "\<not> bw_overflow w" using tsdb_bw_put_overflow by blast
    then show ?thesis
      using IH False tsdb_bw_put_bits [OF Cons.prems(1) n False] by (simp add: f add.assoc)
  qed
qed

lemma put_fields_bits:
  assumes "bw_inv w" and "\<forall>(v, n) \<in> set fs. n \<le> 64" and "\<not> bw_overflow (put_fields fs w)"
  shows "bw_inv (put_fields fs w) \<and> bw_bits (put_fields fs w) = bw_bits w @ fields_bits fs
    \<and> \<not> bw_overflow w"
  using assms
proof (induction fs arbitrary: w)
  case (Cons f fs)
  obtain v n where f: "f = (v, n)" by (cases f)
  have n: "n \<le> 64" using Cons.prems(2) by (simp add: f)
  have "bw_inv (put_fields fs (tsdb_bw_put w v n)) \<and>
      bw_bits (put_fields fs (tsdb_bw_put w v n)) = bw_bits (tsdb_bw_put w v n) @ fields_bits fs
      \<and> \<not> bw_overflow (tsdb_bw_put w v n)"
    using Cons.IH [of "tsdb_bw_put w v n"] Cons.prems n by (simp add: f tsdb_bw_put_inv)
  then show ?case
    using tsdb_bw_put_bits [OF Cons.prems(1) n] tsdb_bw_put_overflow by (auto simp: f)
qed simp

lemma finish_length:
  assumes "bw_inv w" and "tsdb_bw_finish w = Some bytes"
  shows "length bytes = (length (bw_bits w) + 7) div 8"
proof -
  obtain k where "k < 8" "bytes_bits bytes = bw_bits w @ replicate k False"
    using tsdb_bw_finish_bits [OF assms] by blast
  then have "8 * length bytes = length (bw_bits w) + k" by (metis length_bytes_bits length_append length_replicate)
  then show ?thesis using \<open>k < 8\<close> by linarith
qed

section \<open>What was put is what is read\<close>

lemma get_fields_ahead:
  assumes "br_ahead r (fields_bits fs @ rest)" and "\<forall>(v, n) \<in> set fs. n \<le> 57"
  shows "get_fields tsdb_br_get r (map snd fs) = map (\<lambda>(v, n). (take_bit n v, False)) fs"
  using assms
proof (induction fs arbitrary: r)
  case (Cons f fs)
  obtain v n where f: "f = (v, n)" by (cases f)
  obtain r' where "tsdb_br_get r n = (take_bit n v, r')" "br_ahead r' (fields_bits fs @ rest)"
    using tsdb_br_get_ahead [of r n v "fields_bits fs @ rest"] Cons.prems by (auto simp: f)
  moreover from this(2) have "\<not> br_underflow r'" by (simp add: br_ahead_def)
  ultimately show ?case using Cons.IH [of r'] Cons.prems(2) by (simp add: f)
qed simp

lemma put_get_fields:
  assumes "tsdb_bw_finish (put_fields fs (tsdb_bw_init cap)) = Some bytes" and "\<forall>(v, n) \<in> set fs. n \<le> 57"
  shows "get_fields tsdb_br_get (tsdb_br_init (bytes @ junk)) (map snd fs)
           = map (\<lambda>(v, n). (take_bit n v, False)) fs"
proof -
  have le: "\<forall>(v, n) \<in> set fs. n \<le> 64" using assms(2) by auto
  have no: "\<not> bw_overflow (put_fields fs (tsdb_bw_init cap))"
    using assms(1) by (auto simp: tsdb_bw_finish_def)
  have inv: "bw_inv (put_fields fs (tsdb_bw_init cap))"
    and bits: "bw_bits (put_fields fs (tsdb_bw_init cap)) = fields_bits fs"
    using put_fields_bits [OF tsdb_bw_init_inv le no] by simp_all
  obtain k where "bytes_bits bytes = fields_bits fs @ replicate k False"
    using tsdb_bw_finish_bits [OF inv assms(1)] bits by auto
  then have "br_ahead (tsdb_br_init (bytes @ junk)) (fields_bits fs @ [])"
    by (auto simp: br_ahead_def) (simp add: tsdb_br_init_def)
  then show ?thesis using assms(2) by (rule get_fields_ahead)
qed

section \<open>The bulk refill against the byte loop\<close>

definition br_take :: "nat \<Rightarrow> tsdb_br \<Rightarrow> tsdb_br" where
  "br_take n r = r\<lparr>br_scratch := drop_bit n (br_scratch r), br_nbits := br_nbits r - n\<rparr>"

definition br_get_bytewise :: "tsdb_br \<Rightarrow> nat \<Rightarrow> u64 \<times> tsdb_br" where
  "br_get_bytewise r n =
     (if n = 0 then (0, r)
      else let r1 = br_loop r n in (take_bit n (br_scratch r1), br_take n r1))"

text \<open>\<open>a\<close> has banked some more whole bytes of the same input than \<open>b\<close>.\<close>

definition br_ahead_of :: "tsdb_br \<Rightarrow> tsdb_br \<Rightarrow> bool" where
  "br_ahead_of a b \<longleftrightarrow> (\<exists>k. a = (br_absorb ^^ k) b \<and> br_inv b \<and> br_nbits b + 8 * k \<le> 64
     \<and> br_bytes b + k \<le> length (br_buf b))"

lemma tsdb_br_get_eq:
  assumes "n \<le> 57"
  shows "tsdb_br_get r n =
    (if n = 0 then (0, r)
     else let r1 = tsdb_br_refill r n in (take_bit n (br_scratch r1), br_take n r1))"
  using assms by (simp add: tsdb_br_get_def br_take_def Let_def)

lemma absorbs_fields [simp]:
  "br_nbits ((br_absorb ^^ k) r) = br_nbits r + 8 * k"
  "br_bytes ((br_absorb ^^ k) r) = br_bytes r + k"
  "br_buf ((br_absorb ^^ k) r) = br_buf r"
  "br_underflow ((br_absorb ^^ k) r) = br_underflow r"
  by (induction k) simp_all

lemma absorbs_rest:
  assumes "br_inv r" and "br_nbits r + 8 * k \<le> 64" and "br_bytes r + k \<le> length (br_buf r)"
  shows "br_rest ((br_absorb ^^ k) r) = br_rest r \<and> br_inv ((br_absorb ^^ k) r)"
  using assms(2,3)
proof (induction k)
  case (Suc k)
  then have IH: "br_rest ((br_absorb ^^ k) r) = br_rest r" "br_inv ((br_absorb ^^ k) r)" by simp_all
  have "br_nbits ((br_absorb ^^ k) r) \<le> 56" "br_bytes ((br_absorb ^^ k) r) < length (br_buf ((br_absorb ^^ k) r))"
    using Suc.prems by simp_all
  from br_absorb_rest [OF IH(2) this] IH(1) show ?case by simp
qed (use assms(1) in simp)

text \<open>A reader is determined by its input, its position and its flag.\<close>

lemma br_eqI:
  assumes "br_inv a" and "br_inv b" and "br_rest a = br_rest b" and "br_nbits a = br_nbits b"
    and "br_buf a = br_buf b" and "br_bytes a = br_bytes b" and "br_underflow a = br_underflow b"
  shows "a = (b :: tsdb_br)"
proof -
  have "take_bit (br_nbits b) (br_scratch a) = take_bit (br_nbits b) (br_scratch b)"
    using assms(3-6) by (simp add: br_rest_def bits_of_inj)
  then have "br_scratch a = br_scratch b" using assms(1,2,4) by (simp add: br_inv_def)
  then show ?thesis using assms by (cases a; cases b) simp
qed

lemma br_bulk_absorbs:
  assumes "br_inv r"
  shows "br_bulk r n = (if br_nbits r < n \<and> br_nbits r \<le> 56 \<and> br_bytes r + 8 \<le> length (br_buf r)
           then (br_absorb ^^ ((64 - br_nbits r) div 8)) r else r)"
proof (cases "br_nbits r < n \<and> br_nbits r \<le> 56 \<and> br_bytes r + 8 \<le> length (br_buf r)")
  case True
  let ?k = "(64 - br_nbits r) div 8"
  have k: "br_nbits r + 8 * ?k \<le> 64" "br_bytes r + ?k \<le> length (br_buf r)" using True by linarith+
  have flds: "br_nbits (br_bulk r n) = br_nbits r + 8 * ?k" "br_bytes (br_bulk r n) = br_bytes r + ?k"
    "br_buf (br_bulk r n) = br_buf r"
    using True by (simp_all add: br_bulk_def Let_def)
  have "br_bulk r n = (br_absorb ^^ ?k) r"
    using absorbs_rest [OF assms k] br_bulk_rest [OF assms, of n] flds by (intro br_eqI) simp_all
  then show ?thesis using True by simp
next
  case False
  then show ?thesis by (simp only: br_bulk_def if_False)
qed

lemma br_loop_absorbs:
  assumes "br_inv r" and "br_nbits r + 8 * k \<le> 64" and "br_bytes r + k \<le> length (br_buf r)"
  shows "br_nbits r + 8 * k \<le> n + 7 \<Longrightarrow> br_loop r n = br_loop ((br_absorb ^^ k) r) n"
  using assms
proof (induction k arbitrary: r)
  case (Suc k)
  have "br_inv (br_absorb r)" using Suc.prems by (intro br_absorb_rest(2)) simp_all
  then have "br_loop (br_absorb r) n = br_loop ((br_absorb ^^ k) (br_absorb r)) n"
    using Suc.prems by (intro Suc.IH) simp_all
  moreover have "br_loop r n = br_loop (br_absorb r) n"
    using Suc.prems by (subst br_loop.simps) simp
  ultimately show ?case by (simp only: funpow_Suc_right o_apply)
qed simp

lemma br_loop_pads:
  assumes "br_inv r" and "n \<le> 57"
  shows "br_inv (br_loop r n) \<and> n \<le> br_nbits (br_loop r n)"
  using assms
proof (induction r n rule: br_loop.induct)
  case (1 r n)
  show ?case
  proof (cases "br_nbits r < n")
    case True
    show ?thesis
    proof (cases "br_bytes r \<ge> length (br_buf r)")
      case fin: True
      define r2 where "r2 = (if br_nbits r + 8 < n then r\<lparr>br_underflow := True\<rparr> else r)\<lparr>br_nbits := br_nbits r + 8\<rparr>"
      have inv2: "br_inv r2" "br_inv (r2\<lparr>br_nbits := 64\<rparr>)" "br_nbits r2 = br_nbits r + 8"
        using "1.prems" True by (auto simp: r2_def br_inv_def intro: fits_mono)
      have "br_loop r n = (if br_nbits r2 \<ge> 64 then r2\<lparr>br_nbits := 64\<rparr> else br_loop r2 n)"
        using True fin by (simp only: br_loop.simps [of r n] Let_def r2_def if_True)
      moreover have "br_inv (br_loop r2 n) \<and> n \<le> br_nbits (br_loop r2 n)" if "\<not> 64 \<le> br_nbits r2"
        using "1.IH"(1) [OF True fin refl r2_def that inv2(1) "1.prems"(2)] .
      ultimately show ?thesis using inv2 "1.prems"(2) by simp
    next
      case more: False
      then have "br_inv (br_absorb r)" using br_absorb_rest(2) "1.prems" True by simp
      then have "br_inv (br_loop (br_absorb r) n) \<and> n \<le> br_nbits (br_loop (br_absorb r) n)"
        using "1.IH"(2) [OF True more] "1.prems"(2) by simp
      then show ?thesis using True more by (simp add: br_loop.simps [of r n])
    qed
  next
    case False
    then show ?thesis using "1.prems" by (simp add: br_loop.simps [of r n])
  qed
qed

lemma br_loop_enough: "n \<le> br_nbits r \<Longrightarrow> br_loop r n = r"
  by (subst br_loop.simps) simp

lemma br_ahead_of_refl: "br_inv r \<Longrightarrow> br_ahead_of r r"
  unfolding br_ahead_of_def by (rule exI [of _ 0]) (simp add: br_inv_def)

lemma br_ahead_of_inv: "br_ahead_of a b \<Longrightarrow> br_inv a \<and> br_inv b \<and> br_rest a = br_rest b"
  using absorbs_rest by (auto simp: br_ahead_of_def)

text \<open>A reader that has enough stays ahead of one that steps its byte loop.\<close>

lemma br_ahead_of_loop:
  assumes "br_ahead_of a b" and "n \<le> br_nbits a"
  shows "br_ahead_of a (br_loop b n)"
proof -
  obtain k where k: "a = (br_absorb ^^ k) b" "br_inv b" "br_nbits b + 8 * k \<le> 64"
    "br_bytes b + k \<le> length (br_buf b)"
    using assms(1) by (auto simp: br_ahead_of_def)
  define j where "j = (n - br_nbits b + 7) div 8"
  have j: "j \<le> k" "n \<le> br_nbits b + 8 * j" using assms(2) k(1) by (auto simp: j_def)
  have "j = 0 \<or> br_nbits b + 8 * j \<le> n + 7" by (auto simp: j_def)
  then have "br_loop b n = br_loop ((br_absorb ^^ j) b) n"
    using br_loop_absorbs [of b j n] k(2-) j by auto
  then have b': "br_loop b n = (br_absorb ^^ j) b" using j(2) by (simp add: br_loop_enough)
  have "a = (br_absorb ^^ (k - j)) ((br_absorb ^^ j) b)"
    using k(1) j(1) funpow_add [of "k - j" j br_absorb] by simp
  moreover have "br_inv ((br_absorb ^^ j) b)" using absorbs_rest [of b j] k j by simp
  ultimately show ?thesis unfolding br_ahead_of_def b' using k j by (intro exI [of _ "k - j"]) simp
qed

lemma br_ahead_of_refill:
  assumes "br_ahead_of a b" and "n \<le> 57"
  shows "br_ahead_of (tsdb_br_refill a n) (br_loop b n)"
proof (cases "n \<le> br_nbits a")
  case True
  then have "tsdb_br_refill a n = a" by (simp add: tsdb_br_refill_def br_bulk_def br_loop_enough)
  then show ?thesis using br_ahead_of_loop [OF assms(1) True] by simp
next
  case False
  have inv: "br_inv a" using br_ahead_of_inv [OF assms(1)] by simp
  have "br_loop b n = br_loop a n"
    using assms(1) False br_loop_absorbs by (auto simp: br_ahead_of_def)
  moreover have "br_ahead_of (tsdb_br_refill a n) (br_loop a n)"
  proof (cases "br_nbits a \<le> 56 \<and> br_bytes a + 8 \<le> length (br_buf a)")
    case True
    let ?k = "(64 - br_nbits a) div 8"
    have bulk: "br_bulk a n = (br_absorb ^^ ?k) a" using br_bulk_absorbs [OF inv] False True by simp
    have enough: "n \<le> br_nbits (br_bulk a n)" using bulk assms(2) by simp
    have "br_ahead_of (br_bulk a n) a"
      unfolding br_ahead_of_def using bulk inv True by (intro exI [of _ ?k]) auto
    then show ?thesis
      using br_ahead_of_loop [OF _ enough] enough by (simp add: tsdb_br_refill_def br_loop_enough)
  next
    case False
    then have "br_bulk a n = a" by (auto simp: br_bulk_def)
    then show ?thesis
      using br_loop_pads [OF inv assms(2)] br_ahead_of_refl by (simp add: tsdb_br_refill_def)
  qed
  ultimately show ?thesis by simp
qed

lemma br_take_rest:
  assumes "br_inv r" and "n \<le> br_nbits r"
  shows "br_inv (br_take n r)" and "br_rest (br_take n r) = drop n (br_rest r)"
proof -
  have fit: "take_bit (br_nbits r) (br_scratch r) = br_scratch r" using assms(1) by (simp add: br_inv_def)
  show "br_inv (br_take n r)"
    using assms by (auto simp: br_take_def br_inv_def bit_simps fits_bit [OF fit] intro!: fitsI)
  show "br_rest (br_take n r) = drop n (br_rest r)"
    using assms(2) by (simp add: br_take_def br_rest_def)
qed

lemma br_ahead_of_take:
  assumes "br_ahead_of a b" and "n \<le> br_nbits b"
  shows "take_bit n (br_scratch a) = take_bit n (br_scratch b)"
    and "br_ahead_of (br_take n a) (br_take n b)"
proof -
  obtain k where k: "a = (br_absorb ^^ k) b" "br_inv b" "br_nbits b + 8 * k \<le> 64"
    "br_bytes b + k \<le> length (br_buf b)"
    using assms(1) by (auto simp: br_ahead_of_def)
  have a: "br_inv a" "br_rest a = br_rest b" "n \<le> br_nbits a"
    using br_ahead_of_inv [OF assms(1)] k(1) assms(2) by simp_all
  then have "take n (br_rest a) = take n (br_rest b)" by simp
  then have "bits_of n (br_scratch a) = bits_of n (br_scratch b)"
    using a(3) assms(2) by (simp add: br_rest_def min_def)
  then show "take_bit n (br_scratch a) = take_bit n (br_scratch b)" by (simp add: bits_of_inj)
  note tb = br_take_rest [OF k(2) assms(2)] and ta = br_take_rest [OF a(1,3)]
  have nb: "br_nbits (br_take n b) + 8 * k \<le> 64" "br_bytes (br_take n b) + k \<le> length (br_buf (br_take n b))"
    using k(3,4) by (simp_all add: br_take_def)
  have "br_take n a = (br_absorb ^^ k) (br_take n b)"
    using ta tb a absorbs_rest [OF tb(1) nb] assms(2) k(1) by (intro br_eqI) (simp_all add: br_take_def)
  then show "br_ahead_of (br_take n a) (br_take n b)" using tb(1) nb by (auto simp: br_ahead_of_def)
qed

lemma get_fields_bytewise:
  assumes "br_ahead_of a b" and "\<forall>n \<in> set ns. n \<le> 57"
  shows "get_fields tsdb_br_get a ns = get_fields br_get_bytewise b ns"
  using assms
proof (induction ns arbitrary: a b)
  case (Cons n ns)
  let ?a = "tsdb_br_refill a n" and ?b = "br_loop b n"
  have sim: "br_ahead_of ?a ?b" "n \<le> br_nbits ?b"
    using br_ahead_of_refill [OF Cons.prems(1), of n] br_loop_pads [of b n] br_ahead_of_inv [OF Cons.prems(1)]
      Cons.prems(2) by simp_all
  note tk = br_ahead_of_take [OF sim]
  have "br_underflow x = br_underflow y" if "br_ahead_of x y" for x y
    using that by (auto simp: br_ahead_of_def)
  then show ?case
    using Cons.IH [OF tk(2)] Cons.IH [OF Cons.prems(1)] Cons.prems tk
    by (simp add: tsdb_br_get_eq br_get_bytewise_def Let_def)
qed simp

section \<open>Properties of the bit-stream layer\<close>



text \<open>C7: fields of at most 57 bits read back as they were put (masked to their width), the reader never
  flags underflow, and bytes behind the stream are not looked at.\<close>

theorem stream_round_trip_fields:
  assumes "\<forall>(v, n) \<in> set fs. n \<le> 57" and "sum_list (map snd fs) \<le> 8 * cap"
  shows "\<exists>bytes. tsdb_bw_finish (put_fields fs (tsdb_bw_init cap)) = Some bytes
    \<and> (\<forall>junk. get_fields tsdb_br_get (tsdb_br_init (bytes @ junk)) (map snd fs)
         = map (\<lambda>(v, n). (take_bit n v, False)) fs)"
proof -
  have le: "\<forall>(v, n) \<in> set fs. n \<le> 64" using assms(1) by auto
  have "tsdb_bw_finish (put_fields fs (tsdb_bw_init cap)) \<noteq> None"
    using put_fields_None_iff [OF tsdb_bw_init_inv le, of cap] assms(2)
    by (simp add: length_fields_bits) (simp add: tsdb_bw_init_def)
  then show ?thesis using put_get_fields [OF _ assms(1)] by blast
qed

theorem stream_round_trip_fields_witness:
  "list_all (\<lambda>(v, n). n \<le> 57) [(5 :: u64, 3 :: nat), (1023, 57)] \<and> sum_list (map snd [(5 :: u64, 3 :: nat), (1023, 57)]) \<le> 8 * 8 \<and>
   (\<exists>bytes. tsdb_bw_finish (put_fields [(5, 3), (1023, 57)] (tsdb_bw_init 8)) = Some bytes
    \<and> get_fields tsdb_br_get (tsdb_br_init bytes) [3, 57] = [(5, False), (1023, False)])"
  using stream_round_trip_fields [of "[(5, 3), (1023, 57)]" 8]
  by (auto simp: take_bit_eq_mod dest!: spec [of _ "[]"])



text \<open>the zigzag maps are inverse to each other in both directions, and a value of the signed 32-bit
  range is coded in 32 bits.\<close>

theorem zigzag_bijection:
  "tsdb_zigzag_dec (tsdb_zigzag_enc v) = v \<and> tsdb_zigzag_enc (tsdb_zigzag_dec u) = u
   \<and> (- (2 ^ 31) \<le> sint v \<and> sint v < 2 ^ 31 \<longrightarrow> take_bit 32 (tsdb_zigzag_enc v) = tsdb_zigzag_enc v)"
  using zigzag_enc_fits32 by simp

theorem zigzag_bijection_witness:
  "tsdb_zigzag_dec (tsdb_zigzag_enc (- 5)) = - 5 \<and> - (2 ^ 31) \<le> sint (- 5 :: i64) \<and> sint (- 5 :: i64) < 2 ^ 31
   \<and> take_bit 32 (tsdb_zigzag_enc (- 5)) = tsdb_zigzag_enc (- 5)"
  using zigzag_bijection [of "- 5" 0] by simp

text \<open>the portable binary search and the shift loop compute the leading and trailing zero counts:
  for a non-zero word, bit \<open>63 - clz\<close> is its highest set bit and bit \<open>ctz\<close> its lowest.\<close>

theorem zero_counts_exact:
  assumes "x \<noteq> 0"
  shows "bit x (63 - tsdb_clz64 x) \<and> (\<forall>i. 63 - tsdb_clz64 x < i \<longrightarrow> \<not> bit x i)
       \<and> bit x (tsdb_ctz64 x) \<and> (\<forall>i. i < tsdb_ctz64 x \<longrightarrow> \<not> bit x i)
       \<and> tsdb_clz64 x + tsdb_ctz64 x < 64"
  using tsdb_clz64_spec [OF assms] tsdb_ctz64_spec [OF assms] clz_ctz_bound [OF assms] by simp

theorem zero_counts_exact_witness:
  "(40 :: u64) \<noteq> 0 \<and> bit (40 :: u64) (tsdb_ctz64 40) \<and> tsdb_clz64 40 + tsdb_ctz64 40 < 64"
  using zero_counts_exact [of 40] by simp

text \<open>C11: the 64-bit Bloom filter of a column part has no false negatives: whatever was in the filter
  before, every value added to it tests positive.\<close>

theorem bloom_no_false_negative:
  assumes "v \<in> set vs"
  shows "tsdb_bloom_test (fold (\<lambda>v b. tsdb_bloom_add b v) vs b) v"
  using bloom_fold_member [OF assms] .

theorem bloom_no_false_negative_witness:
  "(7 :: u32) \<in> set [3, 7, 11] \<and> tsdb_bloom_test (fold (\<lambda>v b. tsdb_bloom_add b v) [3, 7, 11] 0) 7"
  using bloom_no_false_negative [of 7 "[3, 7, 11]" 0] by simp

end
