(* ===== verification/Core_Types.thy ===== *)
theory Core_Types
  imports QE_Prelude
begin

text \<open>
  The column types of \<^verbatim>\<open>include/tsdb.h\<close> and the codec identifiers of \<^verbatim>\<open>src/core/types.h\<close>, and column
  buffers as memory: the \<^verbatim>\<open>void *\<close> of the codec interface is a list of bytes, which the code reads and
  writes as little-endian words through casts.
\<close>

datatype tsdb_type_t =
    TSDB_TYPE_TIMESTAMP
  | TSDB_TYPE_INT64
  | TSDB_TYPE_FLOAT64
  | TSDB_TYPE_SYMBOL
  | TSDB_TYPE_FLOAT32

definition tsdb_type_width :: "tsdb_type_t \<Rightarrow> nat" where
  "tsdb_type_width t = (case t of TSDB_TYPE_TIMESTAMP \<Rightarrow> 8 | TSDB_TYPE_INT64 \<Rightarrow> 8 | TSDB_TYPE_FLOAT64 \<Rightarrow> 8
     | TSDB_TYPE_FLOAT32 \<Rightarrow> 8 | TSDB_TYPE_SYMBOL \<Rightarrow> 4)"

datatype tsdb_codec_t =
    TSDB_CODEC_NONE
  | TSDB_CODEC_DOD
  | TSDB_CODEC_GORILLA
  | TSDB_CODEC_FOR
  | TSDB_CODEC_DICT
  | TSDB_CODEC_RAW
  | TSDB_CODEC_CHIMP
  | TSDB_CODEC_LZLITE
  | TSDB_CODEC_CHIMP128
  | TSDB_CODEC_BP128
  | TSDB_CODEC_PFOR
  | TSDB_CODEC_F32
  | TSDB_CODEC_DEC

definition codec_id :: "tsdb_codec_t \<Rightarrow> nat" where
  "codec_id c = (case c of TSDB_CODEC_NONE \<Rightarrow> 0 | TSDB_CODEC_DOD \<Rightarrow> 1 | TSDB_CODEC_GORILLA \<Rightarrow> 2 | TSDB_CODEC_FOR \<Rightarrow> 3
     | TSDB_CODEC_DICT \<Rightarrow> 4 | TSDB_CODEC_RAW \<Rightarrow> 5 | TSDB_CODEC_CHIMP \<Rightarrow> 6 | TSDB_CODEC_LZLITE \<Rightarrow> 7 | TSDB_CODEC_CHIMP128 \<Rightarrow> 8
     | TSDB_CODEC_BP128 \<Rightarrow> 9 | TSDB_CODEC_PFOR \<Rightarrow> 10 | TSDB_CODEC_F32 \<Rightarrow> 11 | TSDB_CODEC_DEC \<Rightarrow> 12)"

section \<open>Column memory\<close>

definition store_words :: "nat \<Rightarrow> 'a::len word list \<Rightarrow> u8 list" where
  "store_words k xs = concat (map (le_bytes k) xs)"

definition load_words :: "nat \<Rightarrow> u8 list \<Rightarrow> nat \<Rightarrow> 'a::len word list" where
  "load_words k bs n = map (\<lambda>j. le_acc 0 0 (take k (drop (k * j) bs))) [0..<n]"

lemma store_words_simps [simp]:
  "store_words k [] = []"
  "store_words k (x # xs) = le_bytes k x @ store_words k xs"
  by (simp_all add: store_words_def)

lemma length_store_words [simp]: "length (store_words k xs) = k * length xs"
  by (induction xs) auto

lemma length_load_words [simp]: "length (load_words k bs n) = n"
  by (simp add: load_words_def)

lemma load_words_Suc: "load_words k bs (Suc n) = le_acc 0 0 (take k bs) # load_words k (drop k bs) n"
  unfolding load_words_def
  by (simp add: upt_conv_Cons map_Suc_upt [symmetric] comp_def add.commute del: upt_Suc)

lemma load_store_words:
  "8 * k = LENGTH('a) \<Longrightarrow> load_words k (store_words k xs @ rest) (length xs) = (xs :: 'a::len word list)"
proof (induction xs)
  case (Cons x xs)
  then show ?case by (simp add: load_words_Suc)
qed (simp add: load_words_def)

lemma le_bytes_le_acc:
  assumes "8 * length bs = LENGTH('a)"
  shows "le_bytes (length bs) (le_acc 0 0 bs :: 'a::len word) = bs"
proof -
  have "bytes_bits (le_bytes (length bs) (le_acc 0 0 bs :: 'a word)) = bytes_bits bs"
    unfolding bytes_bits_le_bytes le_acc_eq_word_of_bits using assms by (intro bits_of_word_of_bits) simp_all
  then show ?thesis by (rule bytes_bits_inject) simp
qed

lemma store_load_words:
  "8 * k = LENGTH('a) \<Longrightarrow> length bs = k * n \<Longrightarrow> store_words k (load_words k bs n :: 'a::len word list) = bs"
proof (induction n arbitrary: bs)
  case (Suc n)
  have k: "length (take k bs) = k" using Suc.prems by simp
  have "le_bytes k (le_acc 0 0 (take k bs) :: 'a word) = take k bs"
    using le_bytes_le_acc [of "take k bs", where 'a = 'a] Suc.prems(1) unfolding k by simp
  moreover have "store_words k (load_words k (drop k bs) n :: 'a word list) = drop k bs"
    using Suc by (intro Suc.IH) simp_all
  ultimately show ?case by (simp add: load_words_Suc)
qed (simp add: load_words_def)

end
