(* ===== verification/Core_Float.thy ===== *)
theory Core_Float
  imports QE_Prelude
begin

text \<open>
  The IEEE 754 arithmetic that the codecs use of C's \<^verbatim>\<open>double\<close> and \<^verbatim>\<open>float\<close>, on bit patterns: rounding a
  non-negative fraction to the nearest representable value with ties to even, multiplication and
  division by a positive integer that is itself exactly representable, conversion from 64-bit integers,
  and the conversions between the two formats. NaN payloads follow the usual hardware: the top bits
  are kept and the quiet bit is set.
\<close>

fun bitlen :: "nat \<Rightarrow> nat" where
  "bitlen n = (if n = 0 then 0 else Suc (bitlen (n div 2)))"

declare bitlen.simps [simp del]

text \<open>The exponent of a positive fraction \<open>a / b\<close>: the \<open>e\<close> with \<open>2 ^ e \<le> a / b < 2 ^ (e + 1)\<close>.\<close>

definition frac_log2 :: "nat \<Rightarrow> nat \<Rightarrow> int" where
  "frac_log2 a b =
     (let k = int (bitlen a) - int (bitlen b)
      in if (if k \<ge> 0 then b * 2 ^ nat k \<le> a else b \<le> a * 2 ^ nat (- k)) then k else k - 1)"

definition round_even :: "nat \<Rightarrow> nat \<Rightarrow> nat" where
  "round_even a b =
     (let q = a div b; r = a mod b
      in if 2 * r < b then q else if 2 * r > b then q + 1 else if even q then q else q + 1)"

text \<open>The magnitude bits of \<open>a / b\<close> in a format with \<open>p\<close> mantissa bits and least exponent \<open>emin\<close>; \<open>infty\<close> is infinity.\<close>

definition fp_round :: "nat \<Rightarrow> int \<Rightarrow> nat \<Rightarrow> nat \<Rightarrow> nat \<Rightarrow> nat" where
  "fp_round p emin infty a b =
     (if a = 0 then 0
      else let e = max (frac_log2 a b) emin; sh = e - int p;
               n = (if sh \<ge> 0 then round_even a (b * 2 ^ nat sh) else round_even (a * 2 ^ nat (- sh)) b)
           in min (nat (e - emin) * 2 ^ p + n) infty)"

definition f64_neg :: "f64 \<Rightarrow> bool" where
  "f64_neg w = bit w 63"

definition f64_exp :: "f64 \<Rightarrow> nat" where
  "f64_exp w = unat (take_bit 11 (drop_bit 52 w))"

definition f64_finite :: "f64 \<Rightarrow> bool" where
  "f64_finite w \<longleftrightarrow> f64_exp w \<noteq> 2047"

text \<open>The magnitude of a finite value as numerator and denominator.\<close>

definition f64_frac :: "f64 \<Rightarrow> nat \<times> nat" where
  "f64_frac w =
     (let m = unat (take_bit 52 w); e = f64_exp w
      in if e = 0 then (m, 2 ^ 1074)
         else if e \<ge> 1075 then ((2 ^ 52 + m) * 2 ^ (e - 1075), 1)
         else (2 ^ 52 + m, 2 ^ (1075 - e)))"

definition f64_signed :: "bool \<Rightarrow> nat \<Rightarrow> f64" where
  "f64_signed neg u = of_nat u OR (if neg then push_bit 63 1 else 0)"

definition f64_round :: "bool \<Rightarrow> nat \<Rightarrow> nat \<Rightarrow> f64" where
  "f64_round neg a b = f64_signed neg (fp_round 52 (- 1022) (2047 * 2 ^ 52) a b)"

text \<open>Multiplication and division by \<open>k\<close>; a value that is not finite stays so.\<close>

definition f64_times :: "f64 \<Rightarrow> nat \<Rightarrow> f64" where
  "f64_times v k =
     (if f64_finite v then case f64_frac v of (a, b) \<Rightarrow> f64_round (f64_neg v) (a * k) b
      else if take_bit 52 v = 0 then v else v OR push_bit 51 1)"

definition f64_over :: "f64 \<Rightarrow> nat \<Rightarrow> f64" where
  "f64_over v k =
     (if f64_finite v then case f64_frac v of (a, b) \<Rightarrow> f64_round (f64_neg v) a (b * k)
      else if take_bit 52 v = 0 then v else v OR push_bit 51 1)"

definition f64_of_i64 :: "i64 \<Rightarrow> f64" where
  "f64_of_i64 q = f64_round (sint q < 0) (nat \<bar>sint q\<bar>) 1"

text \<open>\<^verbatim>\<open>-lim <= x && x <= lim\<close>, false for a NaN and for the infinities.\<close>

definition f64_within :: "f64 \<Rightarrow> nat \<Rightarrow> bool" where
  "f64_within x lim = (f64_finite x \<and> (case f64_frac x of (a, b) \<Rightarrow> a \<le> lim * b))"

text \<open>\<^verbatim>\<open>(int64_t)round(x)\<close>, half away from zero, for a finite value in range.\<close>

definition f64_round_i64 :: "f64 \<Rightarrow> i64" where
  "f64_round_i64 x =
     (case f64_frac x of (a, b) \<Rightarrow> let r = (2 * a + b) div (2 * b) in if f64_neg x then - of_nat r else of_nat r)"

text \<open>\<^verbatim>\<open>(float)d\<close> and \<^verbatim>\<open>(double)f\<close>.\<close>

definition f32_of_f64 :: "f64 \<Rightarrow> u32" where
  "f32_of_f64 d =
     (let s = (if f64_neg d then push_bit 31 1 else 0)
      in if f64_finite d then case f64_frac d of (a, b) \<Rightarrow> of_nat (fp_round 23 (- 126) (255 * 2 ^ 23) a b) OR s
         else if take_bit 52 d = 0 then 0x7F800000 OR s
         else 0x7FC00000 OR take_bit 23 (ucast (drop_bit 29 d)) OR s)"

definition f64_of_f32 :: "u32 \<Rightarrow> f64" where
  "f64_of_f32 f =
     (let neg = bit f 31; e = unat (take_bit 8 (drop_bit 23 f)); m = unat (take_bit 23 f)
      in if e = 255 then f64_signed neg (2047 * 2 ^ 52 + m * 2 ^ 29 + (if m \<noteq> 0 \<and> m < 2 ^ 22 then 2 ^ 51 else 0))
         else if e = 0 then f64_round neg m (2 ^ 149)
         else if e \<ge> 150 then f64_round neg ((2 ^ 23 + m) * 2 ^ (e - 150)) 1
         else f64_round neg (2 ^ 23 + m) (2 ^ (150 - e)))"

lemma bitlen_eval [simp]:
  "bitlen 0 = 0" "bitlen (Suc 0) = 1" "bitlen (numeral num.One) = 1"
  "bitlen (numeral (num.Bit0 n)) = bitlen (numeral n) + 1"
  "bitlen (numeral (num.Bit1 n)) = bitlen (numeral n) + 1"
  by (subst bitlen.simps, simp add: bitlen.simps [of 0])+

text \<open>The definitions unfolded to evaluate the arithmetic on numerals.\<close>

lemmas f64_eval = f64_times_def f64_over_def f64_finite_def f64_exp_def f64_frac_def f64_round_def fp_round_def
  frac_log2_def round_even_def f64_signed_def f64_neg_def f64_within_def f64_round_i64_def f64_of_i64_def

end
