(* ===== verification/Codec_Stream.thy ===== *)
theory Codec_Stream
  imports Core_Fields
begin

text \<open>
  What the bit-stream codecs (\<^verbatim>\<open>dod.c\<close>, \<^verbatim>\<open>gorilla.c\<close>, \<^verbatim>\<open>chimp.c\<close>, \<^verbatim>\<open>chimp128.c\<close>) have in common.

  \<^item> \<open>bw_put_safe\<close> and \<open>br_get_safe\<close>, the helpers that three of the files define with the same
    text, write and read fields of up to 64 bits in two halves.
  \<^item> \<open>enc_loop\<close> and \<open>dec_loop\<close> are the per-value \<^verbatim>\<open>for\<close> loops: the loop body is the argument
    \<open>step\<close>, the variables it carries from one iteration to the next are the state.
  \<^item> The locale \<open>stream_codec\<close> states what one iteration of the encoder and one of the decoder
    must promise each other; that the two loops then invert each other is proved once.
\<close>

section \<open>Fields of up to 64 bits\<close>

definition bw_put_safe :: "tsdb_bw \<Rightarrow> u64 \<Rightarrow> nat \<Rightarrow> tsdb_bw" where
  "bw_put_safe bw val n =
     (if n = 0 then bw
      else if n \<le> 32 then tsdb_bw_put bw val n
      else tsdb_bw_put (tsdb_bw_put bw (val AND 0xFFFFFFFF) 32) (drop_bit 32 val) (n - 32))"

definition br_get_safe :: "tsdb_br \<Rightarrow> nat \<Rightarrow> u64 \<times> tsdb_br" where
  "br_get_safe br n =
     (if n = 0 then (0, br)
      else if n \<le> 32 then tsdb_br_get br n
      else case tsdb_br_get br 32 of (lo, br1) \<Rightarrow>
           case tsdb_br_get br1 (n - 32) of (hi, br2) \<Rightarrow> (lo OR push_bit 32 hi, br2))"

section \<open>The value loops\<close>

fun enc_loop :: "('s \<Rightarrow> tsdb_bw \<Rightarrow> 'a \<Rightarrow> tsdb_err + 's \<times> tsdb_bw) \<Rightarrow> 's \<Rightarrow> tsdb_bw \<Rightarrow> 'a list
    \<Rightarrow> tsdb_err + tsdb_bw" where
  "enc_loop step s bw [] = Inr bw"
| "enc_loop step s bw (x # xs) =
     res_bind (step s bw x) (\<lambda>(s', bw'). enc_loop step s' bw' xs)"

fun dec_loop :: "('d \<Rightarrow> tsdb_br \<Rightarrow> tsdb_err + 'a \<times> 'd \<times> tsdb_br) \<Rightarrow> 'd \<Rightarrow> tsdb_br \<Rightarrow> nat
    \<Rightarrow> tsdb_err + 'a list" where
  "dec_loop step d br 0 = Inr []"
| "dec_loop step d br (Suc n) =
     res_bind (step d br) (\<lambda>(x, d', br').
       res_bind (dec_loop step d' br' n) (\<lambda>xs. Inr (x # xs)))"

section \<open>Lemmas on the split fields\<close>

lemma and_0xFFFFFFFF: "(v :: u64) AND 0xFFFFFFFF = take_bit 32 v"
  using and_exp_minus_1 [of v 32] by simp

lemma br_get_safe_ahead:
  assumes "br_ahead r (bits_of n v @ bs)" and "n \<le> 64"
  shows "\<exists>r'. br_get_safe r n = (take_bit n v, r') \<and> br_ahead r' bs"
proof -
  consider "n = 0" | "0 < n" "n \<le> 32" | "32 < n" by linarith
  then show ?thesis
  proof cases
    case 1
    then show ?thesis using assms(1) by (simp add: br_get_safe_def)
  next
    case 2
    then show ?thesis using bs64.get_ahead [OF assms(1)] by (simp add: br_get_safe_def)
  next
    case 3
    then show ?thesis using bs64.get_split_ahead [OF assms(1) 3 assms(2)] by (auto simp: br_get_safe_def)
  qed
qed

text \<open>Reading one flag bit, and a field whose bits are known.\<close>

lemma br_get_flag:
  assumes "br_ahead r (b # bs)"
  shows "\<exists>r'. tsdb_br_get r 1 = (of_bool b, r') \<and> br_ahead r' bs"
proof -
  have "b # bs = bits_of 1 (of_bool b :: u64) @ bs" by (cases b) (simp_all add: bits_of_def)
  then have "br_ahead r (bits_of 1 (of_bool b :: u64) @ bs)" using assms by (simp only:)
  from bs64.get_ahead [OF this] show ?thesis by (cases b) auto
qed

section \<open>A calculus of writes and reads\<close>

text \<open>
  \<open>bw_writes w bs w'\<close>: some puts, whose bits are \<open>bs\<close>, lead from writer \<open>w\<close> to \<open>w'\<close>. \<open>br_reads f bs x\<close>: the reading routine \<open>f\<close>, run where the bits \<open>bs\<close>
  lie ahead, returns \<open>x\<close> and leaves the reader just behind them. Both compose along the code.
\<close>

definition bw_writes :: "tsdb_bw \<Rightarrow> bool list \<Rightarrow> tsdb_bw \<Rightarrow> bool" where
  "bw_writes w bs w' \<longleftrightarrow>
     (\<exists>fs. (\<forall>(v, n) \<in> set fs. n \<le> 64) \<and> fields_bits fs = bs \<and> w' = put_fields fs w)"

definition br_reads :: "(tsdb_br \<Rightarrow> 'a \<times> tsdb_br) \<Rightarrow> bool list \<Rightarrow> 'a \<Rightarrow> bool" where
  "br_reads f bs x \<longleftrightarrow> (\<forall>r rest. br_ahead r (bs @ rest) \<longrightarrow> (\<exists>r'. f r = (x, r') \<and> br_ahead r' rest))"

lemma bw_writes_refl: "bw_writes w [] w"
  unfolding bw_writes_def by (rule exI [of _ "[]"]) simp

lemma bw_writes_put: "n \<le> 64 \<Longrightarrow> bw_writes w (bits_of n v) (tsdb_bw_put w v n)"
  unfolding bw_writes_def by (rule exI [of _ "[(v, n)]"]) simp

lemma put_fields_append: "put_fields (fs @ gs) w = put_fields gs (put_fields fs w)"
  by (simp add: put_fields_def)

lemma fields_bits_append: "fields_bits (fs @ gs) = fields_bits fs @ fields_bits gs"
  by (simp add: fields_bits_def)

lemma bw_writes_trans:
  assumes "bw_writes w bs w1" and "bw_writes w1 cs w2"
  shows "bw_writes w (bs @ cs) w2"
proof -
  obtain fs gs where "\<forall>(v, n) \<in> set fs. n \<le> 64" "fields_bits fs = bs" "w1 = put_fields fs w"
    "\<forall>(v, n) \<in> set gs. n \<le> 64" "fields_bits gs = cs" "w2 = put_fields gs w1"
    using assms unfolding bw_writes_def by blast
  then show ?thesis
    unfolding bw_writes_def
    by (intro exI [of _ "fs @ gs"]) (auto simp: put_fields_append fields_bits_append)
qed

lemma bw_writes_put_safe:
  assumes "n \<le> 64"
  shows "bw_writes w (bits_of n v) (bw_put_safe w v n)"
proof -
  consider "n = 0" | "0 < n" "n \<le> 32" | "32 < n" by linarith
  then show ?thesis
  proof cases
    case 3
    have "bits_of (32 + (n - 32)) v = bits_of 32 v @ bits_of (n - 32) (drop_bit 32 v)" by (rule bits_of_add)
    then have v: "bits_of n v = bits_of 32 (take_bit 32 v) @ bits_of (n - 32) (drop_bit 32 v)"
      using 3 by simp
    have "bw_writes w (bits_of 32 (take_bit 32 v) @ bits_of (n - 32) (drop_bit 32 v))
        (tsdb_bw_put (tsdb_bw_put w (take_bit 32 v) 32) (drop_bit 32 v) (n - 32))"
      by (rule bw_writes_trans [OF bw_writes_put bw_writes_put]) (use assms in auto)
    then show ?thesis using 3 v by (simp add: bw_put_safe_def and_0xFFFFFFFF)
  qed (use assms in \<open>auto simp: bw_put_safe_def intro: bw_writes_refl bw_writes_put\<close>)
qed

text \<open>What a finished stream holds, and when it can be finished.\<close>

lemma bw_writes_finish_iff:
  assumes "bw_writes (tsdb_bw_init cap) bs w"
  shows "tsdb_bw_finish w = None \<longleftrightarrow> 8 * cap < length bs"
  using assms put_fields_None_iff [OF tsdb_bw_init_inv, of _ cap]
  by (auto simp: bw_writes_def) (simp_all add: tsdb_bw_init_def)

lemma bw_writes_finish:
  assumes "bw_writes (tsdb_bw_init cap) bs w" and "tsdb_bw_finish w = Some bytes"
  shows "\<exists>k. bytes_bits bytes = bs @ replicate k False" and "length bytes = (length bs + 7) div 8"
    and "length bytes \<le> cap"
proof -
  obtain fs where fs: "\<forall>(v, n) \<in> set fs. n \<le> 64" "fields_bits fs = bs" "w = put_fields fs (tsdb_bw_init cap)"
    using assms(1) unfolding bw_writes_def by blast
  have no: "\<not> bw_overflow w" using assms(2) by (auto simp: tsdb_bw_finish_def)
  have inv: "bw_inv w" and bits: "bw_bits w = bs"
    using put_fields_bits [OF tsdb_bw_init_inv fs(1)] no fs(2,3) by simp_all
  show "\<exists>k. bytes_bits bytes = bs @ replicate k False"
    using tsdb_bw_finish_bits [OF inv assms(2)] bits by auto
  show len: "length bytes = (length bs + 7) div 8" using finish_length [OF inv assms(2)] bits by simp
  have "\<not> 8 * cap < length bs" using bw_writes_finish_iff [OF assms(1)] assms(2) by simp
  then show "length bytes \<le> cap" using len by linarith
qed

text \<open>The forms in which a step applies them: the last put is peeled off the end.\<close>

lemma bw_writes_then_put:
  "bw_writes w bs w1 \<Longrightarrow> n \<le> 64 \<Longrightarrow> cs = bs @ bits_of n v \<Longrightarrow> bw_writes w cs (tsdb_bw_put w1 v n)"
  by (auto intro: bw_writes_trans bw_writes_put)

lemma bw_writes_then_put_safe:
  "bw_writes w bs w1 \<Longrightarrow> n \<le> 64 \<Longrightarrow> cs = bs @ bits_of n v \<Longrightarrow> bw_writes w cs (bw_put_safe w1 v n)"
  by (auto intro: bw_writes_trans bw_writes_put_safe)

lemma br_readsD:
  assumes "br_reads f bs x" and "br_ahead r (bs @ rest)"
  obtains r' where "f r = (x, r')" and "br_ahead r' rest" and "\<not> br_underflow r'"
proof -
  obtain r' where "f r = (x, r')" "br_ahead r' rest" using assms unfolding br_reads_def by blast
  then show thesis using that by (simp add: br_ahead_def)
qed

lemma br_get_one:
  assumes "br_ahead r (True # bs)"
  obtains r' where "tsdb_br_get r 1 = (1, r')" and "br_ahead r' bs"
  using br_get_flag [OF assms] by auto

lemma br_get_zero:
  assumes "br_ahead r (False # bs)"
  obtains r' where "tsdb_br_get r 1 = (0, r')" and "br_ahead r' bs"
  using br_get_flag [OF assms] by auto

lemma br_get_field:
  assumes "br_ahead r (bits_of n v @ bs)" and "n \<le> 57" and "take_bit n v = v"
  obtains r' where "tsdb_br_get r n = (v, r')" and "br_ahead r' bs"
  using bs64.get_ahead [OF assms(1,2)] assms(3) by auto

lemma br_get_safe_field:
  assumes "br_ahead r (bits_of n v @ bs)" and "n \<le> 64"
  obtains r' where "br_get_safe r n = (take_bit n v, r')" and "br_ahead r' bs"
  using br_get_safe_ahead [OF assms] by auto

section \<open>Step contract and loop correctness\<close>

locale stream_codec =
  fixes enc_step :: "'s \<Rightarrow> tsdb_bw \<Rightarrow> 'a \<Rightarrow> tsdb_err + 's \<times> tsdb_bw"
    and dec_step :: "'d \<Rightarrow> tsdb_br \<Rightarrow> tsdb_err + 'a \<times> 'd \<times> tsdb_br"
    and rel :: "'s \<Rightarrow> 'd \<Rightarrow> bool"
    and width :: nat
  assumes step_inverse: "enc_step s w x = Inr (s', w') \<Longrightarrow> rel s d \<Longrightarrow>
      \<exists>bs d'. bw_writes w bs w' \<and> length bs \<le> width \<and> rel s' d' \<and>
        (\<forall>r rest. br_ahead r (bs @ rest) \<longrightarrow> (\<exists>r'. dec_step d r = Inr (x, d', r') \<and> br_ahead r' rest))"
begin

lemma loop_inverse:
  assumes "enc_loop enc_step s w xs = Inr w'" and "rel s d"
  shows "\<exists>bs. bw_writes w bs w' \<and> length bs \<le> length xs * width \<and>
           (\<forall>r rest. br_ahead r (bs @ rest) \<longrightarrow> dec_loop dec_step d r (length xs) = Inr xs)"
  using assms
proof (induction xs arbitrary: s w d)
  case Nil
  then show ?case using bw_writes_refl by auto
next
  case (Cons x xs)
  from Cons.prems(1) obtain s1 w1 where st: "enc_step s w x = Inr (s1, w1)"
    and lp: "enc_loop enc_step s1 w1 xs = Inr w'"
    by (auto simp: res_bind_Inr_iff)
  obtain bs1 d1 where w1: "bw_writes w bs1 w1" "length bs1 \<le> width" and rel1: "rel s1 d1"
    and dec1: "\<And>r rest. br_ahead r (bs1 @ rest) \<Longrightarrow> \<exists>r'. dec_step d r = Inr (x, d1, r') \<and> br_ahead r' rest"
    using step_inverse [OF st Cons.prems(2)] by blast
  obtain bs2 where w2: "bw_writes w1 bs2 w'" "length bs2 \<le> length xs * width"
    and dec2: "\<And>r rest. br_ahead r (bs2 @ rest) \<Longrightarrow> dec_loop dec_step d1 r (length xs) = Inr xs"
    using Cons.IH [OF lp rel1] by blast
  have "dec_loop dec_step d r (length (x # xs)) = Inr (x # xs)"
    if "br_ahead r ((bs1 @ bs2) @ rest)" for r rest
    using dec1 [of r "bs2 @ rest"] dec2 that by fastforce
  moreover have "length (bs1 @ bs2) \<le> length (x # xs) * width" using w1(2) w2(2) by simp
  ultimately show ?case using bw_writes_trans [OF w1(1) w2(1)] by blast
qed

text \<open>
  A finished stream decodes to what was encoded, whatever bytes follow it in the buffer.
\<close>

lemma stream_round_trip:
  assumes "enc_loop enc_step s (tsdb_bw_init cap) xs = Inr w" and "tsdb_bw_finish w = Some bytes"
    and "rel s d"
  shows "dec_loop dec_step d (tsdb_br_init (bytes @ junk)) (length xs) = Inr xs"
proof -
  obtain bs where bs: "bw_writes (tsdb_bw_init cap) bs w"
    and dec: "\<And>r rest. br_ahead r (bs @ rest) \<Longrightarrow> dec_loop dec_step d r (length xs) = Inr xs"
    using loop_inverse [OF assms(1,3)] by blast
  obtain k where "bytes_bits bytes = bs @ replicate k False" using bw_writes_finish(1) [OF bs assms(2)] by blast
  then have "br_ahead (tsdb_br_init (bytes @ junk)) (bs @ [])"
    by (auto simp: br_ahead_def) (simp add: tsdb_br_init_def)
  then show ?thesis by (rule dec)
qed

text \<open>The size of a stream, and the room that is always enough for it.\<close>

lemma stream_size:
  assumes "enc_loop enc_step s (tsdb_bw_init cap) xs = Inr w" and "tsdb_bw_finish w = Some bytes"
    and "rel s d"
  shows "length bytes \<le> cap" and "length bytes \<le> (length xs * width + 7) div 8"
proof -
  obtain bs where bs: "bw_writes (tsdb_bw_init cap) bs w" "length bs \<le> length xs * width"
    using loop_inverse [OF assms(1,3)] by blast
  show "length bytes \<le> cap" using bw_writes_finish(3) [OF bs(1) assms(2)] .
  show "length bytes \<le> (length xs * width + 7) div 8"
    unfolding bw_writes_finish(2) [OF bs(1) assms(2)] using bs(2) by (intro div_le_mono) simp
qed

lemma stream_room:
  assumes "enc_loop enc_step s (tsdb_bw_init cap) xs = Inr w" and "rel s d"
    and "length xs * width \<le> 8 * cap"
  shows "\<exists>bytes. tsdb_bw_finish w = Some bytes"
proof -
  obtain bs where bs: "bw_writes (tsdb_bw_init cap) bs w" "length bs \<le> length xs * width"
    using loop_inverse [OF assms(1,2)] by blast
  then have "tsdb_bw_finish w \<noteq> None" using bw_writes_finish_iff [OF bs(1)] assms(3) by linarith
  then show ?thesis by blast
qed

end

end
