(* ===== verification/Codec_Varint.thy ===== *)
theory Codec_Varint
  imports Core_Bits
begin

text \<open>
  The 7-bit varints of \<^verbatim>\<open>src/compress/dict.c\<close>; \<^verbatim>\<open>src/compress/dod.c\<close> carries the same two functions
  under the names \<^verbatim>\<open>write_uvarint_buf\<close> and \<^verbatim>\<open>read_uvarint_buf\<close>. An output buffer with cursor
  \<^verbatim>\<open>*pos\<close> is the list of bytes stored so far and \<open>cap\<close>; an input buffer with cursor is the whole
  list and the position.
\<close>

section \<open>Operations\<close>

function write_uvarint :: "u8 list \<Rightarrow> nat \<Rightarrow> u64 \<Rightarrow> tsdb_err + u8 list" where
  "write_uvarint out cap v =
     (if length out \<ge> cap then Inl TSDB_ERR_OVERFLOW
      else let b = ucast (v AND 0x7F);
               v' = drop_bit 7 v;
               b' = (if v' \<noteq> 0 then b OR 0x80 else b);
               out' = out @ [b']
           in if v' \<noteq> 0 then write_uvarint out' cap v' else Inr out')"
  by pat_completeness auto
termination
proof (relation "measure (\<lambda>(out, cap, v). unat v)", goal_cases)
  case (2 out cap v b v' b' out')
  then have "0 < unat v" by (auto simp: unat_gt_0)
  then show ?case by (simp add: 2 unat_drop_bit)
qed simp

declare write_uvarint.simps [simp del]

function read_uvarint_loop :: "u8 list \<Rightarrow> nat \<Rightarrow> u64 \<Rightarrow> nat \<Rightarrow> tsdb_err + u64 \<times> nat" where
  "read_uvarint_loop buf pos result shift =
     (if pos \<ge> length buf then Inl TSDB_ERR_CORRUPT
      else let b = buf ! pos;
               result' = result OR push_bit shift (ucast (b AND 0x7F))
           in if b AND 0x80 = 0 then Inr (result', pos + 1)
              else if shift + 7 \<ge> 64 then Inl TSDB_ERR_CORRUPT
              else read_uvarint_loop buf (pos + 1) result' (shift + 7))"
  by pat_completeness auto
termination
  by (relation "measure (\<lambda>(buf, pos, result, shift). length buf - pos)") auto

declare read_uvarint_loop.simps [simp del]

definition read_uvarint :: "u8 list \<Rightarrow> nat \<Rightarrow> tsdb_err + u64 \<times> nat" where
  "read_uvarint buf pos = read_uvarint_loop buf pos 0 0"

definition write_uvarint_buf :: "u8 list \<Rightarrow> nat \<Rightarrow> u64 \<Rightarrow> tsdb_err + u8 list" where
  "write_uvarint_buf = write_uvarint"

definition read_uvarint_buf :: "u8 list \<Rightarrow> nat \<Rightarrow> tsdb_err + u64 \<times> nat" where
  "read_uvarint_buf = read_uvarint"

section \<open>The byte sequence of a varint\<close>

function uvarint_bytes :: "u64 \<Rightarrow> u8 list" where
  "uvarint_bytes v =
     (if drop_bit 7 v = 0 then [ucast (v AND 0x7F)]
      else (ucast (v AND 0x7F) OR 0x80) # uvarint_bytes (drop_bit 7 v))"
  by pat_completeness auto
termination
proof (relation "measure unat", goal_cases)
  case (2 v)
  then have "0 < unat v" by (auto simp: unat_gt_0)
  then show ?case by (simp add: unat_drop_bit)
qed simp

declare uvarint_bytes.simps [simp del]

lemma uvarint_bytes_nonempty: "0 < length (uvarint_bytes v)"
  by (subst uvarint_bytes.simps) simp

lemma write_uvarint_eq:
  "write_uvarint out cap v =
     (if length out + length (uvarint_bytes v) \<le> cap then Inr (out @ uvarint_bytes v)
      else Inl TSDB_ERR_OVERFLOW)"
proof (induction out cap v rule: write_uvarint.induct)
  case (1 out cap v)
  show ?case
    using "1.IH" uvarint_bytes_nonempty [of v] uvarint_bytes_nonempty [of "drop_bit 7 v"]
    by (auto simp: write_uvarint.simps [of out cap v] uvarint_bytes.simps [of v] Let_def)
qed

lemma and_0x7F: "(v :: 'a::len word) AND 0x7F = take_bit 7 v"
  using and_exp_minus_1 [of v 7] by simp

lemma length_uvarint_bytes: "unat v < 2 ^ (7 * k) \<Longrightarrow> 0 < k \<Longrightarrow> length (uvarint_bytes v) \<le> k"
proof (induction k arbitrary: v)
  case (Suc k)
  show ?case
  proof (cases "drop_bit 7 v = 0")
    case False
    have "unat (drop_bit 7 v) < 2 ^ (7 * k)"
      using Suc.prems(1) by (simp add: unat_drop_bit less_mult_imp_div_less power_add mult.commute)
    moreover have "0 < k" using False calculation by (cases k) (auto simp: unat_eq_zero)
    ultimately show ?thesis using Suc.IH False by (simp add: uvarint_bytes.simps [of v])
  qed (simp add: uvarint_bytes.simps [of v])
qed simp

lemma length_uvarint_bytes_10: "length (uvarint_bytes v) \<le> 10"
proof (rule length_uvarint_bytes)
  show "unat v < 2 ^ (7 * 10)" by (rule order.strict_trans [OF unsigned_less]) simp
qed simp

section \<open>Reading back\<close>

lemma and_0x80_eq_0: "((b :: u8) AND 0x80 = 0) \<longleftrightarrow> \<not> bit b 7"
  using and_exp_eq_0_iff_not_bit [of b 7] by simp

lemma bit_0x80: "bit (0x80 :: u8) i \<longleftrightarrow> i = 7"
  using bit_exp_iff [where ?'a = u8, of 7 i] by auto

lemma uvarint_byte_flags:
  "(ucast (take_bit 7 v :: u64) :: u8) AND 0x80 = 0"
  "((ucast (take_bit 7 v :: u64) :: u8) OR 0x80) AND 0x80 \<noteq> 0"
  "(ucast ((ucast (take_bit 7 v :: u64) :: u8) AND 0x7F) :: u64) = take_bit 7 v"
  "(ucast (((ucast (take_bit 7 v :: u64) :: u8) OR 0x80) AND 0x7F) :: u64) = take_bit 7 v"
  unfolding and_0x80_eq_0 and_0x7F
  by (auto simp: bit_simps bit_0x80 intro!: bit_word_eqI)

lemma read_uvarint_loop_bytes:
  assumes "unat v < 2 ^ (64 - shift)" and "shift < 64"
  shows "read_uvarint_loop (pre @ uvarint_bytes v @ post) (length pre) result shift
    = Inr (result OR push_bit shift v, length pre + length (uvarint_bytes v))"
  using assms
proof (induction v arbitrary: pre result shift rule: uvarint_bytes.induct)
  case (1 v)
  show ?case
  proof (cases "drop_bit 7 v = 0")
    case True
    have "take_bit 7 v = v" using True by (metis bits_ident push_bit_of_0 add_0_left)
    then show ?thesis
      using True uvarint_byte_flags(1,3) [of v]
      by (simp add: uvarint_bytes.simps [of v] read_uvarint_loop.simps [of _ "length pre"] and_0x7F)
  next
    case False
    let ?b = "ucast (take_bit 7 v) OR 0x80 :: u8"
    have small: "shift + 7 < 64"
    proof (rule ccontr)
      assume "\<not> shift + 7 < 64"
      then have "(2::nat) ^ (64 - shift) \<le> 2 ^ 7" by (intro power_increasing) auto
      then have "unat v div 2 ^ 7 = 0" using "1.prems"(1) by simp
      then have "unat (drop_bit 7 v) = 0" by (simp only: unat_drop_bit)
      then show False using False by (simp add: unat_eq_zero)
    qed
    have "(2::nat) ^ (64 - (shift + 7)) * 2 ^ 7 = 2 ^ (64 - shift)"
      unfolding power_add [symmetric] using small by simp
    then have "unat v < 2 ^ (64 - (shift + 7)) * 2 ^ 7" using "1.prems"(1) by (simp only:)
    then have bound: "unat (drop_bit 7 v) < 2 ^ (64 - (shift + 7))"
      by (simp only: unat_drop_bit less_mult_imp_div_less)
    have bits: "(result OR push_bit shift (take_bit 7 v)) OR push_bit (shift + 7) (drop_bit 7 v)
        = result OR push_bit shift v"
    proof (rule bit_word_eqI)
      fix i
      have "7 + (i - (shift + 7)) = i - shift" if "shift + 7 \<le> i" using that by simp
      then show "bit ((result OR push_bit shift (take_bit 7 v)) OR push_bit (shift + 7) (drop_bit 7 v)) i
          = bit (result OR push_bit shift v) i"
        by (cases "shift + 7 \<le> i") (auto simp: bit_simps)
    qed
    have "read_uvarint_loop ((pre @ [?b]) @ uvarint_bytes (drop_bit 7 v) @ post) (length (pre @ [?b]))
        (result OR push_bit shift (take_bit 7 v)) (shift + 7)
      = Inr (result OR push_bit shift v, length (pre @ [?b]) + length (uvarint_bytes (drop_bit 7 v)))"
      using "1.IH" [OF False bound small, of "pre @ [?b]" "result OR push_bit shift (take_bit 7 v)"]
      unfolding bits .
    then show ?thesis
      using False small uvarint_byte_flags(2,4) [of v]
      by (simp add: uvarint_bytes.simps [of v] read_uvarint_loop.simps [of _ "length pre"] and_0x7F)
  qed
qed

lemma read_uvarint_bytes [simp]:
  "read_uvarint (pre @ uvarint_bytes v @ post) (length pre) = Inr (v, length pre + length (uvarint_bytes v))"
  using read_uvarint_loop_bytes [of v 0 pre post 0] unsigned_less [of v] by (simp add: read_uvarint_def)

text \<open>A successful read stays inside the buffer and makes progress.\<close>

lemma read_uvarint_loop_pos:
  "read_uvarint_loop buf pos result shift = Inr (v, pos') \<Longrightarrow> pos < pos' \<and> pos' \<le> length buf"
proof (induction buf pos result shift rule: read_uvarint_loop.induct)
  case (1 buf pos result shift)
  then show ?case
    by (fastforce simp: read_uvarint_loop.simps [of buf pos] Let_def split: if_splits)
qed

lemma read_uvarint_pos: "read_uvarint buf pos = Inr (v, pos') \<Longrightarrow> pos < pos' \<and> pos' \<le> length buf"
  by (simp add: read_uvarint_def read_uvarint_loop_pos)

section \<open>Properties of the varints\<close>


text \<open>on any input \<^verbatim>\<open>read_uvarint\<close> that succeeds has consumed at least one byte and none beyond the end
  of the buffer.\<close>

theorem uvarint_read_in_bounds:
  assumes "read_uvarint buf pos = Inr (v, pos')"
  shows "pos < pos' \<and> pos' \<le> length buf"
  using read_uvarint_pos [OF assms] .

theorem uvarint_read_in_bounds_witness:
  "read_uvarint [0xAC, 0x02, 9] 0 = Inr (300, 2) \<and> (0 :: nat) < 2 \<and> (2 :: nat) \<le> length [0xAC, 0x02, 9 :: u8]"
proof -
  have "read_uvarint [0xAC, 0x02, 9] 0 = Inr (300, 2)" by code_simp
  then show ?thesis using uvarint_read_in_bounds [of "[0xAC, 0x02, 9]" 0 300 2] by simp
qed

end
