(* ===== verification/Codec_Dod.thy ===== *)
theory Codec_Dod
  imports Codec_Stream Codec_Varint
begin

text \<open>
  Model of \<^verbatim>\<open>src/compress/dod.c\<close>, the delta-of-delta codec for timestamps and integers. The signed
  \<^verbatim>\<open>int64_t\<close> subtractions and additions are the wrapping ones of two's complement; the range tests on
  the second difference are signed.
\<close>

section \<open>Encoder\<close>

text \<open>The prefix code of one second difference: the \<^verbatim>\<open>if\<close> chain of the encoder's loop body.\<close>

definition dod_put :: "tsdb_bw \<Rightarrow> i64 \<Rightarrow> tsdb_err + tsdb_bw" where
  "dod_put bw D =
     (if D = 0 then Inr (tsdb_bw_put bw 0 1)
      else if - 63 \<le> sint D \<and> sint D \<le> 64
        then Inr (tsdb_bw_put (tsdb_bw_put bw 1 2) (D + 63) 7)
      else if - 255 \<le> sint D \<and> sint D \<le> 256
        then Inr (tsdb_bw_put (tsdb_bw_put bw 3 3) (D + 255) 9)
      else if - 2047 \<le> sint D \<and> sint D \<le> 2048
        then Inr (tsdb_bw_put (tsdb_bw_put bw 7 4) (D + 2047) 12)
      else if sint D < - 0x80000000 \<or> sint D > 0x7FFFFFFF then Inl TSDB_ERR_OVERFLOW
      else Inr (tsdb_bw_put (tsdb_bw_put bw 15 4) (tsdb_zigzag_enc D AND 0xFFFFFFFF) 32))"

text \<open>One iteration; the state is the previous value and the previous delta.\<close>

definition dod_enc_step :: "i64 \<times> i64 \<Rightarrow> tsdb_bw \<Rightarrow> i64 \<Rightarrow> tsdb_err + (i64 \<times> i64) \<times> tsdb_bw" where
  "dod_enc_step = (\<lambda>(prev, prev_delta) bw x.
     let delta = x - prev
     in res_bind (dod_put bw (delta - prev_delta)) (\<lambda>bw'. Inr ((x, delta), bw')))"

fun tsdb_dod_encode :: "i64 list \<Rightarrow> nat \<Rightarrow> tsdb_err + u8 list" where
  "tsdb_dod_encode [] cap = Inr []"
| "tsdb_dod_encode (x0 # xs) cap =
     (if cap < 1 then Inl TSDB_ERR_OVERFLOW
      else if 8 > cap then Inl TSDB_ERR_OVERFLOW
      else let out = le_bytes 8 x0
           in case xs of
                [] \<Rightarrow> Inr out
              | x1 # ys \<Rightarrow>
                  let delta1 = x1 - x0
                  in res_bind (write_uvarint_buf out cap (tsdb_zigzag_enc delta1)) (\<lambda>out1.
                       if ys = [] then Inr out1
                       else res_bind (enc_loop dod_enc_step (x1, delta1) (tsdb_bw_init (cap - length out1)) ys)
                              (\<lambda>bw. res_bind (res_opt TSDB_ERR_OVERFLOW (tsdb_bw_finish bw))
                                (\<lambda>bits. Inr (out1 @ bits)))))"

section \<open>Decoder\<close>

definition dod_get :: "tsdb_br \<Rightarrow> i64 \<times> tsdb_br" where
  "dod_get br =
     (case tsdb_br_get br 1 of (b0, br) \<Rightarrow>
        if b0 = 0 then (0, br)
        else case tsdb_br_get br 1 of (b1, br) \<Rightarrow>
          if b1 = 0 then (case tsdb_br_get br 7 of (stored, br) \<Rightarrow> (stored - 63, br))
          else case tsdb_br_get br 1 of (b2, br) \<Rightarrow>
            if b2 = 0 then (case tsdb_br_get br 9 of (stored, br) \<Rightarrow> (stored - 255, br))
            else case tsdb_br_get br 1 of (b3, br) \<Rightarrow>
              if b3 = 0 then (case tsdb_br_get br 12 of (stored, br) \<Rightarrow> (stored - 2047, br))
              else case tsdb_br_get br 32 of (raw, br) \<Rightarrow> (tsdb_zigzag_dec raw, br))"

definition dod_dec_step :: "i64 \<times> i64 \<Rightarrow> tsdb_br \<Rightarrow> tsdb_err + i64 \<times> (i64 \<times> i64) \<times> tsdb_br" where
  "dod_dec_step = (\<lambda>(prev, prev_delta) br.
     case dod_get br of (D, br') \<Rightarrow>
       if br_underflow br' then Inl TSDB_ERR_CORRUPT
       else let delta = prev_delta + D; x = prev + delta in Inr (x, (x, delta), br'))"

definition tsdb_dod_decode :: "u8 list \<Rightarrow> nat \<Rightarrow> tsdb_err + i64 list" where
  "tsdb_dod_decode buf n =
     (if n = 0 then Inr []
      else if 8 > length buf then Inl TSDB_ERR_CORRUPT
      else let v0 = le_acc 0 0 (take 8 buf)
           in if n = 1 then Inr [v0]
              else res_bind (read_uvarint_buf buf 8) (\<lambda>(zz1, pos).
                     let delta1 = tsdb_zigzag_dec zz1; v1 = v0 + delta1
                     in if n = 2 then Inr [v0, v1]
                        else res_bind (dec_loop dod_dec_step (v1, delta1) (tsdb_br_init (drop pos buf)) (n - 2))
                               (\<lambda>vs. Inr (v0 # v1 # vs))))"

section \<open>One second difference\<close>

text \<open>The bits a second difference is written as, when it is representable.\<close>

definition dod_code :: "i64 \<Rightarrow> bool list" where
  "dod_code D =
     (if D = 0 then [False]
      else if - 63 \<le> sint D \<and> sint D \<le> 64 then [True, False] @ bits_of 7 (D + 63)
      else if - 255 \<le> sint D \<and> sint D \<le> 256 then [True, True, False] @ bits_of 9 (D + 255)
      else if - 2047 \<le> sint D \<and> sint D \<le> 2048 then [True, True, True, False] @ bits_of 12 (D + 2047)
      else [True, True, True, True] @ bits_of 32 (tsdb_zigzag_enc D))"

lemma prefix_bits:
  "bits_of 1 (0 :: u64) = [False]"
  "bits_of 2 (1 :: u64) = [True, False]"
  "bits_of 3 (3 :: u64) = [True, True, False]"
  "bits_of 4 (7 :: u64) = [True, True, True, False]"
  "bits_of 4 (15 :: u64) = [True, True, True, True]"
  by (simp_all add: bits_of_def upt_rec)

lemma biased_fits:
  assumes "- int b \<le> sint D" and "sint D < 2 ^ k - int b" and "k < 64" and "b < 2 ^ 62"
  shows "take_bit k (D + of_nat b) = (D + of_nat b :: i64)"
proof -
  let ?z = "sint D + int b"
  have z: "0 \<le> ?z" "?z < 2 ^ k" using assms by simp_all
  have "(2::int) ^ k \<le> 2 ^ 64" using assms(3) by (intro power_increasing) auto
  then have "?z mod 2 ^ LENGTH(64) = ?z" using z by (intro mod_pos_pos_trivial) auto
  then have "uint (word_of_int ?z :: i64) = ?z" by (simp only: uint_word_of_int)
  moreover have "(word_of_int ?z :: i64) = D + of_nat b" by simp
  ultimately have "uint (D + of_nat b) < 2 ^ k" using z(2) by simp
  then have "int (unat (D + of_nat b)) < int (2 ^ k)" by (simp only: uint_nat of_nat_power of_nat_numeral)
  then show ?thesis by (simp only: fits_unat of_nat_less_iff)
qed

lemma dod_put_writes: "dod_put w D = Inr w' \<Longrightarrow> bw_writes w (dod_code D) w'"
  unfolding dod_put_def dod_code_def and_0xFFFFFFFF
  by (auto split: if_splits intro!: bw_writes_then_put bw_writes_refl simp: prefix_bits)

lemma dod_get_reads:
  assumes "dod_put w D = Inr w'"
  shows "br_reads dod_get (dod_code D) D"
  unfolding br_reads_def
proof (intro allI impI)
  fix r rest assume ahead: "br_ahead r (dod_code D @ rest)"
  consider (zero) "D = 0"
    | (short) "D \<noteq> 0" "- 63 \<le> sint D \<and> sint D \<le> 64"
    | (mid) "D \<noteq> 0" "\<not> (- 63 \<le> sint D \<and> sint D \<le> 64)" "- 255 \<le> sint D \<and> sint D \<le> 256"
    | (long) "D \<noteq> 0" "\<not> (- 63 \<le> sint D \<and> sint D \<le> 64)" "\<not> (- 255 \<le> sint D \<and> sint D \<le> 256)"
        "- 2047 \<le> sint D \<and> sint D \<le> 2048"
    | (full) "D \<noteq> 0" "\<not> (- 63 \<le> sint D \<and> sint D \<le> 64)" "\<not> (- 255 \<le> sint D \<and> sint D \<le> 256)"
        "\<not> (- 2047 \<le> sint D \<and> sint D \<le> 2048)"
    by blast
  then show "\<exists>r'. dod_get r = (D, r') \<and> br_ahead r' rest"
  proof cases
    case zero
    then have "br_ahead r (False # rest)" using ahead by (simp add: dod_code_def)
    then show ?thesis by (rule br_get_zero) (simp add: dod_get_def zero)
  next
    case short
    have fit: "take_bit 7 (D + 63) = D + 63" using biased_fits [of 63 D 7] short by simp
    have "br_ahead r (True # False # bits_of 7 (D + 63) @ rest)"
      using ahead short by (simp add: dod_code_def)
    then show ?thesis
      by (elim br_get_one br_get_zero br_get_field [OF _ _ fit]) (simp_all add: dod_get_def)
  next
    case mid
    have fit: "take_bit 9 (D + 255) = D + 255" using biased_fits [of 255 D 9] mid by simp
    have "br_ahead r (True # True # False # bits_of 9 (D + 255) @ rest)"
      using ahead mid by (simp add: dod_code_def)
    then show ?thesis
      by (elim br_get_one br_get_zero br_get_field [OF _ _ fit]) (simp_all add: dod_get_def)
  next
    case long
    have fit: "take_bit 12 (D + 2047) = D + 2047" using biased_fits [of 2047 D 12] long by simp
    have "br_ahead r (True # True # True # False # bits_of 12 (D + 2047) @ rest)"
      using ahead long by (simp add: dod_code_def)
    then show ?thesis
      by (elim br_get_one br_get_zero br_get_field [OF _ _ fit]) (simp_all add: dod_get_def)
  next
    case full
    have fit: "take_bit 32 (tsdb_zigzag_enc D) = tsdb_zigzag_enc D"
      using assms full by (intro zigzag_enc_fits32) (auto simp: dod_put_def split: if_splits)
    have "br_ahead r (True # True # True # True # bits_of 32 (tsdb_zigzag_enc D) @ rest)"
      using ahead full by (simp add: dod_code_def)
    then show ?thesis
      by (elim br_get_one br_get_field [OF _ _ fit]) (simp_all add: dod_get_def)
  qed
qed

section \<open>Whole streams\<close>

lemma length_dod_code: "length (dod_code D) \<le> 36"
  by (simp add: dod_code_def)

interpretation dod: stream_codec dod_enc_step dod_dec_step "(=)" 36
proof unfold_locales
  fix s w x s' w' and d :: "i64 \<times> i64"
  assume enc: "dod_enc_step s w x = Inr (s', w')" and eq: "s = d"
  obtain prev pd where s: "s = (prev, pd)" by (cases s)
  let ?D = "x - prev - pd"
  from enc have put: "dod_put w ?D = Inr w'" and s': "s' = (x, x - prev)"
    by (auto simp: dod_enc_step_def s Let_def res_bind_Inr_iff)
  have "\<exists>r'. dod_dec_step d r = Inr (x, s', r') \<and> br_ahead r' rest"
    if ahead: "br_ahead r (dod_code ?D @ rest)" for r rest
  proof -
    obtain r' where "dod_get r = (?D, r')" "br_ahead r' rest" "\<not> br_underflow r'"
      using br_readsD [OF dod_get_reads [OF put] ahead] .
    then show ?thesis by (simp add: dod_dec_step_def eq [symmetric] s s' Let_def)
  qed
  then show "\<exists>bs d'. bw_writes w bs w' \<and> length bs \<le> 36 \<and> s' = d' \<and>
      (\<forall>r rest. br_ahead r (bs @ rest) \<longrightarrow> (\<exists>r'. dod_dec_step d r = Inr (x, d', r') \<and> br_ahead r' rest))"
    using dod_put_writes [OF put] length_dod_code by blast
qed

lemma dod_round_trip:
  assumes "tsdb_dod_encode xs cap = Inr bytes"
  shows "tsdb_dod_decode (bytes @ junk) (length xs) = Inr xs"
proof (cases xs)
  case Nil
  then show ?thesis by (simp add: tsdb_dod_decode_def)
next
  case (Cons x0 xs')
  show ?thesis
  proof (cases xs')
    case Nil
    then show ?thesis using assms Cons by (auto simp: tsdb_dod_decode_def split: if_splits)
  next
    case (Cons x1 ys)
    note xs = \<open>xs = x0 # xs'\<close> Cons
    let ?vi = "uvarint_bytes (tsdb_zigzag_enc (x1 - x0))"
    have rd: "read_uvarint ((le_bytes 8 x0 @ ?vi @ post)) 8
        = Inr (tsdb_zigzag_enc (x1 - x0), 8 + length ?vi)" for post
      using read_uvarint_bytes [of "le_bytes 8 x0" "tsdb_zigzag_enc (x1 - x0)" post] by simp
    show ?thesis
    proof (cases "ys = []")
      case True
      then show ?thesis
        using assms xs rd
        by (auto simp: tsdb_dod_decode_def write_uvarint_buf_def read_uvarint_buf_def write_uvarint_eq Let_def
            res_bind_Inr_iff split: if_splits)
    next
      case False
      then obtain bw bits where
        loop: "enc_loop dod_enc_step (x1, x1 - x0) (tsdb_bw_init (cap - (8 + length ?vi))) ys = Inr bw"
        and fin: "tsdb_bw_finish bw = Some bits" and bytes: "bytes = le_bytes 8 x0 @ ?vi @ bits"
        using assms xs
        by (auto simp: write_uvarint_buf_def write_uvarint_eq Let_def res_bind_Inr_iff split: if_splits)
      have "dec_loop dod_dec_step (x1, x1 - x0) (tsdb_br_init (bits @ junk)) (length ys) = Inr ys"
        using dod.stream_round_trip [OF loop fin refl] .
      then show ?thesis
        using False rd by (simp add: xs bytes tsdb_dod_decode_def read_uvarint_buf_def Let_def)
    qed
  qed
qed

section \<open>When the encoder succeeds\<close>

text \<open>The second differences that go through the prefix code: those from the third value on.\<close>

fun second_diffs :: "i64 \<Rightarrow> i64 \<Rightarrow> i64 list \<Rightarrow> i64 list" where
  "second_diffs prev prev_delta [] = []"
| "second_diffs prev prev_delta (x # xs) = (x - prev - prev_delta) # second_diffs x (x - prev) xs"

definition dod_in_range :: "i64 \<Rightarrow> bool" where
  "dod_in_range D \<longleftrightarrow> - 0x80000000 \<le> sint D \<and> sint D \<le> 0x7FFFFFFF"

lemma dod_put_ok_iff: "(\<exists>w'. dod_put w D = Inr w') \<longleftrightarrow> dod_in_range D"
  by (auto simp: dod_put_def dod_in_range_def)

lemma dod_put_error: "dod_put w D = Inl e \<Longrightarrow> e = TSDB_ERR_OVERFLOW"
  by (auto simp: dod_put_def split: if_splits)

lemma dod_loop_ok_iff:
  "(\<exists>w'. enc_loop dod_enc_step (prev, pd) w xs = Inr w') \<longleftrightarrow> list_all dod_in_range (second_diffs prev pd xs)"
proof (induction xs arbitrary: prev pd w)
  case (Cons x xs)
  have "(\<exists>w'. enc_loop dod_enc_step (prev, pd) w (x # xs) = Inr w') \<longleftrightarrow>
      (\<exists>w1. dod_put w (x - prev - pd) = Inr w1 \<and> (\<exists>w'. enc_loop dod_enc_step (x, x - prev) w1 xs = Inr w'))"
    by (auto simp: res_bind_Inr_iff dod_enc_step_def Let_def)
  then show ?case using Cons.IH dod_put_ok_iff by auto
qed simp

lemma dod_loop_error: "enc_loop dod_enc_step s w xs = Inl e \<Longrightarrow> e = TSDB_ERR_OVERFLOW"
  by (induction xs arbitrary: s w)
    (auto simp: res_bind_Inl_iff dod_enc_step_def Let_def dest: dod_put_error)

lemma dod_encode_error: "tsdb_dod_encode xs cap = Inl e \<Longrightarrow> e = TSDB_ERR_OVERFLOW"
  by (cases "(xs, cap)" rule: tsdb_dod_encode.cases)
    (auto simp: Let_def write_uvarint_buf_def write_uvarint_eq res_bind_Inl_iff res_opt_def
      dest: dod_loop_error split: list.splits if_splits option.splits)

lemma dod_encode_cons2:
  "tsdb_dod_encode (x0 # x1 # ys) cap =
    (let vi = uvarint_bytes (tsdb_zigzag_enc (x1 - x0)) in
     if cap < 8 + length vi then Inl TSDB_ERR_OVERFLOW
     else if ys = [] then Inr (le_bytes 8 x0 @ vi)
     else res_bind (enc_loop dod_enc_step (x1, x1 - x0) (tsdb_bw_init (cap - (8 + length vi))) ys)
       (\<lambda>bw. res_bind (res_opt TSDB_ERR_OVERFLOW (tsdb_bw_finish bw))
         (\<lambda>bits. Inr (le_bytes 8 x0 @ vi @ bits))))"
  using uvarint_bytes_nonempty [of "tsdb_zigzag_enc (x1 - x0)"]
  by (simp add: Let_def write_uvarint_buf_def write_uvarint_eq)

lemma dod_encode_size:
  assumes "tsdb_dod_encode xs cap = Inr bytes"
  shows "length bytes \<le> cap" and "length bytes \<le> 18 + (36 * length xs) div 8"
proof -
  have "length bytes \<le> cap \<and> length bytes \<le> 18 + (36 * length xs) div 8"
  proof (cases xs rule: remdups_adj.cases)
    case (3 x0 x1 ys)
    let ?vi = "uvarint_bytes (tsdb_zigzag_enc (x1 - x0))"
    show ?thesis
    proof (cases "ys = []")
      case True
      then show ?thesis
        using assms 3 length_uvarint_bytes_10 [of "tsdb_zigzag_enc (x1 - x0)"]
        by (auto simp: dod_encode_cons2 Let_def simp del: tsdb_dod_encode.simps split: if_splits)
    next
      case False
      then obtain bw bits where
        loop: "enc_loop dod_enc_step (x1, x1 - x0) (tsdb_bw_init (cap - (8 + length ?vi))) ys = Inr bw"
        and fin: "tsdb_bw_finish bw = Some bits" and bytes: "bytes = le_bytes 8 x0 @ ?vi @ bits"
        and room: "8 + length ?vi \<le> cap"
        using assms 3
        by (auto simp: dod_encode_cons2 Let_def res_bind_Inr_iff simp del: tsdb_dod_encode.simps split: if_splits)
      show ?thesis
        using dod.stream_size [OF loop fin refl] room length_uvarint_bytes_10 [of "tsdb_zigzag_enc (x1 - x0)"]
        by (simp add: bytes 3, intro conjI; linarith)
    qed
  qed (use assms in \<open>auto split: if_splits\<close>)
  then show "length bytes \<le> cap" "length bytes \<le> 18 + (36 * length xs) div 8" by auto
qed

lemma dod_encode_ok_iff:
  assumes "18 + (36 * length xs) div 8 + 1 \<le> cap"
  shows "(\<exists>bytes. tsdb_dod_encode xs cap = Inr bytes) \<longleftrightarrow>
    (case xs of x0 # x1 # ys \<Rightarrow> list_all dod_in_range (second_diffs x1 (x1 - x0) ys) | _ \<Rightarrow> True)"
proof (cases xs rule: remdups_adj.cases)
  case (3 x0 x1 ys)
  let ?vi = "uvarint_bytes (tsdb_zigzag_enc (x1 - x0))"
  let ?loop = "enc_loop dod_enc_step (x1, x1 - x0) (tsdb_bw_init (cap - (8 + length ?vi))) ys"
  have vi: "length ?vi \<le> 10" by (rule length_uvarint_bytes_10)
  have room: "length ys * 36 \<le> 8 * (cap - (8 + length ?vi))" using assms vi 3 by simp
  have "(\<exists>bytes. tsdb_dod_encode xs cap = Inr bytes) \<longleftrightarrow>
      ys = [] \<or> (\<exists>bw. ?loop = Inr bw \<and> (\<exists>bits. tsdb_bw_finish bw = Some bits))"
    using assms vi 3
    by (auto simp: dod_encode_cons2 Let_def res_bind_Inr_iff simp del: tsdb_dod_encode.simps)
  also have "\<dots> \<longleftrightarrow> ys = [] \<or> (\<exists>bw. ?loop = Inr bw)"
    using dod.stream_room [OF _ refl room] by blast
  also have "\<dots> \<longleftrightarrow> list_all dod_in_range (second_diffs x1 (x1 - x0) ys)"
    unfolding dod_loop_ok_iff by auto
  finally show ?thesis by (simp add: 3)
qed (use assms in auto)

section \<open>Properties of the delta-of-delta codec\<close>

text \<open>C5: whatever \<^verbatim>\<open>tsdb_dod_encode\<close> accepts, \<^verbatim>\<open>tsdb_dod_decode\<close> restores, also when other bytes follow;
  the output stays within the capacity, and within 18 bytes plus 36 bits per value.\<close>

theorem dod_lossless:
  assumes "tsdb_dod_encode xs cap = Inr bytes"
  shows "tsdb_dod_decode (bytes @ junk) (length xs) = Inr xs \<and> length bytes \<le> cap
       \<and> length bytes \<le> 18 + (36 * length xs) div 8"
  using dod_round_trip [OF assms] dod_encode_size [OF assms] by simp

theorem dod_lossless_witness:
  "tsdb_dod_encode [1000, 1010, 1020, 1035, 9999] 64 = Inr [232, 3, 0, 0, 0, 0, 0, 0, 20, 34, 190, 122, 17, 0, 0]
   \<and> tsdb_dod_decode [232, 3, 0, 0, 0, 0, 0, 0, 20, 34, 190, 122, 17, 0, 0, 77] (length [1000, 1010, 1020, 1035, 9999 :: i64])
       = Inr [1000, 1010, 1020, 1035, 9999]"
proof -
  have "tsdb_dod_encode [1000, 1010, 1020, 1035, 9999] 64
      = Inr [232, 3, 0, 0, 0, 0, 0, 0, 20, 34, 190, 122, 17, 0, 0]" by code_simp
  then show ?thesis using dod_lossless [of "[1000, 1010, 1020, 1035, 9999]" 64 _ "[77]"]
    by (simp del: tsdb_dod_encode.simps)
qed

text \<open>C6: with room for the longest code of every value, \<^verbatim>\<open>tsdb_dod_encode\<close> succeeds exactly when every
  second difference from the third value on lies in the signed 32-bit range; every failure, here and
  for a short buffer, is \<^verbatim>\<open>TSDB_ERR_OVERFLOW\<close>.\<close>

theorem dod_encode_complete:
  "(tsdb_dod_encode xs cap = Inl e \<longrightarrow> e = TSDB_ERR_OVERFLOW) \<and>
   (19 + (36 * length xs) div 8 \<le> cap \<longrightarrow>
     ((\<exists>bytes. tsdb_dod_encode xs cap = Inr bytes) \<longleftrightarrow>
      (case xs of x0 # x1 # ys \<Rightarrow> list_all dod_in_range (second_diffs x1 (x1 - x0) ys) | _ \<Rightarrow> True)))"
  using dod_encode_error dod_encode_ok_iff [of xs cap] by simp

theorem dod_encode_complete_witness:
  "19 + (36 * length [5 :: i64, 6, 7, 0x100000000]) div 8 \<le> (64 :: nat) \<and>
   \<not> (\<exists>bytes. tsdb_dod_encode [5, 6, 7, 0x100000000] 64 = Inr bytes)"
proof -
  have "\<not> list_all dod_in_range (second_diffs 6 (6 - 5) [7, 0x100000000])" by code_simp
  then show ?thesis using dod_encode_complete [of "[5, 6, 7, 0x100000000]" 64 TSDB_ERR_OVERFLOW]
    by (simp del: tsdb_dod_encode.simps)
qed


end
