(* ===== verification/Codec_Bp128.thy ===== *)
theory Codec_Bp128
  imports Core_Bits
begin

text \<open>
  Model of \<^verbatim>\<open>src/compress/bp128.c\<close>: packing 128 values at a fixed width in four interleaved lanes. The
  model is the scalar path (\<^verbatim>\<open>pack4_scalar\<close>, \<^verbatim>\<open>unpack4_scalar\<close>); the AVX2 kernels repeat its loops on four
  64-bit lanes of a register. The four accumulators are a list; the destination is the list of the
  words stored so far, four at a time.
\<close>

section \<open>Operations\<close>

definition group4 :: "'a list \<Rightarrow> nat \<Rightarrow> 'a list" where
  "group4 xs i = [xs ! (i * 4 + 0), xs ! (i * 4 + 1), xs ! (i * 4 + 2), xs ! (i * 4 + 3)]"

definition bp_mask :: "nat \<Rightarrow> u64" where
  "bp_mask b = (if b = 32 then 0xFFFFFFFF else push_bit b 1 - 1)"

text \<open>The inner \<^verbatim>\<open>while (bits >= 32)\<close> of the packer.\<close>

function pack4_flush :: "u64 list \<Rightarrow> nat \<Rightarrow> u32 list \<Rightarrow> u64 list \<times> nat \<times> u32 list" where
  "pack4_flush acc bits dst =
     (if bits \<ge> 32 then pack4_flush (map (drop_bit 32) acc) (bits - 32) (dst @ map ucast acc)
      else (acc, bits, dst))"
  by pat_completeness auto
termination
  by (relation "measure (\<lambda>(acc, bits, dst). bits)") auto

declare pack4_flush.simps [simp del]

definition pack4_step :: "u32 list \<Rightarrow> nat \<Rightarrow> nat \<Rightarrow> u64 list \<times> nat \<times> u32 list \<Rightarrow> u64 list \<times> nat \<times> u32 list" where
  "pack4_step src b i = (\<lambda>(acc, bits, dst).
     pack4_flush (map2 (\<lambda>a v. a OR push_bit bits (ucast v AND bp_mask b)) acc (group4 src i)) (bits + b) dst)"

definition pack4_scalar :: "u32 list \<Rightarrow> nat \<Rightarrow> u32 list" where
  "pack4_scalar src b =
     (case fold (pack4_step src b) [0..<32] ([0, 0, 0, 0], 0, []) of (acc, bits, dst) \<Rightarrow>
        if bits > 0 then dst @ map ucast acc else dst)"

text \<open>The inner \<^verbatim>\<open>while (bits < b)\<close> of the unpacker.\<close>

function unpack4_refill :: "u32 list \<Rightarrow> nat \<Rightarrow> u64 list \<Rightarrow> nat \<Rightarrow> nat \<Rightarrow> u64 list \<times> nat \<times> nat" where
  "unpack4_refill src b acc bits iidx =
     (if bits < b
      then unpack4_refill src b (map2 (\<lambda>a v. a OR push_bit bits (ucast v)) acc (group4 src iidx)) (bits + 32) (iidx + 1)
      else (acc, bits, iidx))"
  by pat_completeness auto
termination
  by (relation "measure (\<lambda>(src, b, acc, bits, iidx). b - bits)") auto

declare unpack4_refill.simps [simp del]

definition unpack4_step :: "u32 list \<Rightarrow> nat \<Rightarrow> nat \<Rightarrow> u64 list \<times> nat \<times> nat \<times> u32 list
    \<Rightarrow> u64 list \<times> nat \<times> nat \<times> u32 list" where
  "unpack4_step src b i = (\<lambda>(acc, bits, iidx, dst).
     case unpack4_refill src b acc bits iidx of (acc, bits, iidx) \<Rightarrow>
       (map (drop_bit b) acc, bits - b, iidx, dst @ map (\<lambda>a. ucast (a AND bp_mask b)) acc))"

definition unpack4_scalar :: "u32 list \<Rightarrow> nat \<Rightarrow> u32 list" where
  "unpack4_scalar src b =
     (case fold (unpack4_step src b) [0..<32] ([0, 0, 0, 0], 0, 0, []) of (acc, bits, iidx, dst) \<Rightarrow> dst)"

definition tsdb_bp128_pack :: "u32 list \<Rightarrow> nat \<Rightarrow> tsdb_err + u32 list" where
  "tsdb_bp128_pack src b =
     (if b = 0 \<or> b > 32 then Inl TSDB_ERR_INVAL
      else let zeroed = replicate (b * 4) 0; packed = pack4_scalar src b
           in Inr (packed @ drop (length packed) zeroed))"

definition tsdb_bp128_unpack :: "u32 list \<Rightarrow> nat \<Rightarrow> tsdb_err + u32 list" where
  "tsdb_bp128_unpack src b =
     (if b = 0 \<or> b > 32 then Inl TSDB_ERR_INVAL else Inr (unpack4_scalar src b))"

section \<open>Lanes\<close>

text \<open>The bits of lane \<open>k\<close> in a list of words stored four at a time, and the bits of its values.\<close>

definition lane :: "'a list \<Rightarrow> nat \<Rightarrow> nat \<Rightarrow> 'a list" where
  "lane xs n k = map (\<lambda>j. xs ! (j * 4 + k)) [0..<n]"

definition lane_bits :: "u32 list \<Rightarrow> nat \<Rightarrow> nat \<Rightarrow> nat \<Rightarrow> bool list" where
  "lane_bits xs n k b = concat (map (bits_of b) (lane xs n k))"

lemma lane_bits_Suc: "lane_bits xs (Suc n) k b = lane_bits xs n k b @ bits_of b (xs ! (n * 4 + k))"
  by (simp add: lane_bits_def lane_def)

lemma length_lane_bits [simp]: "length (lane_bits xs n k b) = n * b"
  by (induction n) (simp_all add: lane_bits_Suc, simp add: lane_bits_def lane_def)

lemma lane_bits_append: "n * 4 \<le> length xs \<Longrightarrow> k < 4 \<Longrightarrow> lane_bits (xs @ ys) n k b = lane_bits xs n k b"
  unfolding lane_bits_def lane_def by (intro arg_cong [of _ _ concat] map_cong refl) (auto simp: nth_append)

lemma group4_nth: "k < 4 \<Longrightarrow> group4 xs i ! k = xs ! (i * 4 + k)"
  by (auto simp: group4_def less_Suc_eq numeral_eq_Suc)

lemma length_group4 [simp]: "length (group4 xs i) = 4"
  by (simp add: group4_def)

lemma bp_mask_take_bit: "b \<le> 32 \<Longrightarrow> v AND bp_mask b = take_bit b v"
  using and_exp_minus_1 [of v 32] by (simp add: bp_mask_def)


text \<open>
  The state of either loop holds, per lane, the bits \<open>X k\<close>: those of the \<open>m\<close> groups of words it has
  stored and the low \<open>bits\<close> bits of the accumulator.
\<close>

definition lanes_hold :: "(nat \<Rightarrow> bool list) \<Rightarrow> nat \<Rightarrow> nat \<Rightarrow> u64 list \<Rightarrow> nat \<Rightarrow> u32 list \<Rightarrow> bool" where
  "lanes_hold X w m acc bits dst \<longleftrightarrow> length acc = 4 \<and> length dst = m * 4 \<and> list_all (\<lambda>v. take_bit w v = v) dst \<and>
     (\<forall>k < 4. take_bit bits (acc ! k) = acc ! k \<and> lane_bits dst m k w @ bits_of bits (acc ! k) = X k)"

lemma lanes_hold_put:
  assumes "lanes_hold X w m acc bits dst" and "bits + n \<le> 64" and "length vs = 4"
  shows "lanes_hold (\<lambda>k. X k @ bits_of n (vs ! k)) w m
           (map2 (\<lambda>a v. a OR push_bit bits (take_bit n v)) acc vs) (bits + n) dst"
  using assms
  by (auto simp: lanes_hold_def bits_of_or_push_bit take_bit_or_push_bit simp del: take_bit_or simp flip: append_assoc)

lemma lanes_hold_cong:
  "lanes_hold X w m acc bits dst \<Longrightarrow> (\<And>k. k < 4 \<Longrightarrow> X k = Y k) \<Longrightarrow> lanes_hold Y w m acc bits dst"
  by (simp add: lanes_hold_def)

lemma fits_ucast: "take_bit w (ucast (take_bit w a)) = (ucast (take_bit w (a :: 'a::len word)) :: 'b::len word)"
  by (rule fitsI) (simp add: bit_simps)

lemma lanes_hold_take:
  assumes h: "lanes_hold X w m acc bits dst" and n: "w \<le> bits" "w \<le> 32"
  shows "lanes_hold X w (Suc m) (map (drop_bit w) acc) (bits - w) (dst @ map (\<lambda>a. ucast (take_bit w a)) acc)"
proof -
  have len: "length acc = 4" "length dst = m * 4" using h by (auto simp: lanes_hold_def)
  have "take_bit (bits - w) (drop_bit w (acc ! k)) = drop_bit w (acc ! k)
      \<and> lane_bits (dst @ map (\<lambda>a. ucast (take_bit w a)) acc) (Suc m) k w @ bits_of (bits - w) (drop_bit w (acc ! k)) = X k"
    if k: "k < 4" for k
  proof -
    have f: "take_bit bits (acc ! k) = acc ! k" and x: "lane_bits dst m k w @ bits_of bits (acc ! k) = X k"
      using h k by (auto simp: lanes_hold_def)
    have "bits_of (w + (bits - w)) (acc ! k) = bits_of w (acc ! k) @ bits_of (bits - w) (drop_bit w (acc ! k))"
      by (rule bits_of_add)
    moreover have "take_bit (bits - w) (drop_bit w (acc ! k)) = drop_bit w (take_bit bits (acc ! k))"
      by (simp add: drop_bit_take_bit)
    ultimately show ?thesis
      using x n f k len by (simp add: lane_bits_Suc lane_bits_append nth_append bits_of_ucast)
  qed
  moreover have "list_all (\<lambda>v. take_bit w v = v) (dst @ map (\<lambda>a. ucast (take_bit w a)) acc)"
    using h by (auto simp: lanes_hold_def list_all_iff fits_ucast)
  ultimately show ?thesis using len by (simp add: lanes_hold_def)
qed

lemma lanes_hold_length:
  assumes "lanes_hold X w m acc bits dst" and "k < 4"
  shows "m * w + bits = length (X k)"
proof -
  have "lane_bits dst m k w @ bits_of bits (acc ! k) = X k" using assms by (simp add: lanes_hold_def)
  then show ?thesis by (metis length_append length_bits_of length_lane_bits)
qed

section \<open>The packer\<close>

lemma pack4_flush_holds:
  "lanes_hold X 32 m acc bits dst \<Longrightarrow> pack4_flush acc bits dst = (acc', bits', dst') \<Longrightarrow>
     bits' < 32 \<and> (\<exists>m'. lanes_hold X 32 m' acc' bits' dst')"
proof (induction acc bits dst arbitrary: m rule: pack4_flush.induct)
  case (1 acc bits dst)
  show ?case
  proof (cases "bits \<ge> 32")
    case True
    have "map (\<lambda>a. ucast (take_bit 32 a)) acc = (map ucast acc :: u32 list)"
      by (auto intro!: bit_word_eqI simp: bit_simps)
    then have "lanes_hold X 32 (Suc m) (map (drop_bit 32) acc) (bits - 32) (dst @ map ucast acc)"
      using lanes_hold_take [OF "1.prems"(1)] True by (simp only: order_refl)
    moreover have "pack4_flush (map (drop_bit 32) acc) (bits - 32) (dst @ map ucast acc) = (acc', bits', dst')"
      using "1.prems"(2) True by (subst (asm) pack4_flush.simps) simp
    ultimately show ?thesis using "1.IH" [OF True] by blast
  next
    case False
    then show ?thesis using "1.prems" by (subst (asm) pack4_flush.simps) auto
  qed
qed

lemma pack4_step_holds:
  assumes h: "lanes_hold (\<lambda>k. lane_bits src i k b) 32 m acc bits dst" and "bits < 32" and "b \<le> 32"
    and r: "pack4_step src b i (acc, bits, dst) = (acc', bits', dst')"
  shows "bits' < 32 \<and> (\<exists>m'. lanes_hold (\<lambda>k. lane_bits src (Suc i) k b) 32 m' acc' bits' dst')"
proof -
  let ?vs = "map ucast (group4 src i) :: u64 list"
  have "lanes_hold (\<lambda>k. lane_bits src i k b @ bits_of b (?vs ! k)) 32 m
      (map2 (\<lambda>a v. a OR push_bit bits (take_bit b v)) acc ?vs) (bits + b) dst"
    using assms by (intro lanes_hold_put) auto
  then have "lanes_hold (\<lambda>k. lane_bits src (Suc i) k b) 32 m
      (map2 (\<lambda>a v. a OR push_bit bits (take_bit b v)) acc ?vs) (bits + b) dst"
    using \<open>b \<le> 32\<close> by (elim lanes_hold_cong) (simp add: lane_bits_Suc group4_nth bits_of_ucast)
  moreover have "map2 (\<lambda>a v. a OR push_bit bits (take_bit b v)) acc ?vs
      = map2 (\<lambda>a v. a OR push_bit bits (ucast v AND bp_mask b)) acc (group4 src i)"
    using \<open>b \<le> 32\<close> by (simp add: bp_mask_take_bit zip_map2 split_def)
  ultimately show ?thesis using r unfolding pack4_step_def by (auto dest: pack4_flush_holds)
qed

lemma pack4_loop_holds:
  assumes "b \<le> 32"
  shows "\<exists>acc bits dst m. fold (pack4_step src b) [0..<n] ([0, 0, 0, 0], 0, []) = (acc, bits, dst) \<and> bits < 32
     \<and> lanes_hold (\<lambda>k. lane_bits src n k b) 32 m acc bits dst"
proof (induction n)
  case 0
  show ?case by (simp add: lanes_hold_def lane_bits_def lane_def less_Suc_eq numeral_eq_Suc)
next
  case (Suc n)
  then obtain acc bits dst m where s: "fold (pack4_step src b) [0..<n] ([0, 0, 0, 0], 0, []) = (acc, bits, dst)"
    and h: "bits < 32" "lanes_hold (\<lambda>k. lane_bits src n k b) 32 m acc bits dst" by blast
  obtain acc' bits' dst' where r: "pack4_step src b n (acc, bits, dst) = (acc', bits', dst')"
    by (metis prod_cases3)
  show ?case using pack4_step_holds [OF h(2,1) assms r] s r by auto
qed

lemma pack4_scalar_lanes:
  assumes "b \<le> 32"
  shows "length (pack4_scalar src b) = b * 4 \<and> (\<forall>k < 4. lane_bits (pack4_scalar src b) b k 32 = lane_bits src 32 k b)"
proof -
  obtain acc bits dst m where s: "fold (pack4_step src b) [0..<32] ([0, 0, 0, 0], 0, []) = (acc, bits, dst)"
    and h: "bits < 32" "lanes_hold (\<lambda>k. lane_bits src 32 k b) 32 m acc bits dst"
    using pack4_loop_holds [OF assms] by blast
  have "m * 32 + bits = 32 * b" using lanes_hold_length [OF h(2), of 0] by simp
  then have "bits = 0" "m = b" using h(1) by presburger+
  then show ?thesis using h(2) unfolding pack4_scalar_def s by (simp add: lanes_hold_def)
qed

section \<open>The unpacker\<close>

lemma take_bit_ucast32: "take_bit 32 (ucast (v :: u32) :: u64) = ucast v"
proof (rule fitsI)
  fix i :: nat assume "32 \<le> i" "i < LENGTH(64)"
  then show "\<not> bit (ucast v :: u64) i" using bit_imp_le_length [of v i] by (auto simp: bit_simps)
qed

lemma unpack4_refill_holds:
  assumes h: "lanes_hold (\<lambda>k. lane_bits src iidx k 32) b i acc bits dst" and "bits < 32" "b \<le> 32"
    and r: "unpack4_refill src b acc bits iidx = (acc', bits', iidx')"
  shows "b \<le> bits' \<and> bits' < b + 32 \<or> bits' = bits"
    and "b \<le> bits' \<and> lanes_hold (\<lambda>k. lane_bits src iidx' k 32) b i acc' bits' dst"
proof -
  let ?vs = "map ucast (group4 src iidx) :: u64 list"
  let ?acc = "map2 (\<lambda>a v. a OR push_bit bits (ucast v)) acc (group4 src iidx)"
  have eq: "map2 (\<lambda>a v. a OR push_bit bits (take_bit 32 v)) acc ?vs = ?acc"
    by (simp add: zip_map2 split_def take_bit_ucast32)
  have "lanes_hold (\<lambda>k. lane_bits src iidx k 32 @ bits_of 32 (?vs ! k)) b i
      (map2 (\<lambda>a v. a OR push_bit bits (take_bit 32 v)) acc ?vs) (bits + 32) dst"
    using assms by (intro lanes_hold_put) auto
  then have h': "lanes_hold (\<lambda>k. lane_bits src (Suc iidx) k 32) b i ?acc (bits + 32) dst"
    unfolding eq by (elim lanes_hold_cong) (simp add: lane_bits_Suc group4_nth bits_of_ucast)
  have one: "unpack4_refill src b acc bits iidx = (if bits < b then (?acc, bits + 32, Suc iidx) else (acc, bits, iidx))"
    using assms by (subst unpack4_refill.simps, subst unpack4_refill.simps) simp
  show "b \<le> bits' \<and> bits' < b + 32 \<or> bits' = bits"
    using one r assms by (auto split: if_splits)
  show "b \<le> bits' \<and> lanes_hold (\<lambda>k. lane_bits src iidx' k 32) b i acc' bits' dst"
    using one r h h' assms by (auto split: if_splits)
qed

lemma unpack4_step_holds:
  assumes h: "lanes_hold (\<lambda>k. lane_bits src iidx k 32) b i acc bits dst" and "bits < 32" "b \<le> 32"
    and r: "unpack4_step src b i (acc, bits, iidx, dst) = (acc', bits', iidx', dst')"
  shows "bits' < 32 \<and> lanes_hold (\<lambda>k. lane_bits src iidx' k 32) b (Suc i) acc' bits' dst'"
proof -
  obtain acc1 bits1 iidx1 where s: "unpack4_refill src b acc bits iidx = (acc1, bits1, iidx1)"
    by (metis prod_cases3)
  note u = unpack4_refill_holds [OF assms(1-3) s]
  have "lanes_hold (\<lambda>k. lane_bits src iidx1 k 32) b (Suc i) (map (drop_bit b) acc1) (bits1 - b)
      (dst @ map (\<lambda>a. ucast (take_bit b a)) acc1)"
    using u(2) \<open>b \<le> 32\<close> by (intro lanes_hold_take) auto
  then show ?thesis using u r s assms(2,3) by (auto simp: unpack4_step_def bp_mask_take_bit)
qed

lemma unpack4_loop_holds:
  assumes "b \<le> 32"
  shows "\<exists>acc bits iidx dst. fold (unpack4_step src b) [0..<n] ([0, 0, 0, 0], 0, 0, []) = (acc, bits, iidx, dst) \<and> bits < 32
     \<and> lanes_hold (\<lambda>k. lane_bits src iidx k 32) b n acc bits dst"
proof (induction n)
  case 0
  show ?case by (simp add: lanes_hold_def lane_bits_def lane_def less_Suc_eq numeral_eq_Suc)
next
  case (Suc n)
  then obtain acc bits iidx dst where s: "fold (unpack4_step src b) [0..<n] ([0, 0, 0, 0], 0, 0, []) = (acc, bits, iidx, dst)"
    and h: "bits < 32" "lanes_hold (\<lambda>k. lane_bits src iidx k 32) b n acc bits dst" by blast
  obtain acc' bits' iidx' dst' where r: "unpack4_step src b n (acc, bits, iidx, dst) = (acc', bits', iidx', dst')"
    by (metis prod_cases4)
  show ?case using unpack4_step_holds [OF h(2,1) assms r] s r by auto
qed

lemma unpack4_scalar_lanes:
  assumes "b \<le> 32"
  shows "length (unpack4_scalar src b) = 128 \<and> list_all (\<lambda>v. take_bit b v = v) (unpack4_scalar src b)
    \<and> (\<forall>k < 4. lane_bits (unpack4_scalar src b) 32 k b = lane_bits src b k 32)"
proof -
  obtain acc bits iidx dst where s: "fold (unpack4_step src b) [0..<32] ([0, 0, 0, 0], 0, 0, []) = (acc, bits, iidx, dst)"
    and h: "bits < 32" "lanes_hold (\<lambda>k. lane_bits src iidx k 32) b 32 acc bits dst"
    using unpack4_loop_holds [OF assms, of src 32] by (elim exE conjE) (rule that)
  have "32 * b + bits = iidx * 32" using lanes_hold_length [OF h(2), of 0] by simp
  then have i: "bits + b * 32 = iidx * 32" by simp
  then have "(bits + b * 32) div 32 = iidx * 32 div 32" by (rule arg_cong)
  then have "b = iidx" using h(1) by simp
  with i have z: "bits = 0 \<and> iidx = b" by simp
  have "lanes_hold (\<lambda>k. lane_bits src b k 32) b 32 acc 0 dst" using h(2) z by simp
  moreover have "unpack4_scalar src b = dst" unfolding unpack4_scalar_def s by (simp only: prod.case)
  ultimately show ?thesis unfolding lanes_hold_def by simp
qed


section \<open>Round trip\<close>

lemma lane_bits_nth:
  assumes "lane_bits xs n k b = lane_bits ys n k b" and "j < n" and "b \<le> 32"
  shows "take_bit b (xs ! (j * 4 + k)) = take_bit b (ys ! (j * 4 + k))"
  using assms(1,2)
proof (induction n)
  case (Suc n)
  then show ?case by (auto simp: lane_bits_Suc bits_of_inj less_Suc_eq)
qed simp

lemma lanes_determine:
  assumes "length xs = 128" "length ys = 128" and "b \<le> 32"
    and l: "\<And>k. k < 4 \<Longrightarrow> lane_bits xs 32 k b = lane_bits ys 32 k b"
  shows "map (take_bit b) xs = map (take_bit b) ys"
proof (rule nth_equalityI)
  fix i assume "i < length (map (take_bit b) xs)"
  then have i: "i < 128" "i div 4 < 32" "i mod 4 < 4" using assms by auto
  have "take_bit b (xs ! (i div 4 * 4 + i mod 4)) = take_bit b (ys ! (i div 4 * 4 + i mod 4))"
    using lane_bits_nth [OF l [OF i(3)] i(2) assms(3)] .
  then show "map (take_bit b) xs ! i = map (take_bit b) ys ! i" using i assms by simp
qed (simp add: assms)


lemma unpack4_pack4_low:
  assumes "b \<le> 32" "length src = 128"
  shows "unpack4_scalar (pack4_scalar src b) b = map (take_bit b) src"
proof -
  let ?u = "unpack4_scalar (pack4_scalar src b) b"
  have u: "length ?u = 128" "list_all (\<lambda>v. take_bit b v = v) ?u"
    "\<And>k. k < 4 \<Longrightarrow> lane_bits ?u 32 k b = lane_bits src 32 k b"
    using unpack4_scalar_lanes [OF assms(1)] pack4_scalar_lanes [OF assms(1)] by simp_all
  have "map (take_bit b) ?u = map (take_bit b) src"
    using u assms by (intro lanes_determine) auto
  moreover have "map (take_bit b) ?u = ?u" using u(2) by (simp add: list_all_iff map_idI)
  ultimately show ?thesis by simp
qed

text \<open>C14: Packing accepts exactly the widths 1 to 32, stores exactly \<open>4 * b\<close> words for a group of 128
  values, and unpacking them at the same width gives the low \<open>b\<close> bits of every value back: the group
  itself when every value fits in \<open>b\<close> bits. The widths outside the range are refused both ways.\<close>

theorem bp128_round_trip:
  assumes "length src = 128"
  shows "(if b = 0 \<or> b > 32 then tsdb_bp128_pack src b = Inl TSDB_ERR_INVAL \<and> tsdb_bp128_unpack ws b = Inl TSDB_ERR_INVAL
    else \<exists>packed. tsdb_bp128_pack src b = Inr packed \<and> length packed = 4 * b
      \<and> tsdb_bp128_unpack packed b = Inr (map (take_bit b) src)
      \<and> (list_all (\<lambda>v. unat v < 2 ^ b) src \<longrightarrow> tsdb_bp128_unpack packed b = Inr src))"
proof (cases "b = 0 \<or> b > 32")
  case False
  then have b: "b \<le> 32" by simp
  let ?p = "pack4_scalar src b"
  have p: "length ?p = 4 * b" "tsdb_bp128_pack src b = Inr ?p"
    using pack4_scalar_lanes [OF b, of src] False by (auto simp: tsdb_bp128_pack_def)
  have "unpack4_scalar ?p b = map (take_bit b) src"
    using unpack4_pack4_low [OF b assms] .
  moreover have "map (take_bit b) src = src" if "list_all (\<lambda>v. unat v < 2 ^ b) src"
    using that by (simp add: list_all_iff map_idI flip: fits_unat)
  ultimately show ?thesis using p False by (simp add: tsdb_bp128_unpack_def)
qed (auto simp: tsdb_bp128_pack_def tsdb_bp128_unpack_def)

theorem bp128_round_trip_witness:
  "\<exists>packed. tsdb_bp128_pack (map of_nat [0..<128]) 7 = Inr packed \<and> length packed = 28
     \<and> tsdb_bp128_unpack packed 7 = Inr (map of_nat [0..<128])"
proof -
  have "list_all (\<lambda>v. unat v < 2 ^ 7) (map of_nat [0..<128] :: u32 list)"
    by (auto simp: list_all_iff unat_of_nat)
  then show ?thesis using bp128_round_trip [of "map of_nat [0..<128]" 7 "[]"] by auto
qed

end
