(* ===== verification/Codec_Pfor.thy ===== *)
theory Codec_Pfor
  imports Codec_Bp128
begin

text \<open>
  Model of \<^verbatim>\<open>src/compress/pfor.c\<close>: patched frame of reference. A stream is a count and a sequence of
  blocks of up to 128 values; a block stores the minimum, the residuals at a width that 95 per cent of
  them fit, and the rest as exceptions. \<^verbatim>\<open>tsdb_pfor_encode_i64\<close> puts zigzag deltas through it and falls
  back to raw values.

  A destination is the list of bytes written so far with the room left as an argument; a source is the
  list of the bytes from the read position on. The packed words go through a \<^verbatim>\<open>uint32_t *\<close> cast of the
  byte buffer; the model is that of a little-endian host. \<^verbatim>\<open>-1\<close> of the block routines is \<open>None\<close>.
\<close>

section \<open>Blocks in sequence\<close>

text \<open>
  Both entry points cut their input into blocks of \<^verbatim>\<open>PFOR_BLOCK\<close> values and put each behind the
  previous one. \<open>enc_blocks\<close> and \<open>dec_blocks\<close> are that loop, the block routine a parameter.
\<close>

definition PFOR_BLOCK :: nat where "PFOR_BLOCK = 128"

function enc_blocks :: "('s \<Rightarrow> 'a list \<Rightarrow> nat \<Rightarrow> (u8 list \<times> 's) option) \<Rightarrow> nat \<Rightarrow> 's \<Rightarrow> 'a list \<Rightarrow> u8 list \<Rightarrow> tsdb_err + u8 list" where
  "enc_blocks enc cap s xs out =
     (if xs = [] then Inr out
      else case enc s (take PFOR_BLOCK xs) (cap - length out) of
             None \<Rightarrow> Inl TSDB_ERR_OVERFLOW
           | Some (w, s') \<Rightarrow> enc_blocks enc cap s' (drop PFOR_BLOCK xs) (out @ w))"
  by pat_completeness auto
termination
  by (relation "measure (\<lambda>(enc, cap, s, xs, out). length xs)") (auto simp: PFOR_BLOCK_def)

function dec_blocks :: "('s \<Rightarrow> u8 list \<Rightarrow> nat \<Rightarrow> nat \<Rightarrow> ('a list \<times> u8 list \<times> 's) option) \<Rightarrow> 's \<Rightarrow> u8 list \<Rightarrow> nat \<Rightarrow> tsdb_err + 'a list" where
  "dec_blocks dec s ins n =
     (if n = 0 then Inr []
      else let count = (if n < PFOR_BLOCK then n else PFOR_BLOCK)
           in case dec s ins count n of
                None \<Rightarrow> Inl TSDB_ERR_CORRUPT
              | Some (vs, rest, s') \<Rightarrow> res_bind (dec_blocks dec s' rest (n - count)) (\<lambda>r. Inr (vs @ r)))"
  by pat_completeness auto
termination
  by (relation "measure (\<lambda>(dec, s, ins, n). n)") (auto simp: PFOR_BLOCK_def)

declare enc_blocks.simps [simp del] dec_blocks.simps [simp del]

text \<open>What the loops need of a block routine: a written block reads back with the bytes behind it left
  alone and the two sides' states in step, and \<open>room\<close> bytes are always enough.\<close>

locale block_codec =
  fixes enc :: "'s \<Rightarrow> 'a list \<Rightarrow> nat \<Rightarrow> (u8 list \<times> 's) option"
    and dec :: "'s \<Rightarrow> u8 list \<Rightarrow> nat \<Rightarrow> nat \<Rightarrow> ('a list \<times> u8 list \<times> 's) option"
    and room :: nat
  assumes block_inverse: "enc s xs cap = Some (w, s') \<Longrightarrow> xs \<noteq> [] \<Longrightarrow> length xs \<le> PFOR_BLOCK \<Longrightarrow> length xs \<le> oav \<Longrightarrow>
      dec s (w @ rest) (length xs) oav = Some (xs, rest, s')"
    and block_bound: "enc s xs cap = Some (w, s') \<Longrightarrow> xs \<noteq> [] \<Longrightarrow> length xs \<le> PFOR_BLOCK \<Longrightarrow> length w \<le> min cap room"
    and block_room: "xs \<noteq> [] \<Longrightarrow> length xs \<le> PFOR_BLOCK \<Longrightarrow> room \<le> cap \<Longrightarrow> enc s xs cap \<noteq> None"
begin

lemma blocks_inverse:
  "enc_blocks enc cap s xs out = Inr bytes \<Longrightarrow>
     \<exists>w. bytes = out @ w \<and> dec_blocks dec s (w @ rest) (length xs) = Inr xs
       \<and> (length out \<le> cap \<longrightarrow> length bytes \<le> cap)"
proof (induction "length xs" arbitrary: s xs out rule: less_induct)
  case less
  show ?case
  proof (cases "xs = []")
    case True
    then show ?thesis using less.prems by (simp add: enc_blocks.simps dec_blocks.simps)
  next
    case False
    let ?b = "take PFOR_BLOCK xs"
    from less.prems False obtain w s' where e: "enc s ?b (cap - length out) = Some (w, s')"
      and r: "enc_blocks enc cap s' (drop PFOR_BLOCK xs) (out @ w) = Inr bytes"
      by (subst (asm) enc_blocks.simps) (auto split: option.splits)
    have b: "?b \<noteq> []" "length ?b \<le> PFOR_BLOCK" "length ?b \<le> length xs"
      using False by (auto simp: PFOR_BLOCK_def)
    from False have "length (drop PFOR_BLOCK xs) < length xs" by (simp add: PFOR_BLOCK_def)
    from less.hyps [OF this r] obtain w' where w': "bytes = (out @ w) @ w'"
      "dec_blocks dec s' (w' @ rest) (length (drop PFOR_BLOCK xs)) = Inr (drop PFOR_BLOCK xs)"
      "length (out @ w) \<le> cap \<longrightarrow> length bytes \<le> cap" by blast
    have d: "dec s ((w @ w') @ rest) (length ?b) (length xs) = Some (?b, w' @ rest, s')"
      using block_inverse [OF e b, of "w' @ rest"] by simp
    have c: "(if length xs < PFOR_BLOCK then length xs else PFOR_BLOCK) = length ?b" by simp
    have "dec_blocks dec s ((w @ w') @ rest) (length xs) = Inr xs"
      using False d w'(2) by (subst dec_blocks.simps) (simp only: Let_def c, simp add: min_def split: if_splits)
    moreover have "length w \<le> cap - length out" using block_bound [OF e b(1,2)] by simp
    ultimately show ?thesis using w' by (intro exI [of _ "w @ w'"]) auto
  qed
qed

lemma blocks_total:
  "length out + room * ((length xs + PFOR_BLOCK - 1) div PFOR_BLOCK) \<le> cap \<Longrightarrow> \<exists>bytes. enc_blocks enc cap s xs out = Inr bytes"
proof (induction "length xs" arbitrary: s xs out rule: less_induct)
  case less
  show ?case
  proof (cases "xs = []")
    case True
    then show ?thesis by (simp add: enc_blocks.simps)
  next
    case False
    let ?b = "take PFOR_BLOCK xs"
    have b: "?b \<noteq> []" "length ?b \<le> PFOR_BLOCK" using False by (auto simp: PFOR_BLOCK_def)
    have q: "(length xs + PFOR_BLOCK - 1) div PFOR_BLOCK = Suc ((length (drop PFOR_BLOCK xs) + PFOR_BLOCK - 1) div PFOR_BLOCK)"
    proof (cases "length xs \<le> 128")
      case True
      then have "(127 + length xs) div 128 = 1" using False by (intro div_nat_eqI) (auto simp: Suc_le_eq)
      then show ?thesis using True by (simp add: PFOR_BLOCK_def)
    next
      case c: False
      then show ?thesis by (simp add: PFOR_BLOCK_def le_div_geq)
    qed
    then have "room \<le> cap - length out" using less.prems by (auto simp: q)
    then obtain w s' where e: "enc s ?b (cap - length out) = Some (w, s')"
      using block_room [OF b, of "cap - length out" s] by auto
    have "length w \<le> room" using block_bound [OF e b] by simp
    then have "length (out @ w) + room * ((length (drop PFOR_BLOCK xs) + PFOR_BLOCK - 1) div PFOR_BLOCK) \<le> cap"
      using less.prems unfolding q by simp
    moreover from False have "length (drop PFOR_BLOCK xs) < length xs" by (simp add: PFOR_BLOCK_def)
    ultimately obtain bytes where "enc_blocks enc cap s' (drop PFOR_BLOCK xs) (out @ w) = Inr bytes"
      using less.hyps by blast
    then show ?thesis using e False by (subst enc_blocks.simps) simp
  qed
qed

end

section \<open>Operations\<close>

subsection \<open>Little-endian helpers\<close>

definition put_u16_le :: "u16 \<Rightarrow> u8 list" where
  "put_u16_le v = [ucast v, ucast (drop_bit 8 v)]"

definition get_u16_le :: "u8 list \<Rightarrow> u16" where
  "get_u16_le p = ucast (p ! 0) OR push_bit 8 (ucast (p ! 1))"

definition put_u32_le :: "u32 \<Rightarrow> u8 list" where
  "put_u32_le v = [ucast v, ucast (drop_bit 8 v), ucast (drop_bit 16 v), ucast (drop_bit 24 v)]"

definition get_u32_le :: "u8 list \<Rightarrow> u32" where
  "get_u32_le p = ucast (p ! 0) OR push_bit 8 (ucast (p ! 1)) OR push_bit 16 (ucast (p ! 2)) OR push_bit 24 (ucast (p ! 3))"

definition put_u64_le :: "u64 \<Rightarrow> u8 list" where
  "put_u64_le v = le_bytes 8 v"

definition get_u64_le :: "u8 list \<Rightarrow> u64" where
  "get_u64_le p = le_acc 0 0 (take 8 p)"

subsection \<open>Width of a block\<close>

text \<open>\<^verbatim>\<open>__builtin_clz\<close>, for a non-zero argument: the zeros above the highest set bit.\<close>

definition builtin_clz :: "u32 \<Rightarrow> nat" where
  "builtin_clz v = length (takeWhile Not (rev (bits_of 32 v)))"

definition choose_b_hist :: "u32 list \<Rightarrow> nat list" where
  "choose_b_hist residuals =
     fold (\<lambda>v hist. let bits = (if v = 0 then 0 else 32 - builtin_clz v) in hist[bits := hist ! bits + 1])
       residuals (replicate 33 0)"

function choose_b_find :: "nat list \<Rightarrow> nat \<Rightarrow> nat \<Rightarrow> nat \<Rightarrow> nat" where
  "choose_b_find hist threshold cumulative b =
     (if b \<le> 32
      then let c = cumulative + hist ! b
           in if c \<ge> threshold then (if b = 0 then 1 else b) else choose_b_find hist threshold c (b + 1)
      else 32)"
  by pat_completeness auto
termination
  by (relation "measure (\<lambda>(hist, t, c, b). 33 - b)") auto

declare choose_b_find.simps [simp del]

definition choose_b :: "u32 list \<Rightarrow> nat" where
  "choose_b residuals =
     choose_b_find (choose_b_hist residuals) ((length residuals * 95 + 99) div 100) 0 0"

subsection \<open>One block\<close>

definition pfor_mask :: "nat \<Rightarrow> u32" where
  "pfor_mask b = (if b = 32 then 0xFFFFFFFF else push_bit b 1 - 1)"

text \<open>The loop that separates the exceptions, with their positions, from the packed residuals.\<close>

fun split_exceptions :: "u32 \<Rightarrow> nat \<Rightarrow> u32 list \<Rightarrow> (nat \<times> u32) list \<times> u32 list" where
  "split_exceptions msk i [] = ([], [])"
| "split_exceptions msk i (r # rs) =
     (case split_exceptions msk (i + 1) rs of (exc, packed) \<Rightarrow>
        if r > msk then ((i, r) # exc, 0 # packed) else (exc, r # packed))"

definition PFOR_HDR_BYTES :: nat where "PFOR_HDR_BYTES = 6"

definition PFOR_EXC_BYTES :: nat where "PFOR_EXC_BYTES = 5"

definition encode_block :: "u32 list \<Rightarrow> nat \<Rightarrow> bool \<Rightarrow> u8 list option" where
  "encode_block src out_cap raw_flag =
     (let count = length src in
      if raw_flag
      then if PFOR_HDR_BYTES + count * 4 > out_cap then None
           else Some (put_u16_le (31 OR push_bit 5 0 OR push_bit 13 1) @ put_u32_le 0 @ concat (map put_u32_le src))
      else let base = fold min (tl src) (hd src);
               residuals = map (\<lambda>v. v - base) src;
               b = choose_b residuals;
               (exc, packed) = split_exceptions (pfor_mask b) 0 residuals;
               packed_residuals = packed @ replicate (PFOR_BLOCK - count) 0;
               n_exc = length exc
           in if PFOR_HDR_BYTES + b * 16 + n_exc * PFOR_EXC_BYTES > out_cap then None
              else case tsdb_bp128_pack packed_residuals b of
                     Inl e \<Rightarrow> None
                   | Inr words \<Rightarrow>
                       Some (put_u16_le (of_nat (b - 1) OR push_bit 5 (of_nat n_exc) OR push_bit 13 0) @ put_u32_le base
                         @ concat (map (le_bytes 4) words)
                         @ concat (map (\<lambda>(pos, val). of_nat pos # put_u32_le val) exc)))"

text \<open>The exception loop of the decoder: the position must be inside the block.\<close>

fun apply_exceptions :: "nat \<Rightarrow> u8 list \<Rightarrow> u32 list \<Rightarrow> (u32 list \<times> u8 list) option" where
  "apply_exceptions 0 ins residuals = Some (residuals, ins)"
| "apply_exceptions (Suc e) ins residuals =
     (if length ins < PFOR_EXC_BYTES then None
      else let idx = unat (ins ! 0); val = get_u32_le (drop 1 ins)
           in if idx \<ge> PFOR_BLOCK then None
              else apply_exceptions e (drop PFOR_EXC_BYTES ins) (residuals[idx := val]))"

definition le_words :: "u8 list \<Rightarrow> nat \<Rightarrow> u32 list" where
  "le_words bytes n = map (\<lambda>j. le_acc 0 0 (take 4 (drop (4 * j) bytes))) [0..<n]"

definition decode_block :: "u8 list \<Rightarrow> nat \<Rightarrow> nat \<Rightarrow> (u32 list \<times> u8 list) option" where
  "decode_block ins count out_avail =
     (if length ins < PFOR_HDR_BYTES then None
      else if out_avail < count then None
      else let hdr = get_u16_le ins;
               base = get_u32_le (drop 2 ins);
               b = unat (hdr AND 0x1F) + 1;
               n_exc = unat (drop_bit 5 hdr AND 0xFF);
               raw_flag = (drop_bit 13 hdr AND 1 \<noteq> 0)
           in if raw_flag
              then if PFOR_HDR_BYTES + count * 4 > length ins then None
                   else Some (map (\<lambda>i. get_u32_le (drop (PFOR_HDR_BYTES + i * 4) ins)) [0..<count],
                              drop (PFOR_HDR_BYTES + count * 4) ins)
              else if PFOR_HDR_BYTES + b * 16 + n_exc * PFOR_EXC_BYTES > length ins then None
              else if n_exc > PFOR_BLOCK then None
              else case tsdb_bp128_unpack (le_words (drop PFOR_HDR_BYTES ins) (b * 4)) b of
                     Inl e \<Rightarrow> None
                   | Inr residuals \<Rightarrow>
                       (case apply_exceptions n_exc (drop (PFOR_HDR_BYTES + b * 16) ins) residuals of
                          None \<Rightarrow> None
                        | Some (residuals, rest) \<Rightarrow> Some (map (\<lambda>i. residuals ! i + base) [0..<count], rest)))"

subsection \<open>Streams of 32-bit values\<close>

definition PFOR_PROLOGUE_BYTES :: nat where "PFOR_PROLOGUE_BYTES = 4"

definition pfor_enc_block :: "unit \<Rightarrow> u32 list \<Rightarrow> nat \<Rightarrow> (u8 list \<times> unit) option" where
  "pfor_enc_block s xs cap = map_option (\<lambda>w. (w, ())) (encode_block xs cap False)"

definition pfor_dec_block :: "unit \<Rightarrow> u8 list \<Rightarrow> nat \<Rightarrow> nat \<Rightarrow> (u32 list \<times> u8 list \<times> unit) option" where
  "pfor_dec_block s ins count out_avail = map_option (\<lambda>(vs, rest). (vs, rest, ())) (decode_block ins count out_avail)"

definition tsdb_pfor_encode :: "u32 list \<Rightarrow> nat \<Rightarrow> tsdb_err + u8 list" where
  "tsdb_pfor_encode xs cap =
     (if xs = [] then Inr []
      else if length xs > 0xFFFFFFFF then Inl TSDB_ERR_INVAL
      else if cap < PFOR_PROLOGUE_BYTES then Inl TSDB_ERR_OVERFLOW
      else enc_blocks pfor_enc_block cap () xs (put_u32_le (of_nat (length xs))))"

definition tsdb_pfor_decode :: "u8 list \<Rightarrow> nat \<Rightarrow> tsdb_err + u32 list" where
  "tsdb_pfor_decode ins n =
     (if n = 0 then Inr []
      else if length ins < PFOR_PROLOGUE_BYTES then Inl TSDB_ERR_CORRUPT
      else if unat (get_u32_le ins) \<noteq> n then Inl TSDB_ERR_CORRUPT
      else dec_blocks pfor_dec_block () (drop PFOR_PROLOGUE_BYTES ins) n)"

subsection \<open>Streams of 64-bit values\<close>

definition I64_BLOCK_TYPE_PFOR :: u8 where "I64_BLOCK_TYPE_PFOR = 0"

definition I64_BLOCK_TYPE_RAW :: u8 where "I64_BLOCK_TYPE_RAW = 1"

fun zz_deltas :: "i64 \<Rightarrow> i64 list \<Rightarrow> u64 list" where
  "zz_deltas prev [] = []"
| "zz_deltas prev (x # xs) = tsdb_zigzag_enc (x - prev) # zz_deltas x xs"

fun zz_undeltas :: "i64 \<Rightarrow> u32 list \<Rightarrow> i64 list" where
  "zz_undeltas prev [] = []"
| "zz_undeltas prev (u # us) =
     (let val = prev + tsdb_zigzag_dec (ucast u) in val # zz_undeltas val us)"

definition i64_enc_block :: "i64 \<Rightarrow> i64 list \<Rightarrow> nat \<Rightarrow> (u8 list \<times> i64) option" where
  "i64_enc_block prev xs avail =
     (let zz = zz_deltas prev xs;
          fits_u32 = list_all (\<lambda>z. \<not> z > 0xFFFFFFFF) zz;
          u32_block = map (\<lambda>z. ucast (z AND 0xFFFFFFFF)) zz;
          prev' = last (prev # xs)
      in if avail = 0 then None
         else if fits_u32
         then map_option (\<lambda>w. (I64_BLOCK_TYPE_PFOR # w, prev')) (encode_block u32_block (avail - 1) False)
         else if 1 + length xs * 8 > avail then None
         else Some (I64_BLOCK_TYPE_RAW # concat (map put_u64_le xs), prev'))"

definition i64_dec_block :: "i64 \<Rightarrow> u8 list \<Rightarrow> nat \<Rightarrow> nat \<Rightarrow> (i64 list \<times> u8 list \<times> i64) option" where
  "i64_dec_block prev ins count out_avail =
     (case ins of
        [] \<Rightarrow> None
      | block_type # ins \<Rightarrow>
          if block_type = I64_BLOCK_TYPE_PFOR
          then case decode_block ins count PFOR_BLOCK of
                 None \<Rightarrow> None
               | Some (u32_out, rest) \<Rightarrow>
                   let vals = zz_undeltas prev u32_out in Some (vals, rest, last (prev # vals))
          else if block_type = I64_BLOCK_TYPE_RAW
          then if count * 8 > length ins then None
               else let vals = map (\<lambda>k. get_u64_le (drop (k * 8) ins)) [0..<count]
                    in Some (vals, drop (count * 8) ins, last (prev # vals))
          else None)"

definition tsdb_pfor_encode_i64 :: "i64 list \<Rightarrow> nat \<Rightarrow> tsdb_err + u8 list" where
  "tsdb_pfor_encode_i64 xs cap =
     (if xs = [] then Inr []
      else if length xs > 0xFFFFFFFF then Inl TSDB_ERR_INVAL
      else if cap < PFOR_PROLOGUE_BYTES then Inl TSDB_ERR_OVERFLOW
      else enc_blocks i64_enc_block cap 0 xs (put_u32_le (of_nat (length xs))))"

definition tsdb_pfor_decode_i64 :: "u8 list \<Rightarrow> nat \<Rightarrow> tsdb_err + i64 list" where
  "tsdb_pfor_decode_i64 ins n =
     (if n = 0 then Inr []
      else if length ins < PFOR_PROLOGUE_BYTES then Inl TSDB_ERR_CORRUPT
      else if unat (get_u32_le ins) \<noteq> n then Inl TSDB_ERR_CORRUPT
      else dec_blocks i64_dec_block 0 (drop PFOR_PROLOGUE_BYTES ins) n)"

section \<open>The width of a block\<close>

definition u32_width :: "u32 \<Rightarrow> nat" where
  "u32_width v = (if v = 0 then 0 else 32 - builtin_clz v)"

lemma builtin_clz_le: "builtin_clz v \<le> 32"
  unfolding builtin_clz_def by (metis length_bits_of length_rev length_takeWhile_le)

lemma u32_width_fits: "u32_width v \<le> b \<longleftrightarrow> unat v < 2 ^ b"
proof (cases "v = 0")
  case False
  let ?r = "rev (bits_of 32 v)"
  have nth: "?r ! j = bit v (31 - j)" if "j < 32" for j
    using that by (simp add: rev_nth)
  have hi: "\<not> bit v i" if "i \<ge> 32 - builtin_clz v" "i < 32" for i
  proof -
    have j: "31 - i < length (takeWhile Not ?r)" using that builtin_clz_le [of v] by (auto simp: builtin_clz_def)
    then have "Not (takeWhile Not ?r ! (31 - i))" using nth_mem [OF j] set_takeWhileD [of _ Not ?r] by blast
    then show ?thesis using j nth [of "31 - i"] that by (simp add: takeWhile_nth)
  qed
  have lt: "builtin_clz v < 32"
  proof (rule ccontr)
    assume "\<not> builtin_clz v < 32"
    then have "\<not> bit v i" if "i < 32" for i using hi that by simp
    then have "v = 0" by (intro bit_word_eqI) auto
    with False show False by simp
  qed
  then have "\<not> Not (?r ! builtin_clz v)" unfolding builtin_clz_def by (intro nth_length_takeWhile) simp
  then have top: "bit v (31 - builtin_clz v)" using nth [OF lt] by simp
  have "unat v < 2 ^ b \<longleftrightarrow> take_bit b v = v" by (simp add: fits_unat)
  also have "\<dots> \<longleftrightarrow> 32 - builtin_clz v \<le> b"
  proof
    assume "take_bit b v = v"
    then show "32 - builtin_clz v \<le> b" using top fits_bit [of b v "31 - builtin_clz v"] lt by linarith
  next
    assume "32 - builtin_clz v \<le> b"
    then show "take_bit b v = v" by (intro fitsI hi) auto
  qed
  finally show ?thesis using False by (simp add: u32_width_def)
qed (simp add: u32_width_def)

lemma u32_width_le: "u32_width v \<le> 32"
  by (simp add: u32_width_def)

lemma choose_b_hist_nth:
  assumes "k \<le> 32"
  shows "choose_b_hist rs ! k = length (filter (\<lambda>v. u32_width v = k) rs)"
proof -
  let ?step = "\<lambda>v hist :: nat list. let bits = (if v = 0 then 0 else 32 - builtin_clz v) in hist[bits := hist ! bits + 1]"
  have "length h = 33 \<Longrightarrow> fold ?step rs h ! k = h ! k + length (filter (\<lambda>v. u32_width v = k) rs)" for h
  proof (induction rs arbitrary: h)
    case (Cons v rs)
    have "?step v h = h[u32_width v := h ! u32_width v + 1]" by (simp add: u32_width_def Let_def)
    moreover have "u32_width v < 33" using u32_width_le [of v] by simp
    ultimately show ?case using Cons assms by (auto simp: nth_list_update)
  qed simp
  then show ?thesis using assms by (simp add: choose_b_hist_def)
qed

definition fitting :: "nat \<Rightarrow> u32 list \<Rightarrow> nat" where
  "fitting b rs = length (filter (\<lambda>v. unat v < 2 ^ b) rs)"

lemma length_filter_split:
  "(\<And>x. P x \<longleftrightarrow> Q x \<or> R x) \<Longrightarrow> (\<And>x. \<not> (Q x \<and> R x)) \<Longrightarrow> length (filter P xs) = length (filter Q xs) + length (filter R xs)"
  by (induction xs) auto

lemma fitting_Suc: "fitting (Suc b) rs = fitting b rs + length (filter (\<lambda>v. u32_width v = Suc b) rs)"
  unfolding fitting_def by (rule length_filter_split) (auto simp del: power_Suc simp flip: u32_width_fits)

lemma fitting_0: "fitting 0 rs = length (filter (\<lambda>v. u32_width v = 0) rs)"
  unfolding fitting_def by (rule arg_cong [of _ _ length]) (auto intro!: filter_cong simp flip: u32_width_fits simp del: power_0)

lemma fitting_32: "fitting 32 rs = length rs"
proof -
  have "unat v < 2 ^ 32" for v :: u32 using unsigned_less [of v] by simp
  then show ?thesis by (simp add: fitting_def)
qed

text \<open>The search returns the least width that reaches the threshold, and at least 1.\<close>

lemma choose_b_find_least:
  assumes "hist = choose_b_hist rs" and "t \<le> length rs"
    and "b \<le> 32" and "c = (if b = 0 then 0 else fitting (b - 1) rs)" and "\<forall>k < b. fitting k rs < t"
  shows "\<exists>r \<le> 32. choose_b_find hist t c b = max 1 r \<and> t \<le> fitting r rs \<and> (\<forall>k < r. fitting k rs < t)"
  using assms
proof (induction hist t c b rule: choose_b_find.induct)
  case (1 hist t c b)
  have c: "c + hist ! b = fitting b rs"
    using "1.prems" by (cases b) (simp_all add: choose_b_hist_nth fitting_0 fitting_Suc)
  show ?case
  proof (cases "t \<le> fitting b rs")
    case True
    then show ?thesis using "1.prems" c by (subst choose_b_find.simps) (auto simp: Let_def intro!: exI [of _ b])
  next
    case False
    then have b: "b < 32" using "1.prems" fitting_32 [of rs] by (metis le_neq_implies_less)
    have "\<exists>r \<le> 32. choose_b_find hist t (c + hist ! b) (b + 1) = max 1 r \<and> t \<le> fitting r rs \<and> (\<forall>k < r. fitting k rs < t)"
      using "1.prems" b False c by (intro "1.IH") (auto simp: less_Suc_eq)
    then show ?thesis using False c b by (subst choose_b_find.simps) (simp add: Let_def)
  qed
qed

lemma choose_b_spec:
  "\<exists>r \<le> 32. choose_b rs = max 1 r \<and> (length rs * 95 + 99) div 100 \<le> fitting r rs
     \<and> (\<forall>k < r. fitting k rs < (length rs * 95 + 99) div 100)"
proof -
  have "(length rs * 95 + 99) div 100 < Suc (length rs)" by (rule less_mult_imp_div_less) simp
  then show ?thesis unfolding choose_b_def by (intro choose_b_find_least) simp_all
qed

lemma choose_b_range: "1 \<le> choose_b rs" "choose_b rs \<le> 32"
  using choose_b_spec [of rs] by auto

lemma fitting_mono: "a \<le> b \<Longrightarrow> fitting a rs \<le> fitting b rs"
  by (rule lift_Suc_mono_le [of "\<lambda>b. fitting b rs"]) (auto simp: fitting_Suc)

lemma choose_b_fitting: "(length rs * 95 + 99) div 100 \<le> fitting (choose_b rs) rs"
proof -
  obtain r where r: "choose_b rs = max 1 r" "(length rs * 95 + 99) div 100 \<le> fitting r rs"
    using choose_b_spec [of rs] by (elim exE conjE) (rule that)
  have "fitting r rs \<le> fitting (choose_b rs) rs" unfolding r(1) by (rule fitting_mono) simp
  with r(2) show ?thesis by (rule order_trans)
qed

section \<open>Exceptions\<close>

lemma pfor_mask_less: "b \<le> 32 \<Longrightarrow> v > pfor_mask b \<longleftrightarrow> \<not> unat v < 2 ^ b"
proof -
  assume b: "b \<le> 32"
  have "unat (pfor_mask b) = 2 ^ b - 1"
  proof (cases "b = 32")
    case False
    then have "b < 32" using b by simp
    then have "unat (take_bit b (- 1) :: u32) = mask b"
      unfolding unsigned_take_bit_eq unsigned_minus_1_eq_mask take_bit_of_mask by simp
    then have "unat (mask b :: u32) = 2 ^ b - 1"
      unfolding take_bit_minus_one_eq_mask by (simp only: mask_nat_def)
    moreover have "pfor_mask b = mask b" using False by (simp add: pfor_mask_def mask_eq_exp_minus_1)
    ultimately show ?thesis by simp
  qed (simp add: pfor_mask_def)
  moreover have "(0::nat) < 2 ^ b" by simp
  ultimately show ?thesis unfolding word_less_nat_alt by linarith
qed

lemma split_exceptions_length:
  "split_exceptions msk i rs = (exc, packed) \<Longrightarrow> length packed = length rs \<and> length exc = length (filter (\<lambda>r. r > msk) rs)"
  by (induction rs arbitrary: i exc packed) (auto split: prod.splits if_splits)

lemma split_exceptions_packed:
  "split_exceptions msk i rs = (exc, packed) \<Longrightarrow> list_all (\<lambda>r. \<not> r > msk) packed"
  by (induction rs arbitrary: i exc packed) (auto split: prod.splits if_splits)

lemma exceptions_few:
  assumes "split_exceptions (pfor_mask (choose_b rs)) i rs = (exc, packed)"
  shows "length exc + (length rs * 95 + 99) div 100 \<le> length rs"
proof -
  have "length exc = length (filter (\<lambda>v. \<not> unat v < 2 ^ choose_b rs) rs)"
    using split_exceptions_length [OF assms] by (simp add: pfor_mask_less choose_b_range)
  then have "length exc + fitting (choose_b rs) rs = length rs"
    using sum_length_filter_compl [of "\<lambda>v. unat v < 2 ^ choose_b rs" rs] by (simp add: fitting_def)
  then show ?thesis using choose_b_fitting [of rs] by linarith
qed

lemma exceptions_six:
  assumes "split_exceptions (pfor_mask (choose_b rs)) i rs = (exc, packed)" and "length rs \<le> 128"
  shows "length exc \<le> 6"
  using exceptions_few [OF assms(1)] assms(2) by linarith

section \<open>Bytes and words\<close>

lemma put_u32_le_bytes: "put_u32_le v = le_bytes 4 v"
  by (simp add: put_u32_le_def le_bytes_def upt_rec)

lemma put_u16_le_bytes: "put_u16_le v = le_bytes 2 v"
  by (simp add: put_u16_le_def le_bytes_def upt_rec)

lemma take_nths: "4 \<le> length p \<Longrightarrow> take 4 p = [p ! 0, p ! 1, p ! 2, p ! 3]"
  by (rule nth_equalityI) (auto simp: less_Suc_eq numeral_eq_Suc)

lemma get_u32_le_acc: "4 \<le> length p \<Longrightarrow> get_u32_le p = le_acc 0 0 (take 4 p)"
  by (simp add: take_nths get_u32_le_def or.assoc)

lemma get_put_u32 [simp]: "get_u32_le (put_u32_le v @ rest) = v"
  by (simp add: get_u32_le_acc put_u32_le_bytes)

lemma get_put_u16 [simp]: "get_u16_le (put_u16_le v @ rest) = v"
proof -
  have "get_u16_le (put_u16_le v @ rest) = le_acc 0 0 (le_bytes 2 v)"
    by (simp add: get_u16_le_def le_bytes_def upt_rec put_u16_le_def)
  then show ?thesis by simp
qed

lemma get_put_u64 [simp]: "get_u64_le (put_u64_le v @ rest) = v"
  by (simp add: get_u64_le_def put_u64_le_def)

lemma length_put [simp]: "length (put_u16_le a) = 2" "length (put_u32_le b) = 4" "length (put_u64_le c) = 8"
  by (simp_all add: put_u16_le_def put_u32_le_def put_u64_le_def)

lemma length_concat_put: "(\<And>x. x \<in> set xs \<Longrightarrow> length (f x) = k) \<Longrightarrow> length (concat (map f xs)) = length xs * k"
  by (induction xs) auto

text \<open>Reading fixed-size entries that were written one behind the other.\<close>

lemma read_entries:
  assumes "\<And>x rest. x \<in> set xs \<Longrightarrow> g (f x @ rest) = x" and "\<And>x. x \<in> set xs \<Longrightarrow> length (f x) = k"
  shows "map (\<lambda>j. g (drop (j * k) (concat (map f xs) @ rest))) [0..<length xs] = xs"
  using assms
proof (induction xs)
  case (Cons x xs)
  have "map (\<lambda>j. g (drop (j * k) (concat (map f (x # xs)) @ rest))) [0..<length (x # xs)]
      = g (concat (map f (x # xs)) @ rest) # map (\<lambda>j. g (drop (j * k) (concat (map f xs) @ rest))) [0..<length xs]"
    using Cons.prems by (simp add: upt_conv_Cons map_Suc_upt [symmetric] comp_def del: upt_Suc)
  then show ?case using Cons by simp
qed simp

lemma le_words_bytes: "length ws = n \<Longrightarrow> le_words (concat (map (le_bytes 4) ws) @ rest) n = ws"
  using read_entries [of ws "\<lambda>p. le_acc 0 0 (take 4 p)" "le_bytes 4" 4 rest] by (simp add: le_words_def mult.commute)

lemma apply_split:
  assumes "split_exceptions msk (length pre) rs = (exc, packed)" and "length pre + length rs \<le> PFOR_BLOCK"
  shows "apply_exceptions (length exc) (concat (map (\<lambda>(pos, val). of_nat pos # put_u32_le val) exc) @ rest) (pre @ packed @ post)
    = Some (pre @ rs @ post, rest)"
  using assms
proof (induction rs arbitrary: pre exc packed)
  case (Cons r rs)
  obtain exc' packed' where s: "split_exceptions msk (length pre + 1) rs = (exc', packed')" by (metis surj_pair)
  have IH: "apply_exceptions (length exc') (concat (map (\<lambda>(pos, val). of_nat pos # put_u32_le val) exc') @ rest) (pre @ r # packed' @ post)
    = Some (pre @ r # rs @ post, rest)"
    using Cons.IH [of "pre @ [r]" exc' packed'] s Cons.prems by simp
  have idx: "unat (of_nat (length pre) :: u8) = length pre"
    using Cons.prems by (simp add: unat_of_nat PFOR_BLOCK_def)
  show ?case
    using Cons.prems s IH idx by (auto simp: PFOR_EXC_BYTES_def split: if_splits)
qed simp

section \<open>One block\<close>

lemma hdr_fields:
  assumes "b < 32" and "n < 256"
  defines "hdr \<equiv> of_nat b OR push_bit 5 (of_nat n) OR push_bit 13 0 :: u16"
  shows "unat (hdr AND 0x1F) = b" "unat (drop_bit 5 hdr AND 0xFF) = n" "drop_bit 13 hdr AND 1 = 0"
proof -
  have b: "take_bit 5 (of_nat b :: u16) = of_nat b" and n: "take_bit 8 (of_nat n :: u16) = of_nat n"
    using assms by (auto simp: fits_unat unat_of_nat)
  have h: "hdr = of_nat b OR push_bit 5 (of_nat n)" by (simp add: hdr_def)
  have "hdr AND 0x1F = take_bit 5 hdr" using and_mask_take_bit [of hdr 5] by (simp add: mask_eq_exp_minus_1)
  also have "\<dots> = of_nat b" unfolding h take_bit_or take_bit_push_bit using b by simp
  finally show "unat (hdr AND 0x1F) = b" using assms by (simp add: unat_of_nat)
  have d: "drop_bit 5 hdr = of_nat n"
    unfolding h using fits_mono [OF n, of 11] by (intro drop_bit_or_push b) simp_all
  have "drop_bit 5 hdr AND 0xFF = take_bit 8 (drop_bit 5 hdr)"
    using and_mask_take_bit [of "drop_bit 5 hdr" 8] by (simp add: mask_eq_exp_minus_1)
  then show "unat (drop_bit 5 hdr AND 0xFF) = n" using assms n unfolding d by (simp add: unat_of_nat)
  have "drop_bit 8 (drop_bit 5 hdr) = 0" unfolding d using n by (rule fits_drop_bit)
  then show "drop_bit 13 hdr AND 1 = 0" by simp
qed

text \<open>A block written without the raw flag, taken apart.\<close>

lemma encode_block_normal:
  assumes "encode_block src cap False = Some w" and "src \<noteq> []" and "length src \<le> PFOR_BLOCK"
  obtains base b exc packed words where "1 \<le> b" "b \<le> 32" "length exc \<le> 6"
    "split_exceptions (pfor_mask b) 0 (map (\<lambda>v. v - base) src) = (exc, packed)"
    "tsdb_bp128_pack (packed @ replicate (PFOR_BLOCK - length src) 0) b = Inr words"
    "w = put_u16_le (of_nat (b - 1) OR push_bit 5 (of_nat (length exc)) OR push_bit 13 0) @ put_u32_le base
       @ concat (map (le_bytes 4) words) @ concat (map (\<lambda>(pos, val). of_nat pos # put_u32_le val) exc)"
    "PFOR_HDR_BYTES + b * 16 + length exc * PFOR_EXC_BYTES \<le> cap"
proof -
  let ?base = "fold min (tl src) (hd src)"
  let ?rs = "map (\<lambda>v. v - ?base) src"
  let ?b = "choose_b ?rs"
  obtain exc packed where s: "split_exceptions (pfor_mask ?b) 0 ?rs = (exc, packed)" by (metis surj_pair)
  have e: "length exc \<le> 6" using exceptions_six [OF s] assms(3) by (simp add: PFOR_BLOCK_def)
  show thesis
    using assms(1) s e choose_b_range [of ?rs] that [of ?b exc ?base packed]
    by (simp add: encode_block_def Let_def split: if_splits sum.splits)
qed

lemma packed_words:
  assumes "tsdb_bp128_pack xs b = Inr words" and "length xs = 128" and "list_all (\<lambda>v. unat v < 2 ^ b) xs"
  shows "length words = b * 4" "tsdb_bp128_unpack words b = Inr xs"
proof -
  have b: "b \<noteq> 0" "b \<le> 32" using assms(1) by (auto simp: tsdb_bp128_pack_def split: if_splits)
  have w: "length (pack4_scalar xs b) = b * 4" using pack4_scalar_lanes [OF b(2)] by simp
  then have "words = pack4_scalar xs b" using assms(1) b by (simp add: tsdb_bp128_pack_def)
  moreover have "map (take_bit b) xs = xs" using assms(3) by (simp add: list_all_iff map_idI flip: fits_unat)
  ultimately show "length words = b * 4" "tsdb_bp128_unpack words b = Inr xs"
    using w b unpack4_pack4_low [OF b(2) assms(2)] by (simp_all add: tsdb_bp128_unpack_def)
qed

lemma decode_encode_block:
  assumes "encode_block src cap False = Some w" and "src \<noteq> []" and "length src \<le> PFOR_BLOCK" and "length src \<le> oav"
  shows "decode_block (w @ rest) (length src) oav = Some (src, rest)"
    and "length w \<le> cap" and "length w \<le> 548"
proof -
  obtain base b exc packed words where b: "1 \<le> b" "b \<le> 32" "length exc \<le> 6"
    and s: "split_exceptions (pfor_mask b) 0 (map (\<lambda>v. v - base) src) = (exc, packed)"
    and p: "tsdb_bp128_pack (packed @ replicate (PFOR_BLOCK - length src) 0) b = Inr words"
    and w: "w = put_u16_le (of_nat (b - 1) OR push_bit 5 (of_nat (length exc)) OR push_bit 13 0) @ put_u32_le base
       @ concat (map (le_bytes 4) words) @ concat (map (\<lambda>(pos, val). of_nat pos # put_u32_le val) exc)"
    and cap: "PFOR_HDR_BYTES + b * 16 + length exc * PFOR_EXC_BYTES \<le> cap"
    using assms(1-3) by (rule encode_block_normal)
  let ?hdr = "of_nat (b - 1) OR push_bit 5 (of_nat (length exc)) OR push_bit 13 0 :: u16"
  let ?xs = "packed @ replicate (PFOR_BLOCK - length src) 0"
  have len: "length packed = length src" using split_exceptions_length [OF s] by simp
  have l128: "length ?xs = 128" using len assms(3) by (simp add: PFOR_BLOCK_def)
  have "list_all (\<lambda>v. unat v < 2 ^ b) ?xs"
    using split_exceptions_packed [OF s] b by (auto simp: list_all_iff pfor_mask_less)
  note words = packed_words [OF p l128 this]
  have lw: "length (concat (map (le_bytes 4) words)) = b * 16"
    using words by (simp add: length_concat_put [where k = 4])
  have le: "length (concat (map (\<lambda>(pos, val). of_nat pos # put_u32_le val :: u8 list) exc)) = length exc * 5"
    by (rule length_concat_put) auto
  have tot: "length w = PFOR_HDR_BYTES + b * 16 + length exc * PFOR_EXC_BYTES"
    using lw le by (simp add: w PFOR_HDR_BYTES_def PFOR_EXC_BYTES_def)
  from tot cap show "length w \<le> cap" by simp
  from tot b show "length w \<le> 548" by (simp add: PFOR_HDR_BYTES_def PFOR_EXC_BYTES_def)
  have hdr: "unat (?hdr AND 0x1F) = b - 1" "unat (drop_bit 5 ?hdr AND 0xFF) = length exc" "drop_bit 13 ?hdr AND 1 = 0"
    using b by (intro hdr_fields; simp)+
  have g: "get_u16_le (w @ rest) = ?hdr" "get_u32_le (drop 2 (w @ rest)) = base" by (simp_all add: w)
  have d: "drop PFOR_HDR_BYTES (w @ rest) = concat (map (le_bytes 4) words)
      @ concat (map (\<lambda>(pos, val). of_nat pos # put_u32_le val) exc) @ rest"
    by (simp add: w PFOR_HDR_BYTES_def)
  have "drop (PFOR_HDR_BYTES + b * 16) (w @ rest) = drop (b * 16) (drop PFOR_HDR_BYTES (w @ rest))"
    by (simp only: drop_drop add.commute)
  then have d2: "drop (PFOR_HDR_BYTES + b * 16) (w @ rest) = concat (map (\<lambda>(pos, val). of_nat pos # put_u32_le val) exc) @ rest"
    unfolding d using lw by simp
  have u: "le_words (drop PFOR_HDR_BYTES (w @ rest)) (b * 4) = words" unfolding d using words(1) by (rule le_words_bytes)
  have a: "apply_exceptions (length exc) (concat (map (\<lambda>(pos, val). of_nat pos # put_u32_le val) exc) @ rest) ?xs
      = Some (map (\<lambda>v. v - base) src @ replicate (PFOR_BLOCK - length src) 0, rest)"
    using apply_split [of _ "[]"] s assms(3) by simp
  have m: "map (\<lambda>i. (map (\<lambda>v. v - base) src @ replicate (PFOR_BLOCK - length src) 0) ! i + base) [0..<length src] = src"
    by (rule nth_equalityI) (auto simp: nth_append)
  have bb: "b - 1 + 1 = b" using b by simp
  have c: "\<not> length (w @ rest) < PFOR_HDR_BYTES" "\<not> length (w @ rest) < PFOR_HDR_BYTES + b * 16 + length exc * PFOR_EXC_BYTES"
    "\<not> PFOR_BLOCK < length exc"
    using tot b by (simp_all add: PFOR_BLOCK_def)
  show "decode_block (w @ rest) (length src) oav = Some (src, rest)"
    unfolding decode_block_def Let_def g hdr bb u words(2) d2
    using c assms(4) a m by simp
qed

lemma encode_block_room:
  assumes "src \<noteq> []" and "length src \<le> PFOR_BLOCK" and "548 \<le> cap"
  shows "encode_block src cap False \<noteq> None"
proof -
  let ?rs = "map (\<lambda>v. v - fold min (tl src) (hd src)) src"
  obtain exc packed where s: "split_exceptions (pfor_mask (choose_b ?rs)) 0 ?rs = (exc, packed)" by (metis surj_pair)
  have "length exc \<le> 6" using exceptions_six [OF s] assms(2) by (simp add: PFOR_BLOCK_def)
  then show ?thesis
    using s choose_b_range [of ?rs] assms(3)
    by (auto simp: encode_block_def Let_def PFOR_HDR_BYTES_def PFOR_EXC_BYTES_def tsdb_bp128_pack_def)
qed

section \<open>Streams\<close>

interpretation u32_blocks: block_codec pfor_enc_block pfor_dec_block 548
proof unfold_locales
  fix s xs cap w s' oav and rest :: "u8 list"
  assume "pfor_enc_block s xs cap = Some (w, s')" "xs \<noteq> []" "length xs \<le> PFOR_BLOCK" "length xs \<le> oav"
  then show "pfor_dec_block s (w @ rest) (length xs) oav = Some (xs, rest, s')"
    by (auto simp: pfor_enc_block_def pfor_dec_block_def decode_encode_block)
next
  fix s xs cap w s'
  assume "pfor_enc_block s xs cap = Some (w, s')" "xs \<noteq> []" "length xs \<le> PFOR_BLOCK"
  then show "length w \<le> min cap 548"
    using decode_encode_block(2,3) [OF _ _ _ order_refl] by (auto simp: pfor_enc_block_def)
next
  fix s and xs :: "u32 list" and cap :: nat
  assume "xs \<noteq> []" "length xs \<le> PFOR_BLOCK" "548 \<le> cap"
  then show "pfor_enc_block s xs cap \<noteq> None"
    using encode_block_room by (auto simp: pfor_enc_block_def)
qed

lemma length_zz_deltas [simp]: "length (zz_deltas prev xs) = length xs"
  by (induction xs arbitrary: prev) auto

lemma zz_undeltas_deltas:
  "list_all (\<lambda>z. \<not> z > 0xFFFFFFFF) (zz_deltas prev xs) \<Longrightarrow>
     zz_undeltas prev (map (\<lambda>z. ucast (z AND 0xFFFFFFFF)) (zz_deltas prev xs)) = xs"
proof (induction xs arbitrary: prev)
  case (Cons x xs)
  let ?z = "tsdb_zigzag_enc (x - prev)"
  have "unat ?z < 2 ^ 32" using Cons.prems by (simp add: word_le_nat_alt not_less)
  then have f: "take_bit 32 ?z = ?z" by (simp only: fits_unat)
  have "?z AND 0xFFFFFFFF = take_bit 32 ?z" using and_mask_take_bit [of ?z 32] by (simp add: mask_eq_exp_minus_1)
  moreover have "ucast (ucast ?z :: u32) = take_bit 32 ?z" by (rule bit_word_eqI) (auto simp: bit_simps)
  ultimately have "(ucast (ucast (?z AND 0xFFFFFFFF) :: u32) :: u64) = ?z" using f by simp
  then show ?case using Cons by (simp add: Let_def)
qed simp

lemma i64_block_inverse:
  assumes "i64_enc_block prev xs cap = Some (w, s')" "xs \<noteq> []" "length xs \<le> PFOR_BLOCK"
  shows "i64_dec_block prev (w @ rest) (length xs) oav = Some (xs, rest, s')" and "length w \<le> min cap 1025"
proof -
  let ?zz = "zz_deltas prev xs"
  let ?us = "map (\<lambda>z. ucast (z AND 0xFFFFFFFF)) ?zz :: u32 list"
  have "i64_dec_block prev (w @ rest) (length xs) oav = Some (xs, rest, s') \<and> length w \<le> min cap 1025"
  proof (cases "list_all (\<lambda>z. \<not> z > 0xFFFFFFFF) ?zz")
    case True
    then obtain v where v: "encode_block ?us (cap - 1) False = Some v" "w = I64_BLOCK_TYPE_PFOR # v" "s' = last (prev # xs)" "cap \<noteq> 0"
      using assms(1) by (auto simp: i64_enc_block_def Let_def split: if_splits)
    have us: "?us \<noteq> []" "length ?us \<le> PFOR_BLOCK" using assms(2,3) by (auto simp flip: length_greater_0_conv)
    note d = decode_encode_block [OF v(1) us us(2)]
    show ?thesis using d(1) [of rest] d(2,3) v zz_undeltas_deltas [OF True]
      by (simp add: i64_dec_block_def Let_def)
  next
    case False
    then have w: "w = I64_BLOCK_TYPE_RAW # concat (map put_u64_le xs)" "s' = last (prev # xs)" "1 + length xs * 8 \<le> cap"
      using assms(1) by (auto simp: i64_enc_block_def Let_def split: if_splits)
    have l: "length (concat (map put_u64_le xs)) = length xs * 8" by (rule length_concat_put) simp
    have "map (\<lambda>k. get_u64_le (drop (k * 8) (concat (map put_u64_le xs) @ rest))) [0..<length xs] = xs"
      by (rule read_entries) simp_all
    then show ?thesis using w l assms(3)
      by (simp add: i64_dec_block_def I64_BLOCK_TYPE_RAW_def I64_BLOCK_TYPE_PFOR_def PFOR_BLOCK_def Let_def)
  qed
  then show "i64_dec_block prev (w @ rest) (length xs) oav = Some (xs, rest, s')" "length w \<le> min cap 1025" by auto
qed

interpretation i64_blocks: block_codec i64_enc_block i64_dec_block 1025
proof unfold_locales
  fix s xs cap w s' oav and rest :: "u8 list"
  assume "i64_enc_block s xs cap = Some (w, s')" "xs \<noteq> []" "length xs \<le> PFOR_BLOCK"
  then show "i64_dec_block s (w @ rest) (length xs) oav = Some (xs, rest, s')" "length w \<le> min cap 1025"
    by (rule i64_block_inverse)+
next
  fix s and xs :: "i64 list" and cap :: nat
  assume a: "xs \<noteq> []" "length xs \<le> PFOR_BLOCK" "1025 \<le> cap"
  let ?us = "map (\<lambda>z. ucast (z AND 0xFFFFFFFF)) (zz_deltas s xs) :: u32 list"
  have "encode_block ?us (cap - 1) False \<noteq> None"
    using a by (intro encode_block_room) (auto simp flip: length_greater_0_conv)
  then show "i64_enc_block s xs cap \<noteq> None"
    using a by (auto simp: i64_enc_block_def Let_def PFOR_BLOCK_def)
qed

lemma decode_block_length: "decode_block ins count oav = Some (vs, rest) \<Longrightarrow> length vs = count"
  by (auto simp: decode_block_def Let_def split: if_splits sum.splits option.splits)

lemma length_zz_undeltas [simp]: "length (zz_undeltas prev us) = length us"
  by (induction us arbitrary: prev) (auto simp: Let_def)

lemma i64_dec_block_length: "i64_dec_block s ins count oav = Some (vs, rest, s') \<Longrightarrow> length vs = count"
  by (auto simp: i64_dec_block_def Let_def dest: decode_block_length split: list.splits if_splits option.splits)

lemma dec_blocks_total:
  assumes "\<And>s ins count oav vs rest s'. dec s ins count oav = Some (vs, rest, s') \<Longrightarrow> length vs = count"
  shows "dec_blocks dec s ins n = Inl TSDB_ERR_CORRUPT \<or> (\<exists>vs. dec_blocks dec s ins n = Inr vs \<and> length vs = n)"
proof (induction n arbitrary: s ins rule: less_induct)
  case (less n)
  let ?c = "if n < PFOR_BLOCK then n else PFOR_BLOCK"
  show ?case
  proof (cases "n = 0")
    case False
    then have n: "n - ?c < n" "?c \<le> n" by (auto simp: PFOR_BLOCK_def)
    show ?thesis
    proof (cases "dec s ins ?c n")
      case None
      then show ?thesis using False by (subst (1 2) dec_blocks.simps) (simp add: Let_def)
    next
      case (Some a)
      then obtain vs rest s' where d: "dec s ins ?c n = Some (vs, rest, s')" by (cases a) auto
      then have "dec_blocks dec s ins n = res_bind (dec_blocks dec s' rest (n - ?c)) (\<lambda>r. Inr (vs @ r))"
        using False by (subst dec_blocks.simps) (simp add: Let_def)
      then show ?thesis using less.IH [OF n(1), of s' rest] assms [OF d] n(2) by auto
    qed
  qed (simp add: dec_blocks.simps)
qed

lemma pfor_round_trip:
  assumes "tsdb_pfor_encode xs cap = Inr bytes"
  shows "length bytes \<le> cap" and "tsdb_pfor_decode (bytes @ rest) (length xs) = Inr xs"
proof -
  let ?p = "put_u32_le (of_nat (length xs))"
  have "length xs \<le> 0xFFFFFFFF" using assms by (auto simp: tsdb_pfor_encode_def split: if_splits)
  then have n: "unat (of_nat (length xs) :: u32) = length xs" by (simp add: unat_of_nat)
  have "length bytes \<le> cap \<and> tsdb_pfor_decode (bytes @ rest) (length xs) = Inr xs"
    using u32_blocks.blocks_inverse [of cap "()" xs ?p bytes rest] assms n
    by (auto simp: tsdb_pfor_encode_def tsdb_pfor_decode_def PFOR_PROLOGUE_BYTES_def split: if_splits)
  then show "length bytes \<le> cap" "tsdb_pfor_decode (bytes @ rest) (length xs) = Inr xs" by auto
qed

lemma pfor_i64_round_trip:
  assumes "tsdb_pfor_encode_i64 xs cap = Inr bytes"
  shows "length bytes \<le> cap" and "tsdb_pfor_decode_i64 (bytes @ rest) (length xs) = Inr xs"
proof -
  let ?p = "put_u32_le (of_nat (length xs))"
  have "length xs \<le> 0xFFFFFFFF" using assms by (auto simp: tsdb_pfor_encode_i64_def split: if_splits)
  then have n: "unat (of_nat (length xs) :: u32) = length xs" by (simp add: unat_of_nat)
  have "length bytes \<le> cap \<and> tsdb_pfor_decode_i64 (bytes @ rest) (length xs) = Inr xs"
    using i64_blocks.blocks_inverse [of cap 0 xs ?p bytes rest] assms n
    by (auto simp: tsdb_pfor_encode_i64_def tsdb_pfor_decode_i64_def PFOR_PROLOGUE_BYTES_def split: if_splits)
  then show "length bytes \<le> cap" "tsdb_pfor_decode_i64 (bytes @ rest) (length xs) = Inr xs" by auto
qed

section \<open>Properties\<close>

text \<open>C17: \<^verbatim>\<open>choose_b\<close> returns the least width from 1 to 32 that at least 95 per cent of the residuals fit,
  rounded up, and a block of at most 128 residuals therefore has at most six exceptions.\<close>

theorem pfor_width_least:
  assumes "length rs \<le> 128" and "split_exceptions (pfor_mask (choose_b rs)) 0 rs = (exc, packed)"
  shows "1 \<le> choose_b rs \<and> choose_b rs \<le> 32
    \<and> length rs * 95 \<le> 100 * length (filter (\<lambda>v. unat v < 2 ^ choose_b rs) rs)
    \<and> (\<forall>k. 1 \<le> k \<and> k < choose_b rs \<longrightarrow> 100 * length (filter (\<lambda>v. unat v < 2 ^ k) rs) < length rs * 95)
    \<and> length exc \<le> 6"
proof -
  let ?t = "(length rs * 95 + 99) div 100"
  have t: "?t \<le> m \<longleftrightarrow> length rs * 95 \<le> 100 * m" for m :: nat by linarith
  obtain r where r: "choose_b rs = max 1 r" "\<forall>k < r. fitting k rs < ?t"
    using choose_b_spec [of rs] by (elim exE conjE) (rule that)
  have "100 * fitting k rs < length rs * 95" if "1 \<le> k" "k < choose_b rs" for k
    using that r t [of "fitting k rs"] by (auto simp: not_le [symmetric])
  moreover have "length rs * 95 \<le> 100 * fitting (choose_b rs) rs" using choose_b_fitting [of rs] t by simp
  ultimately show ?thesis
    using choose_b_range [of rs] exceptions_six [OF assms(2,1)] by (auto simp: fitting_def)
qed

theorem pfor_width_least_witness:
  "\<exists>exc packed. split_exceptions (pfor_mask (choose_b [0, 3, 2, 1])) 0 [0, 3, 2, 1] = (exc, packed) \<and> length exc \<le> 6"
proof -
  obtain exc packed where s: "split_exceptions (pfor_mask (choose_b [0, 3, 2, 1])) 0 [0, 3, 2, 1] = (exc, packed)"
    by (metis surj_pair)
  show ?thesis using pfor_width_least [OF _ s] s by auto
qed

text \<open>C16: The 32-bit PFOR codec is lossless: with 548 bytes per started block and four more the encoder
  succeeds on every non-empty input of less than \<open>2 ^ 32\<close> values, whatever it accepts stays within the
  capacity, and the decoder restores the input whatever bytes follow.\<close>

theorem pfor_lossless:
  assumes "xs \<noteq> []" and "length xs < 2 ^ 32"
  shows "(4 + 548 * ((length xs + 127) div 128) \<le> cap \<longrightarrow> (\<exists>bytes. tsdb_pfor_encode xs cap = Inr bytes))
    \<and> (\<forall>bytes. tsdb_pfor_encode xs cap = Inr bytes \<longrightarrow>
         length bytes \<le> cap \<and> tsdb_pfor_decode (bytes @ rest) (length xs) = Inr xs)"
proof -
  have "\<exists>bytes. tsdb_pfor_encode xs cap = Inr bytes" if "4 + 548 * ((length xs + 127) div 128) \<le> cap"
    using u32_blocks.blocks_total [of "put_u32_le (of_nat (length xs))" xs cap "()"] that assms
    by (auto simp: tsdb_pfor_encode_def PFOR_PROLOGUE_BYTES_def PFOR_BLOCK_def add.commute)
  then show ?thesis using pfor_round_trip by blast
qed

theorem pfor_lossless_witness:
  "\<exists>bytes. tsdb_pfor_encode [7, 9, 70000] 600 = Inr bytes \<and> tsdb_pfor_decode (bytes @ [1, 2]) 3 = Inr [7, 9, 70000]"
  using pfor_lossless [of "[7, 9, 70000]" 600 "[1, 2]"] by (auto simp: numeral_3_eq_3)




end
