(* ===== verification/Codec_Dec.thy ===== *)
theory Codec_Dec
  imports Core_Types Core_Float Codec_Dod Codec_Pfor
begin

text \<open>
  Model of \<^verbatim>\<open>src/compress/dec.c\<close>: the scaled-decimal codec. A block of doubles is re-expressed as integers
  at the least scale at which the decoder's own expression gives every value back bit for bit, and the
  integers go through DoD or PFOR. The double arithmetic is that of \<open>Core_Float\<close>. The scratch allocation
  of the decoder is an argument, false when it fails.
\<close>

section \<open>Operations\<close>

definition TSDB_DEC_MAX_SCALE :: nat where "TSDB_DEC_MAX_SCALE = 8"

definition DEC_P10 :: "nat \<Rightarrow> nat" where
  "DEC_P10 s = [1, 10, 100, 1000, 10000, 100000, 1000000, 10000000, 100000000] ! s"

definition dec_expand :: "i64 \<Rightarrow> nat \<Rightarrow> f64" where
  "dec_expand q s = f64_over (f64_of_i64 q) (DEC_P10 s)"

definition dec_try :: "f64 \<Rightarrow> nat \<Rightarrow> i64 option" where
  "dec_try v s =
     (let x = f64_times v (DEC_P10 s)
      in if \<not> f64_within x 9000000000000000 then None
         else let q = f64_round_i64 x; back = dec_expand q s in if back \<noteq> v then None else Some q)"

primrec dec_try_all :: "nat \<Rightarrow> f64 list \<Rightarrow> i64 list option" where
  "dec_try_all s [] = Some []"
| "dec_try_all s (v # vs) =
     (case dec_try v s of None \<Rightarrow> None | Some q \<Rightarrow> map_option (\<lambda>qs. q # qs) (dec_try_all s vs))"

function dec_find_from :: "nat \<Rightarrow> f64 list \<Rightarrow> (nat \<times> i64 list) option" where
  "dec_find_from s vs =
     (if s \<le> TSDB_DEC_MAX_SCALE
      then case dec_try_all s vs of Some qs \<Rightarrow> Some (s, qs) | None \<Rightarrow> dec_find_from (s + 1) vs
      else None)"
  by pat_completeness auto
termination
  by (relation "measure (\<lambda>(s, vs). 9 - s)") (auto simp: TSDB_DEC_MAX_SCALE_def)

declare dec_find_from.simps [simp del]

definition tsdb_dec_find_scale :: "f64 list \<Rightarrow> (nat \<times> i64 list) option" where
  "tsdb_dec_find_scale vs = (if vs = [] then None else dec_find_from 0 vs)"

definition tsdb_dec_pack :: "i64 list \<Rightarrow> nat \<Rightarrow> tsdb_codec_t \<Rightarrow> nat \<Rightarrow> tsdb_err + u8 list" where
  "tsdb_dec_pack q scale inner cap =
     (if q = [] then Inl TSDB_ERR_INVAL
      else if scale > TSDB_DEC_MAX_SCALE then Inl TSDB_ERR_INVAL
      else if inner \<noteq> TSDB_CODEC_DOD \<and> inner \<noteq> TSDB_CODEC_PFOR then Inl TSDB_ERR_INVAL
      else if cap < 2 then Inl TSDB_ERR_OVERFLOW
      else res_bind (if inner = TSDB_CODEC_DOD then tsdb_dod_encode q (cap - 2) else tsdb_pfor_encode_i64 q (cap - 2))
             (\<lambda>body. Inr ([of_nat scale, of_nat (codec_id inner)] @ body)))"

definition tsdb_dec_decode :: "bool \<Rightarrow> u8 list \<Rightarrow> nat \<Rightarrow> tsdb_err + f64 list" where
  "tsdb_dec_decode mem ins out_count =
     (if out_count = 0 then Inr []
      else if length ins < 2 then Inl TSDB_ERR_CORRUPT
      else let s = unat (ins ! 0); inner = ins ! 1 in
        if s > TSDB_DEC_MAX_SCALE then Inl TSDB_ERR_CORRUPT
        else if inner \<noteq> of_nat (codec_id TSDB_CODEC_DOD) \<and> inner \<noteq> of_nat (codec_id TSDB_CODEC_PFOR) then Inl TSDB_ERR_CORRUPT
        else if \<not> mem then Inl TSDB_ERR_NOMEM
        else res_bind (if inner = of_nat (codec_id TSDB_CODEC_DOD) then tsdb_dod_decode (drop 2 ins) out_count
                       else tsdb_pfor_decode_i64 (drop 2 ins) out_count)
               (\<lambda>q. Inr (map (\<lambda>x. dec_expand x s) q)))"

section \<open>Correctness\<close>

lemma dec_try_exact: "dec_try v s = Some q \<Longrightarrow> dec_expand q s = v"
  by (auto simp: dec_try_def Let_def split: if_splits)

lemma dec_try_all_exact: "dec_try_all s vs = Some qs \<Longrightarrow> map (\<lambda>q. dec_expand q s) qs = vs"
  by (induction vs arbitrary: qs) (auto split: option.splits dest: dec_try_exact)

lemma dec_find_from_spec:
  "dec_find_from k vs = Some (s, qs) \<Longrightarrow>
     k \<le> s \<and> s \<le> TSDB_DEC_MAX_SCALE \<and> dec_try_all s vs = Some qs \<and> (\<forall>j. k \<le> j \<and> j < s \<longrightarrow> dec_try_all j vs = None)"
proof (induction k vs rule: dec_find_from.induct)
  case (1 k vs)
  have k: "k \<le> TSDB_DEC_MAX_SCALE" using "1.prems" by (subst (asm) dec_find_from.simps) (auto split: if_splits)
  show ?case
  proof (cases "dec_try_all k vs")
    case None
    then have "dec_find_from (k + 1) vs = Some (s, qs)"
      using "1.prems" k by (subst (asm) dec_find_from.simps) simp
    note IH = "1.IH" [OF k None this]
    moreover have "dec_try_all j vs = None" if "k \<le> j" "j < s" for j
      using that IH None by (cases "j = k") auto
    ultimately show ?thesis by auto
  next
    case (Some q)
    then show ?thesis using "1.prems" k by (subst (asm) dec_find_from.simps) auto
  qed
qed

lemma dec_find_scale_spec:
  assumes "tsdb_dec_find_scale vs = Some (s, qs)"
  shows "vs \<noteq> []" and "s \<le> 8" and "map (\<lambda>q. dec_expand q s) qs = vs" and "\<forall>j < s. dec_try_all j vs = None"
  using assms dec_find_from_spec [of 0 vs s qs]
  by (auto simp: tsdb_dec_find_scale_def TSDB_DEC_MAX_SCALE_def dec_try_all_exact split: if_splits)

lemma dec_pack_size: "tsdb_dec_pack q s inner cap = Inr bytes \<Longrightarrow> length bytes \<le> cap"
  by (auto simp: tsdb_dec_pack_def res_bind_Inr_iff split: if_splits dest!: dod_encode_size(1) pfor_i64_round_trip(1))

lemma dec_decode_pack:
  assumes "tsdb_dec_pack qs s inner cap = Inr bytes"
  shows "tsdb_dec_decode True (bytes @ rest) (length qs) = Inr (map (\<lambda>q. dec_expand q s) qs)"
proof -
  from assms have s: "s \<le> 8" "qs \<noteq> []" by (auto simp: tsdb_dec_pack_def TSDB_DEC_MAX_SCALE_def split: if_splits)
  from assms obtain body where b: "bytes = [of_nat s, of_nat (codec_id inner)] @ body"
    and i: "inner = TSDB_CODEC_DOD \<and> tsdb_dod_encode qs (cap - 2) = Inr body
      \<or> inner = TSDB_CODEC_PFOR \<and> tsdb_pfor_encode_i64 qs (cap - 2) = Inr body"
    by (auto simp: tsdb_dec_pack_def res_bind_Inr_iff split: if_splits)
  have u: "unat (of_nat s :: u8) = s" using s by (simp add: unat_of_nat)
  have ids: "(1 :: u8) \<noteq> 10" by simp
  show ?thesis
    using i u s dod_round_trip [of qs "cap - 2" body rest] pfor_i64_round_trip(2) [of qs "cap - 2" body rest] ids
    by (auto simp: tsdb_dec_decode_def b TSDB_DEC_MAX_SCALE_def Let_def codec_id_def)
qed

text \<open>C21: The decimal codec is lossless or refuses: when \<^verbatim>\<open>tsdb_dec_find_scale\<close> finds a scale it is the least
  one at which every value is exactly representable, and whatever the packer then writes with either
  integer codec fits the buffer and decodes to the original bit patterns, whatever bytes follow.\<close>

theorem dec_lossless:
  assumes "tsdb_dec_find_scale vs = Some (s, qs)" and "tsdb_dec_pack qs s inner cap = Inr bytes"
  shows "s \<le> 8 \<and> (\<forall>j < s. \<exists>v \<in> set vs. dec_try v j = None) \<and> length bytes \<le> cap
    \<and> tsdb_dec_decode True (bytes @ rest) (length vs) = Inr vs"
proof -
  note f = dec_find_scale_spec [OF assms(1)]
  have l: "length vs = length qs" using f(3) by auto
  have "dec_try_all j vs = None \<Longrightarrow> \<exists>v \<in> set vs. dec_try v j = None" for j
    by (induction vs) (auto split: option.splits)
  then show ?thesis using f dec_pack_size [OF assms(2)] dec_decode_pack [OF assms(2), of rest] unfolding l by auto
qed

text \<open>The value 1.5: at scale 0 it would come back as 2, at scale 1 it is 15.\<close>

lemma dec_example_times: "f64_times 0x3FF8000000000000 1 = 0x3FF8000000000000" "f64_times 0x3FF8000000000000 10 = 0x402E000000000000"
  by (simp_all add: f64_eval)

lemma dec_example_round: "f64_round_i64 0x3FF8000000000000 = 2" "f64_round_i64 0x402E000000000000 = 15"
  by (simp_all add: f64_eval)

lemma dec_example_within: "f64_within 0x402E000000000000 9000000000000000"
  by (simp add: f64_eval)

lemma dec_example_i64: "f64_of_i64 2 = 0x4000000000000000" "f64_of_i64 15 = 0x402E000000000000"
  by (simp_all add: f64_eval)

lemma dec_example_over: "f64_over 0x4000000000000000 1 \<noteq> 0x3FF8000000000000" "f64_over 0x402E000000000000 10 = 0x3FF8000000000000"
  by (simp_all add: f64_eval)

lemma dec_example: "tsdb_dec_find_scale [0x3FF8000000000000] = Some (1, [15])"
proof -
  have "dec_try 0x3FF8000000000000 0 = None"
    unfolding dec_try_def dec_expand_def DEC_P10_def nth_Cons_0 dec_example_times dec_example_round Let_def dec_example_i64
    using dec_example_over(1) by (simp only: if_True simp_thms if_cancel)
  moreover have p: "DEC_P10 1 = 10" by (simp add: DEC_P10_def)
  have "dec_try 0x3FF8000000000000 1 = Some 15"
    unfolding dec_try_def dec_expand_def p dec_example_times dec_example_round Let_def dec_example_i64 dec_example_over(2)
    using dec_example_within by (simp only: if_False simp_thms)
  ultimately have all: "dec_try_all 0 [0x3FF8000000000000] = None" "dec_try_all 1 [0x3FF8000000000000] = Some [15]"
    by simp_all
  have "dec_find_from 1 [0x3FF8000000000000] = Some (1, [15])"
    by (subst dec_find_from.simps) (simp add: all(2) TSDB_DEC_MAX_SCALE_def del: dec_try_all.simps One_nat_def)
  then show ?thesis
    unfolding tsdb_dec_find_scale_def
    by (subst dec_find_from.simps) (simp add: all(1) TSDB_DEC_MAX_SCALE_def del: dec_try_all.simps One_nat_def)
qed

theorem dec_lossless_witness:
  "\<exists>bytes. tsdb_dec_pack [15] 1 TSDB_CODEC_DOD 100 = Inr bytes
     \<and> tsdb_dec_decode True (bytes @ [7]) 1 = Inr [0x3FF8000000000000]"
proof -
  obtain body where "tsdb_dod_encode [15] 98 = Inr body"
    using dod_encode_ok_iff [of "[15]" 98] by auto
  then obtain bytes where p: "tsdb_dec_pack [15] 1 TSDB_CODEC_DOD 100 = Inr bytes"
    by (simp add: tsdb_dec_pack_def TSDB_DEC_MAX_SCALE_def del: tsdb_dod_encode.simps)
  show ?thesis using dec_lossless [OF dec_example p, of "[7]"] p by simp
qed

end
