(* ===== verification/Codec_Float.thy ===== *)
theory Codec_Float
  imports Codec_Stream
begin

text \<open>
  The frame that \<^verbatim>\<open>gorilla.c\<close>, \<^verbatim>\<open>chimp.c\<close> and \<^verbatim>\<open>chimp128.c\<close> put around their value loops: the first
  value as eight little-endian bytes, then the bit stream of the others. A \<^verbatim>\<open>double\<close> is its bit
  pattern, since the code only ever copies it to and from \<^verbatim>\<open>uint64_t\<close>. The loop bodies and their
  initial states are arguments. The locale \<open>float_codec\<close> adds the frame to \<open>stream_codec\<close>.
\<close>

section \<open>The frame\<close>

definition float_encode :: "('s \<Rightarrow> tsdb_bw \<Rightarrow> f64 \<Rightarrow> tsdb_err + 's \<times> tsdb_bw) \<Rightarrow> (u64 \<Rightarrow> 's)
    \<Rightarrow> f64 list \<Rightarrow> nat \<Rightarrow> tsdb_err + u8 list" where
  "float_encode enc_step init xs cap =
     (case xs of
        [] \<Rightarrow> Inr []
      | u0 # ys \<Rightarrow>
          if cap < 8 then Inl TSDB_ERR_OVERFLOW
          else let out = le_bytes 8 u0
               in if ys = [] then Inr out
                  else res_bind (enc_loop enc_step (init u0) (tsdb_bw_init (cap - 8)) ys) (\<lambda>bw.
                         res_bind (res_opt TSDB_ERR_OVERFLOW (tsdb_bw_finish bw)) (\<lambda>bits.
                           Inr (out @ bits))))"

definition float_decode :: "('d \<Rightarrow> tsdb_br \<Rightarrow> tsdb_err + f64 \<times> 'd \<times> tsdb_br) \<Rightarrow> (u64 \<Rightarrow> 'd)
    \<Rightarrow> u8 list \<Rightarrow> nat \<Rightarrow> tsdb_err + f64 list" where
  "float_decode dec_step init buf n =
     (if n = 0 then Inr []
      else if length buf < 8 then Inl TSDB_ERR_CORRUPT
      else let u0 = le_acc 0 0 (take 8 buf)
           in if n = 1 then Inr [u0]
              else res_bind (dec_loop dec_step (init u0) (tsdb_br_init (drop 8 buf)) (n - 1)) (\<lambda>vs.
                     Inr (u0 # vs)))"

section \<open>Reading small counts\<close>

lemma of_nat_fits: "k < 2 ^ n \<Longrightarrow> n \<le> 64 \<Longrightarrow> take_bit n (of_nat k :: u64) = of_nat k"
  and unat_of_nat_fits: "k < 2 ^ n \<Longrightarrow> n \<le> 64 \<Longrightarrow> unat (of_nat k :: u64) = k"
proof -
  assume k: "k < 2 ^ n" and n: "n \<le> 64"
  have "(2::nat) ^ n \<le> 2 ^ 64" using n by (intro power_increasing) auto
  then show u: "unat (of_nat k :: u64) = k" using k by (simp add: unat_of_nat)
  show "take_bit n (of_nat k :: u64) = of_nat k" using k by (simp only: fits_unat u)
qed

lemma br_get_count:
  assumes "br_ahead r (bits_of n (of_nat k :: u64) @ bs)" and "k < 2 ^ n" and "n \<le> 57"
  obtains r' where "tsdb_br_get r n = (of_nat k, r')" and "unat (of_nat k :: u64) = k" and "br_ahead r' bs"
  using br_get_field [OF assms(1,3) of_nat_fits [OF assms(2)]] unat_of_nat_fits [OF assms(2)] assms(3) by auto

section \<open>Correctness of the frame\<close>

locale float_codec = stream_codec enc_step dec_step rel width
  for enc_step :: "'s \<Rightarrow> tsdb_bw \<Rightarrow> f64 \<Rightarrow> tsdb_err + 's \<times> tsdb_bw"
    and dec_step :: "'d \<Rightarrow> tsdb_br \<Rightarrow> tsdb_err + f64 \<times> 'd \<times> tsdb_br"
    and rel :: "'s \<Rightarrow> 'd \<Rightarrow> bool"
    and width :: nat +
  fixes einit :: "u64 \<Rightarrow> 's" and dinit :: "u64 \<Rightarrow> 'd"
  assumes init_rel: "rel (einit u) (dinit u)"
    and enc_total: "\<exists>y. enc_step s w x = Inr y"
begin

lemma enc_loop_total: "\<exists>w'. enc_loop enc_step s w xs = Inr w'"
proof (induction xs arbitrary: s w)
  case (Cons x xs)
  obtain s1 w1 where "enc_step s w x = Inr (s1, w1)" using enc_total by fastforce
  then show ?case using Cons.IH by simp
qed simp

lemma float_encode_cases:
  obtains (nil) "xs = []" "float_encode enc_step einit xs cap = Inr []"
  | (short) "xs \<noteq> []" "cap < 8" "float_encode enc_step einit xs cap = Inl TSDB_ERR_OVERFLOW"
  | (one) u0 where "xs = [u0]" "8 \<le> cap" "float_encode enc_step einit xs cap = Inr (le_bytes 8 u0)"
  | (full) u0 ys w where "xs = u0 # ys" "ys \<noteq> []" "8 \<le> cap"
      "enc_loop enc_step (einit u0) (tsdb_bw_init (cap - 8)) ys = Inr w" "tsdb_bw_finish w = None"
      "float_encode enc_step einit xs cap = Inl TSDB_ERR_OVERFLOW"
  | (more) u0 ys w bits where "xs = u0 # ys" "ys \<noteq> []" "8 \<le> cap"
      "enc_loop enc_step (einit u0) (tsdb_bw_init (cap - 8)) ys = Inr w" "tsdb_bw_finish w = Some bits"
      "float_encode enc_step einit xs cap = Inr (le_bytes 8 u0 @ bits)"
proof (cases xs)
  case Nil
  then show ?thesis using nil by (simp add: float_encode_def)
next
  case (Cons u0 ys)
  consider "cap < 8" | "8 \<le> cap" "ys = []" | "8 \<le> cap" "ys \<noteq> []" by linarith
  then show ?thesis
  proof cases
    case 1
    then show ?thesis using short Cons by (simp add: float_encode_def)
  next
    case 2
    then show ?thesis using one Cons by (simp add: float_encode_def)
  next
    case 3
    obtain w where w: "enc_loop enc_step (einit u0) (tsdb_bw_init (cap - 8)) ys = Inr w"
      using enc_loop_total by blast
    show ?thesis
      using full [OF Cons 3(2,1) w] more [OF Cons 3(2,1) w] w 3 Cons
      by (cases "tsdb_bw_finish w") (simp_all add: float_encode_def res_opt_def)
  qed
qed

lemma float_round_trip:
  assumes "float_encode enc_step einit xs cap = Inr bytes"
  shows "float_decode dec_step dinit (bytes @ junk) (length xs) = Inr xs"
proof (cases rule: float_encode_cases [of xs cap])
  case (more u0 ys w bits)
  have "dec_loop dec_step (dinit u0) (tsdb_br_init (bits @ junk)) (length ys) = Inr ys"
    using stream_round_trip [OF more(4,5) init_rel] .
  moreover have "bytes = le_bytes 8 u0 @ bits" using assms more(6) by simp
  ultimately show ?thesis using more(1,2) by (simp add: float_decode_def)
qed (use assms in \<open>auto simp: float_decode_def\<close>)

lemma float_encode_size:
  assumes "float_encode enc_step einit xs cap = Inr bytes"
  shows "length bytes \<le> cap" and "length bytes \<le> 8 + (length xs * width + 7) div 8"
proof -
  have "length bytes \<le> cap \<and> length bytes \<le> 8 + (length xs * width + 7) div 8"
  proof (cases rule: float_encode_cases [of xs cap])
    case (more u0 ys w bits)
    have "(length ys * width + 7) div 8 \<le> (length xs * width + 7) div 8"
      using more(1) by (intro div_le_mono) simp
    then show ?thesis using stream_size [OF more(4,5) init_rel] more assms by auto
  qed (use assms in auto)
  then show "length bytes \<le> cap" "length bytes \<le> 8 + (length xs * width + 7) div 8" by auto
qed

lemma float_encode_total:
  assumes "8 + (length xs * width + 7) div 8 \<le> cap"
  shows "\<exists>bytes. float_encode enc_step einit xs cap = Inr bytes"
proof (cases rule: float_encode_cases [of xs cap])
  case (full u0 ys w)
  have "length ys * width \<le> length xs * width" using full(1) by simp
  then have "length ys * width \<le> 8 * (cap - 8)" using assms by linarith
  then show ?thesis using stream_room [OF full(4) init_rel] full(5) by auto
qed (use assms in auto)

lemma float_encode_error: "float_encode enc_step einit xs cap = Inl e \<Longrightarrow> e = TSDB_ERR_OVERFLOW"
  by (cases rule: float_encode_cases [of xs cap]) auto

end

end
