(* ===== verification/Codec_Gorilla.thy ===== *)
theory Codec_Gorilla
  imports Codec_Float
begin

text \<open>
  Model of \<^verbatim>\<open>src/compress/gorilla.c\<close>. The loop-carried variables of the encoder and of the decoder are
  the records \<open>gor_enc\<close> and \<open>gor_dec\<close>.
\<close>

section \<open>Encoder\<close>

record gor_enc =
  ge_prev_u :: u64
  ge_prev_leading :: nat
  ge_prev_trailing :: nat
  ge_has_prev_window :: bool

definition gorilla_enc_init :: "u64 \<Rightarrow> gor_enc" where
  "gorilla_enc_init u0 =
     \<lparr>ge_prev_u = u0, ge_prev_leading = 0, ge_prev_trailing = 0, ge_has_prev_window = False\<rparr>"

definition gorilla_enc_step :: "gor_enc \<Rightarrow> tsdb_bw \<Rightarrow> f64 \<Rightarrow> tsdb_err + gor_enc \<times> tsdb_bw" where
  "gorilla_enc_step s0 bw cur_u =
     (let xor_val = cur_u XOR ge_prev_u s0;
          s = s0\<lparr>ge_prev_u := cur_u\<rparr>
      in if xor_val = 0 then Inr (s, tsdb_bw_put bw 0 1)
         else let clz = tsdb_clz64 xor_val;
                  trailing = tsdb_ctz64 xor_val;
                  leading = (if clz > 31 then 31 else clz);
                  meaningful = 64 - leading - trailing;
                  prev_meaningful = 64 - ge_prev_leading s - ge_prev_trailing s
              in if ge_has_prev_window s \<and> leading \<ge> ge_prev_leading s \<and> trailing \<ge> ge_prev_trailing s
                 then Inr (s, bw_put_safe (tsdb_bw_put bw 1 2) (drop_bit (ge_prev_trailing s) xor_val) prev_meaningful)
                 else let stored_len = (if meaningful = 64 then 0 else meaningful)
                      in Inr (s\<lparr>ge_prev_leading := leading, ge_prev_trailing := trailing, ge_has_prev_window := True\<rparr>,
                              bw_put_safe
                                (tsdb_bw_put (tsdb_bw_put (tsdb_bw_put bw 3 2) (of_nat leading) 5) (of_nat stored_len) 6)
                                (drop_bit trailing xor_val) meaningful))"

definition tsdb_gorilla_encode :: "f64 list \<Rightarrow> nat \<Rightarrow> tsdb_err + u8 list" where
  "tsdb_gorilla_encode = float_encode gorilla_enc_step gorilla_enc_init"

section \<open>Decoder\<close>

record gor_dec =
  gd_prev_u :: u64
  gd_prev_trailing :: nat
  gd_prev_meaningful :: nat
  gd_has_prev_window :: bool

definition gorilla_dec_init :: "u64 \<Rightarrow> gor_dec" where
  "gorilla_dec_init u0 =
     \<lparr>gd_prev_u = u0, gd_prev_trailing = 0, gd_prev_meaningful = 0, gd_has_prev_window = False\<rparr>"

definition gorilla_get :: "gor_dec \<Rightarrow> tsdb_br \<Rightarrow> tsdb_err + u64 \<times> gor_dec \<times> tsdb_br" where
  "gorilla_get d br =
     (case tsdb_br_get br 1 of (b0, br) \<Rightarrow>
        if b0 = 0 then Inr (0, d, br)
        else case tsdb_br_get br 1 of (b1, br) \<Rightarrow>
          if b1 = 0
          then if \<not> gd_has_prev_window d then Inl TSDB_ERR_CORRUPT
               else (case br_get_safe br (gd_prev_meaningful d) of (m, br) \<Rightarrow>
                       Inr (push_bit (gd_prev_trailing d) m, d, br))
          else case tsdb_br_get br 5 of (l, br) \<Rightarrow> case tsdb_br_get br 6 of (sl, br) \<Rightarrow>
               let leading = unat l;
                   stored_len = unat sl;
                   meaningful = (if stored_len = 0 then 64 else stored_len);
                   trailing = 64 - leading - meaningful
               in if leading + meaningful > 64 then Inl TSDB_ERR_CORRUPT
                  else case br_get_safe br meaningful of (m, br) \<Rightarrow>
                       Inr (push_bit trailing m,
                            d\<lparr>gd_prev_trailing := trailing, gd_prev_meaningful := meaningful,
                              gd_has_prev_window := True\<rparr>, br))"

definition gorilla_dec_step :: "gor_dec \<Rightarrow> tsdb_br \<Rightarrow> tsdb_err + f64 \<times> gor_dec \<times> tsdb_br" where
  "gorilla_dec_step d br =
     res_bind (gorilla_get d br) (\<lambda>(xor_val, d', br').
       if br_underflow br' then Inl TSDB_ERR_CORRUPT
       else let cur_u = gd_prev_u d' XOR xor_val in Inr (cur_u, d'\<lparr>gd_prev_u := cur_u\<rparr>, br'))"

definition tsdb_gorilla_decode :: "u8 list \<Rightarrow> nat \<Rightarrow> tsdb_err + f64 list" where
  "tsdb_gorilla_decode = float_decode gorilla_dec_step gorilla_dec_init"

section \<open>One value\<close>

text \<open>The two sides agree on the previous value and on the window, once there is one.\<close>

definition gor_rel :: "gor_enc \<Rightarrow> gor_dec \<Rightarrow> bool" where
  "gor_rel s d \<longleftrightarrow> gd_prev_u d = ge_prev_u s \<and> gd_has_prev_window d = ge_has_prev_window s \<and>
     (ge_has_prev_window s \<longrightarrow> ge_prev_leading s + ge_prev_trailing s \<le> 64 \<and>
        gd_prev_trailing d = ge_prev_trailing s \<and>
        gd_prev_meaningful d = 64 - ge_prev_leading s - ge_prev_trailing s)"

text \<open>Reading back each of the three codes.\<close>

lemma gorilla_get_zero:
  assumes "br_ahead r ([False] @ rest)"
  shows "\<exists>r'. gorilla_get d r = Inr (0, d, r') \<and> br_ahead r' rest"
  using assms by (auto elim: br_get_zero simp: gorilla_get_def)

lemma gorilla_get_reuse:
  assumes "br_ahead r (([True, False] @ bits_of m (drop_bit t X)) @ rest)" and "gd_has_prev_window d"
    and "gd_prev_meaningful d = m" and "gd_prev_trailing d = t" and "m = 64 - l - t"
    and "X \<noteq> 0" and "l \<le> tsdb_clz64 X" and "t \<le> tsdb_ctz64 X"
  shows "\<exists>r'. gorilla_get d r = Inr (X, d, r') \<and> br_ahead r' rest"
proof -
  have "br_ahead r (True # False # bits_of m (drop_bit t X) @ rest)" using assms(1) by simp
  moreover have "m \<le> 64" using assms(5) by simp
  moreover have "push_bit t (take_bit m (drop_bit t X)) = X" using window_restore assms(5-) by blast
  ultimately show ?thesis
    using assms(2-4)
    by (elim br_get_one br_get_zero br_get_safe_field) (simp_all add: gorilla_get_def)
qed

lemma gorilla_get_new:
  assumes "br_ahead r (([True, True] @ bits_of 5 (of_nat l :: u64) @ bits_of 6 (of_nat sl :: u64)
      @ bits_of m (drop_bit t X)) @ rest)"
    and "l \<le> 31" and "m = 64 - l - t" and "sl = (if m = 64 then 0 else m)"
    and "X \<noteq> 0" and "l \<le> tsdb_clz64 X" and "t \<le> tsdb_ctz64 X"
  shows "\<exists>r'. gorilla_get d r = Inr (X,
      d\<lparr>gd_prev_trailing := t, gd_prev_meaningful := m, gd_has_prev_window := True\<rparr>, r') \<and> br_ahead r' rest"
proof -
  have ahead: "br_ahead r (True # True # bits_of 5 (of_nat l :: u64) @ bits_of 6 (of_nat sl :: u64)
      @ bits_of m (drop_bit t X) @ rest)" using assms(1) by simp
  have lt: "l + t < 64" using clz_ctz_bound [OF assms(5)] assms(6,7) by linarith
  then have m: "m \<le> 64" "0 < m" "l + m \<le> 64" "64 - l - m = t" "(if sl = 0 then 64 else sl) = m"
    using assms(3,4) by auto
  have small: "l < 2 ^ 5" "sl < 2 ^ 6" using assms(2,4) m(1) by auto
  have X: "push_bit t (take_bit m (drop_bit t X)) = X" using window_restore assms(3,5-) by blast
  obtain r1 where r1: "tsdb_br_get r 1 = (1, r1)"
    "br_ahead r1 (True # bits_of 5 (of_nat l :: u64) @ bits_of 6 (of_nat sl :: u64) @ bits_of m (drop_bit t X) @ rest)"
    using br_get_one [OF ahead] .
  obtain r2 where r2: "tsdb_br_get r1 1 = (1, r2)"
    "br_ahead r2 (bits_of 5 (of_nat l :: u64) @ bits_of 6 (of_nat sl :: u64) @ bits_of m (drop_bit t X) @ rest)"
    using br_get_one [OF r1(2)] .
  obtain r3 where r3: "tsdb_br_get r2 5 = (of_nat l, r3)" "unat (of_nat l :: u64) = l"
    "br_ahead r3 (bits_of 6 (of_nat sl :: u64) @ bits_of m (drop_bit t X) @ rest)"
    using br_get_count [OF r2(2) small(1)] by auto
  obtain r4 where r4: "tsdb_br_get r3 6 = (of_nat sl, r4)" "unat (of_nat sl :: u64) = sl"
    "br_ahead r4 (bits_of m (drop_bit t X) @ rest)"
    using br_get_count [OF r3(3) small(2)] by auto
  obtain r5 where r5: "br_get_safe r4 m = (take_bit m (drop_bit t X), r5)" "br_ahead r5 rest"
    using br_get_safe_field [OF r4(3) m(1)] .
  show ?thesis
    using r5(2) r1(1) r2(1) r3(1,2) r4(1,2) r5(1) m X
    by (cases "sl = 0") (simp_all add: gorilla_get_def Let_def del: One_nat_def)
qed

section \<open>Whole columns\<close>

text \<open>A value takes at most \<open>2 + 5 + 6 + 64\<close> bits.\<close>

lemma gorilla_stepI:
  assumes "bw_writes w bs w'"
    and "\<And>r rest. br_ahead r (bs @ rest) \<Longrightarrow>
      \<exists>r'. gorilla_get d r = Inr (x XOR gd_prev_u d, d', r') \<and> br_ahead r' rest"
    and "length bs \<le> 77" and "gd_prev_u d' = gd_prev_u d" and "gor_rel s' (d'\<lparr>gd_prev_u := x\<rparr>)"
  shows "\<exists>bs d'. bw_writes w bs w' \<and> length bs \<le> 77 \<and> gor_rel s' d' \<and>
    (\<forall>r rest. br_ahead r (bs @ rest) \<longrightarrow> (\<exists>r'. gorilla_dec_step d r = Inr (x, d', r') \<and> br_ahead r' rest))"
proof (rule exI [of _ bs], rule exI [of _ "d'\<lparr>gd_prev_u := x\<rparr>"], intro conjI allI impI)
  fix r rest assume "br_ahead r (bs @ rest)"
  then obtain r' where "gorilla_get d r = Inr (x XOR gd_prev_u d, d', r')" "br_ahead r' rest"
    using assms(2) by blast
  moreover have "gd_prev_u d XOR (x XOR gd_prev_u d) = x" by (simp add: xor.left_commute)
  ultimately show "\<exists>r'. gorilla_dec_step d r = Inr (x, d'\<lparr>gd_prev_u := x\<rparr>, r') \<and> br_ahead r' rest"
    using assms(4) by (simp add: gorilla_dec_step_def Let_def br_ahead_def)
qed (use assms in auto)

lemma gorilla_step_inverse:
  assumes "gorilla_enc_step s w x = Inr (s', w')" and "gor_rel s d"
  shows "\<exists>bs d'. bw_writes w bs w' \<and> length bs \<le> 77 \<and> gor_rel s' d' \<and>
    (\<forall>r rest. br_ahead r (bs @ rest) \<longrightarrow> (\<exists>r'. gorilla_dec_step d r = Inr (x, d', r') \<and> br_ahead r' rest))"
proof -
  define X where "X = x XOR ge_prev_u s"
  have prev: "x XOR gd_prev_u d = X" using assms(2) by (simp add: gor_rel_def X_def)
  define t l where "t = tsdb_ctz64 X" and "l = (if tsdb_clz64 X > 31 then 31 else tsdb_clz64 X)"
  define m where "m = 64 - l - t"
  define sl where "sl = (if m = 64 then 0 else m)"
  let ?pl = "ge_prev_leading s" and ?pt = "ge_prev_trailing s"
  let ?pm = "64 - ?pl - ?pt"
  have put: "bits_of 1 (0 :: u64) = [False]" "bits_of 2 (1 :: u64) = [True, False]" "bits_of 2 (3 :: u64) = [True, True]"
    by (simp_all add: bits_of_def upt_rec)
  have l: "l \<le> 31" "l \<le> tsdb_clz64 X" by (auto simp: l_def)
  have step: "gorilla_enc_step s w x =
    (if X = 0 then Inr (s\<lparr>ge_prev_u := x\<rparr>, tsdb_bw_put w 0 1)
     else if ge_has_prev_window s \<and> ?pl \<le> l \<and> ?pt \<le> t
     then Inr (s\<lparr>ge_prev_u := x\<rparr>, bw_put_safe (tsdb_bw_put w 1 2) (drop_bit ?pt X) ?pm)
     else Inr (s\<lparr>ge_prev_u := x, ge_prev_leading := l, ge_prev_trailing := t, ge_has_prev_window := True\<rparr>,
       bw_put_safe (tsdb_bw_put (tsdb_bw_put (tsdb_bw_put w 3 2) (of_nat l) 5) (of_nat sl) 6) (drop_bit t X) m))"
    unfolding gorilla_enc_step_def Let_def X_def [symmetric] t_def [symmetric] l_def [symmetric]
      m_def [symmetric] sl_def [symmetric] by simp
  consider (zero) "X = 0"
    | (reuse) "X \<noteq> 0" "ge_has_prev_window s" "?pl \<le> l" "?pt \<le> t"
    | (new) "X \<noteq> 0" "\<not> (ge_has_prev_window s \<and> ?pl \<le> l \<and> ?pt \<le> t)" by blast
  then show ?thesis
  proof cases
    case zero
    then have s': "s' = s\<lparr>ge_prev_u := x\<rparr>" and w': "w' = tsdb_bw_put w 0 1"
      using assms(1) by (simp_all add: step)
    have "bw_writes w [False] w'" using bw_writes_put [of 1 w 0] unfolding w' put by simp
    moreover have "\<exists>r'. gorilla_get d r = Inr (x XOR gd_prev_u d, d, r') \<and> br_ahead r' rest"
      if "br_ahead r ([False] @ rest)" for r rest
      using gorilla_get_zero [OF that] by (simp add: prev zero)
    ultimately show ?thesis
      by (rule gorilla_stepI [where d' = d]) (use assms(2) in \<open>auto simp: s' gor_rel_def\<close>)
  next
    case reuse
    then have s': "s' = s\<lparr>ge_prev_u := x\<rparr>"
      and w': "w' = bw_put_safe (tsdb_bw_put w 1 2) (drop_bit ?pt X) ?pm"
      using assms(1) by (simp_all add: step)
    have "bw_writes w ([True, False] @ bits_of ?pm (drop_bit ?pt X)) w'"
      unfolding w' put(2) [symmetric] by (intro bw_writes_trans [OF bw_writes_put bw_writes_put_safe]) auto
    moreover have "\<exists>r'. gorilla_get d r = Inr (x XOR gd_prev_u d, d, r') \<and> br_ahead r' rest"
      if "br_ahead r (([True, False] @ bits_of ?pm (drop_bit ?pt X)) @ rest)" for r rest
      unfolding prev using assms(2) reuse l by (intro gorilla_get_reuse [OF that, where l = ?pl]) (auto simp: gor_rel_def t_def)
    ultimately show ?thesis
      by (rule gorilla_stepI [where d' = d]) (use assms(2) in \<open>auto simp: s' gor_rel_def\<close>)
  next
    case new
    let ?bs = "[True, True] @ bits_of 5 (of_nat l :: u64) @ bits_of 6 (of_nat sl :: u64) @ bits_of m (drop_bit t X)"
    from new have s': "s' = s\<lparr>ge_prev_u := x, ge_prev_leading := l, ge_prev_trailing := t, ge_has_prev_window := True\<rparr>"
      and w': "w' = bw_put_safe (tsdb_bw_put (tsdb_bw_put (tsdb_bw_put w 3 2) (of_nat l) 5) (of_nat sl) 6) (drop_bit t X) m"
      using assms(1) by (auto simp: step)
    have "bw_writes w ((([True, True] @ bits_of 5 (of_nat l :: u64)) @ bits_of 6 (of_nat sl :: u64)) @ bits_of m (drop_bit t X)) w'"
      unfolding w' put(3) [symmetric]
      by (intro bw_writes_trans [OF bw_writes_trans [OF bw_writes_trans [OF bw_writes_put bw_writes_put] bw_writes_put]
            bw_writes_put_safe]) (auto simp: m_def)
    then have "bw_writes w ?bs w'" by simp
    moreover have "\<exists>r'. gorilla_get d r = Inr (x XOR gd_prev_u d, d\<lparr>gd_prev_trailing := t, gd_prev_meaningful := m,
        gd_has_prev_window := True\<rparr>, r') \<and> br_ahead r' rest"
      if "br_ahead r (?bs @ rest)" for r rest
      unfolding prev using new l by (intro gorilla_get_new [OF that]) (auto simp: m_def sl_def t_def)
    moreover have "l + t \<le> 64" using clz_ctz_bound [OF new(1)] l by (simp add: t_def)
    ultimately show ?thesis
      by (intro gorilla_stepI [where bs = ?bs and d' = "d\<lparr>gd_prev_trailing := t, gd_prev_meaningful := m, gd_has_prev_window := True\<rparr>"])
        (use assms(2) in \<open>auto simp: s' gor_rel_def m_def\<close>)
  qed
qed

interpretation gorilla: float_codec gorilla_enc_step gorilla_dec_step gor_rel 77 gorilla_enc_init gorilla_dec_init
proof unfold_locales
  show "gor_rel (gorilla_enc_init u) (gorilla_dec_init u)" for u
    by (simp add: gor_rel_def gorilla_enc_init_def gorilla_dec_init_def)
  show "\<exists>y. gorilla_enc_step s w x = Inr y" for s w x
    by (simp add: gorilla_enc_step_def Let_def)
qed (rule gorilla_step_inverse)

section \<open>Properties of the Gorilla codec\<close>

text \<open>C2: Gorilla is lossless on every list of bit patterns, NaNs and infinities included: with room for 77
  bits per value behind the first, \<^verbatim>\<open>tsdb_gorilla_encode\<close> succeeds; and whenever it succeeds the output
  stays within the capacity and \<^verbatim>\<open>tsdb_gorilla_decode\<close> restores the values bit for bit, whatever bytes
  follow.\<close>

theorem gorilla_lossless:
  "(8 + (length xs * 77 + 7) div 8 \<le> cap \<longrightarrow> (\<exists>bytes. tsdb_gorilla_encode xs cap = Inr bytes)) \<and>
   (tsdb_gorilla_encode xs cap = Inr bytes \<longrightarrow>
      length bytes \<le> cap \<and> tsdb_gorilla_decode (bytes @ junk) (length xs) = Inr xs)"
  unfolding tsdb_gorilla_encode_def tsdb_gorilla_decode_def
  by (intro conjI impI gorilla.float_encode_total gorilla.float_round_trip gorilla.float_encode_size(1))

theorem gorilla_lossless_witness:
  "\<exists>bytes. tsdb_gorilla_encode [0x3FF8000000000000, 0x3FF8000000000000, 0x7FF8000000000001] 64 = Inr bytes
     \<and> length bytes \<le> 64
     \<and> tsdb_gorilla_decode (bytes @ [7]) 3 = Inr [0x3FF8000000000000, 0x3FF8000000000000, 0x7FF8000000000001]"
proof -
  let ?xs = "[0x3FF8000000000000, 0x3FF8000000000000, 0x7FF8000000000001 :: f64]"
  obtain bytes where b: "tsdb_gorilla_encode ?xs 64 = Inr bytes" using gorilla_lossless [of ?xs 64] by auto
  have "length ?xs = 3" by simp
  then show ?thesis using b gorilla_lossless [of ?xs 64 bytes "[7]"] by metis
qed

end
