(* ===== verification/Codec_Chimp.thy ===== *)
theory Codec_Chimp
  imports Codec_Float
begin

text \<open>
  Model of \<^verbatim>\<open>src/compress/chimp.c\<close>. The record \<open>chimp_st\<close> holds the loop-carried variables, which encoder
  and decoder keep in step. The stripped window (table index, length, significant bits) and the
  unstripped one occur in \<^verbatim>\<open>chimp128.c\<close> as well; the helpers for them take the lookup table as argument.
\<close>

section \<open>Tables\<close>

definition CHIMP_LEADING_ROUND :: "nat list" where
  "CHIMP_LEADING_ROUND =
     [0, 0, 0, 0, 0, 0, 0, 0,
      8, 8, 8, 8,
      12, 12, 12, 12,
      16, 16,
      18, 18,
      20, 20,
      22, 22,
      24, 24, 24, 24, 24, 24, 24, 24,
      24, 24, 24, 24, 24, 24, 24, 24,
      24, 24, 24, 24, 24, 24, 24, 24,
      24, 24, 24, 24, 24, 24, 24, 24,
      24, 24, 24, 24, 24, 24, 24, 24,
      24]"

definition CHIMP_LEADING_IDX :: "nat list" where
  "CHIMP_LEADING_IDX =
     [0, 0, 0, 0, 0, 0, 0, 0,
      1, 1, 1, 1,
      2, 2, 2, 2,
      3, 3, 4, 4, 5, 5, 6, 6, 7]"

definition CHIMP_IDX_TO_LEADING :: "nat list" where
  "CHIMP_IDX_TO_LEADING = [0, 8, 12, 16, 18, 20, 22, 24]"

definition CHIMP_NO_PREV_LEADING :: nat where
  "CHIMP_NO_PREV_LEADING = 65"

definition CHIMP_TRAIL_THRESH :: nat where
  "CHIMP_TRAIL_THRESH = 7"

section \<open>Windows\<close>

text \<open>The stripped window: 3 bits of table index, 6 bits of length (0 for 64), the significant bits.\<close>

definition put_window :: "tsdb_bw \<Rightarrow> nat \<Rightarrow> u64 \<Rightarrow> nat \<Rightarrow> tsdb_bw" where
  "put_window bw lead_idx sig sig_len =
     (let stored_len = (if sig_len = 64 then 0 else sig_len)
      in bw_put_safe (tsdb_bw_put (tsdb_bw_put bw (of_nat lead_idx) 3) (of_nat stored_len) 6) sig sig_len)"

definition get_window :: "nat list \<Rightarrow> tsdb_br \<Rightarrow> tsdb_err + u64 \<times> nat \<times> tsdb_br" where
  "get_window idx_to_leading br =
     (case tsdb_br_get br 3 of (lead_idx, br) \<Rightarrow> case tsdb_br_get br 6 of (stored_len, br) \<Rightarrow>
      let lead_round = idx_to_leading ! unat (lead_idx AND 7);
          sig_len = (if unat stored_len = 0 then 64 else unat stored_len);
          ctz = 64 - lead_round - sig_len
      in if lead_round + sig_len > 64 then Inl TSDB_ERR_CORRUPT
         else case br_get_safe br sig_len of (sig, br) \<Rightarrow> Inr (push_bit ctz sig, lead_round, br))"

text \<open>The unstripped window: 3 bits of table index, all bits below the leading zeros.\<close>

definition get_full :: "nat list \<Rightarrow> tsdb_br \<Rightarrow> tsdb_err + u64 \<times> nat \<times> tsdb_br" where
  "get_full idx_to_leading br =
     (case tsdb_br_get br 3 of (lead_idx, br) \<Rightarrow>
      let lead_round = idx_to_leading ! unat (lead_idx AND 7)
      in case br_get_safe br (64 - lead_round) of (x, br) \<Rightarrow> Inr (x, lead_round, br))"

section \<open>Encoder\<close>

record chimp_st =
  ch_prev_u :: u64
  ch_prev_leading :: nat

definition chimp_init :: "u64 \<Rightarrow> chimp_st" where
  "chimp_init u0 = \<lparr>ch_prev_u = u0, ch_prev_leading = CHIMP_NO_PREV_LEADING\<rparr>"

definition chimp_enc_step :: "chimp_st \<Rightarrow> tsdb_bw \<Rightarrow> f64 \<Rightarrow> tsdb_err + chimp_st \<times> tsdb_bw" where
  "chimp_enc_step s0 bw cur_u =
     (let xor_val = cur_u XOR ch_prev_u s0;
          s = s0\<lparr>ch_prev_u := cur_u\<rparr>
      in if xor_val = 0 then Inr (s, tsdb_bw_put bw 0 2)
         else let clz = tsdb_clz64 xor_val;
                  ctz = tsdb_ctz64 xor_val;
                  lead_round = CHIMP_LEADING_ROUND ! (if clz < 65 then clz else 64);
                  lead_idx = CHIMP_LEADING_IDX ! lead_round
              in if ctz \<ge> CHIMP_TRAIL_THRESH
                 then let sig_len = 64 - lead_round - ctz
                      in Inr (s\<lparr>ch_prev_leading := CHIMP_NO_PREV_LEADING\<rparr>,
                              put_window (tsdb_bw_put bw 1 2) lead_idx (drop_bit ctz xor_val) sig_len)
                 else if ch_prev_leading s \<noteq> CHIMP_NO_PREV_LEADING \<and> lead_round = ch_prev_leading s
                 then Inr (s, bw_put_safe (tsdb_bw_put bw 2 2) xor_val (64 - ch_prev_leading s))
                 else Inr (s\<lparr>ch_prev_leading := lead_round\<rparr>,
                           bw_put_safe (tsdb_bw_put (tsdb_bw_put bw 3 2) (of_nat lead_idx) 3) xor_val (64 - lead_round)))"

definition tsdb_chimp_encode :: "f64 list \<Rightarrow> nat \<Rightarrow> tsdb_err + u8 list" where
  "tsdb_chimp_encode = float_encode chimp_enc_step chimp_init"

section \<open>Decoder\<close>

definition chimp_get :: "nat \<Rightarrow> tsdb_br \<Rightarrow> tsdb_err + u64 \<times> nat \<times> tsdb_br" where
  "chimp_get prev_leading br =
     (case tsdb_br_get br 2 of (flag, br) \<Rightarrow>
        if flag = 0 then Inr (0, prev_leading, br)
        else if flag = 1 then res_bind (get_window CHIMP_IDX_TO_LEADING br) (\<lambda>(x, lead_round, br).
               Inr (x, CHIMP_NO_PREV_LEADING, br))
        else if flag = 2
        then if prev_leading = CHIMP_NO_PREV_LEADING then Inl TSDB_ERR_CORRUPT
             else (case br_get_safe br (64 - prev_leading) of (x, br) \<Rightarrow> Inr (x, prev_leading, br))
        else if flag = 3 then get_full CHIMP_IDX_TO_LEADING br
        else Inl TSDB_ERR_CORRUPT)"

definition chimp_dec_step :: "chimp_st \<Rightarrow> tsdb_br \<Rightarrow> tsdb_err + f64 \<times> chimp_st \<times> tsdb_br" where
  "chimp_dec_step d br =
     res_bind (chimp_get (ch_prev_leading d) br) (\<lambda>(xor_val, prev_leading, br').
       if br_underflow br' then Inl TSDB_ERR_CORRUPT
       else let cur_u = ch_prev_u d XOR xor_val
            in Inr (cur_u, \<lparr>ch_prev_u = cur_u, ch_prev_leading = prev_leading\<rparr>, br'))"

definition tsdb_chimp_decode :: "u8 list \<Rightarrow> nat \<Rightarrow> tsdb_err + f64 list" where
  "tsdb_chimp_decode = float_decode chimp_dec_step chimp_init"

section \<open>The tables\<close>

text \<open>
  What the codec needs of them: rounding never exceeds the true count, and the index recovers the
  rounded count.
\<close>

definition lead_tables_ok :: "nat list \<Rightarrow> nat list \<Rightarrow> nat list \<Rightarrow> bool" where
  "lead_tables_ok round_tbl idx_tbl inv_tbl \<longleftrightarrow>
     list_all (\<lambda>c. round_tbl ! c \<le> c \<and> round_tbl ! c \<le> 24 \<and> idx_tbl ! (round_tbl ! c) < 8 \<and>
       inv_tbl ! (idx_tbl ! (round_tbl ! c)) = round_tbl ! c) [0..<65]"

lemma lead_tables_okD:
  assumes "lead_tables_ok round_tbl idx_tbl inv_tbl" and "c < 65"
  shows "round_tbl ! c \<le> c" and "round_tbl ! c \<le> 24" and "idx_tbl ! (round_tbl ! c) < 8"
    and "inv_tbl ! (idx_tbl ! (round_tbl ! c)) = round_tbl ! c"
  using assms by (auto simp: lead_tables_ok_def list_all_iff)

lemma chimp_tables_ok: "lead_tables_ok CHIMP_LEADING_ROUND CHIMP_LEADING_IDX CHIMP_IDX_TO_LEADING"
  by code_simp

section \<open>Reading windows back\<close>

lemma and_7_small: "k < 8 \<Longrightarrow> unat ((of_nat k :: u64) AND 7) = k"
  using and_exp_minus_1 [of "of_nat k :: u64" 3] of_nat_fits [of k 3] unat_of_nat_fits [of k 3] by simp

lemma lead_fits: "X \<noteq> 0 \<Longrightarrow> l \<le> tsdb_clz64 X \<Longrightarrow> take_bit (64 - l) X = X"
  using window_restore [of X l 0 "64 - l"] by simp

lemma put_window_writes:
  assumes "sig_len \<le> 64"
  shows "bw_writes bw (bits_of 3 (of_nat idx :: u64) @ bits_of 6 (of_nat (if sig_len = 64 then 0 else sig_len) :: u64)
    @ bits_of sig_len sig) (put_window bw idx sig sig_len)"
proof -
  have "bw_writes bw ((bits_of 3 (of_nat idx :: u64) @ bits_of 6 (of_nat (if sig_len = 64 then 0 else sig_len) :: u64))
      @ bits_of sig_len sig) (put_window bw idx sig sig_len)"
    unfolding put_window_def Let_def
    using assms by (intro bw_writes_trans [OF bw_writes_trans [OF bw_writes_put bw_writes_put] bw_writes_put_safe]) auto
  then show ?thesis by simp
qed

lemma get_window_reads:
  assumes "br_ahead r (bits_of 3 (of_nat idx :: u64) @ bits_of 6 (of_nat (if m = 64 then 0 else m) :: u64)
      @ bits_of m (drop_bit t X) @ rest)"
    and "idx < 8" and "tbl ! idx = l" and "m = 64 - l - t"
    and "X \<noteq> 0" and "l \<le> tsdb_clz64 X" and "t \<le> tsdb_ctz64 X"
  obtains r' where "get_window tbl r = Inr (X, l, r')" and "br_ahead r' rest"
proof -
  define sl where "sl = (if m = 64 then 0 else m)"
  have lt: "l + t < 64" using clz_ctz_bound [OF assms(5)] assms(6,7) by linarith
  then have m: "m \<le> 64" "0 < m" "l + m \<le> 64" "64 - l - m = t" "(if sl = 0 then 64 else sl) = m"
    using assms(4) by (auto simp: sl_def)
  have small: "idx < 2 ^ 3" "sl < 2 ^ 6" using assms(2) m(1) by (auto simp: sl_def)
  have X: "push_bit t (take_bit m (drop_bit t X)) = X" using window_restore assms(4-) by blast
  obtain r1 where r1: "tsdb_br_get r 3 = (of_nat idx, r1)"
    "br_ahead r1 (bits_of 6 (of_nat sl :: u64) @ bits_of m (drop_bit t X) @ rest)"
    using br_get_count [OF assms(1) small(1)] by (auto simp: sl_def)
  obtain r2 where r2: "tsdb_br_get r1 6 = (of_nat sl, r2)" "unat (of_nat sl :: u64) = sl"
    "br_ahead r2 (bits_of m (drop_bit t X) @ rest)"
    using br_get_count [OF r1(2) small(2)] by auto
  obtain r3 where r3: "br_get_safe r2 m = (take_bit m (drop_bit t X), r3)" "br_ahead r3 rest"
    using br_get_safe_field [OF r2(3) m(1)] .
  have "get_window tbl r = Inr (X, l, r3)"
    unfolding get_window_def Let_def r1(1) r2(1) prod.case and_7_small [OF assms(2)] assms(3) r2(2) m(5)
    using m r3(1) X by simp
  then show thesis using that r3(2) by blast
qed

lemma get_full_reads:
  assumes "br_ahead r (bits_of 3 (of_nat idx :: u64) @ bits_of (64 - l) X @ rest)"
    and "idx < 8" and "tbl ! idx = l" and "X \<noteq> 0" and "l \<le> tsdb_clz64 X"
  obtains r' where "get_full tbl r = Inr (X, l, r')" and "br_ahead r' rest"
proof -
  obtain r1 where r1: "tsdb_br_get r 3 = (of_nat idx, r1)" "br_ahead r1 (bits_of (64 - l) X @ rest)"
    using br_get_count [OF assms(1)] assms(2) by auto
  obtain r2 where r2: "br_get_safe r1 (64 - l) = (X, r2)" "br_ahead r2 rest"
    using br_get_safe_field [OF r1(2)] lead_fits [OF assms(4,5)] by auto
  have "get_full tbl r = Inr (X, l, r2)"
    by (simp add: get_full_def r1(1) and_7_small [OF assms(2)] assms(3) r2(1))
  then show thesis using that r2(2) by blast
qed

section \<open>One value\<close>

text \<open>Reading back each of the four codes.\<close>

lemma br_get_prefix:
  assumes "br_ahead r ((bits_of n f @ bs) @ rest)" and "take_bit n f = f" and "n \<le> 57"
  obtains r' where "tsdb_br_get r n = (f, r')" and "br_ahead r' (bs @ rest)"
  by (rule br_get_field [of r n f "bs @ rest"]) (use assms that in simp_all)

lemma chimp_get_repeat:
  assumes "br_ahead r (bits_of 2 (0 :: u64) @ rest)"
  shows "\<exists>r'. chimp_get pl r = Inr (0, pl, r') \<and> br_ahead r' rest"
proof -
  obtain r' where "tsdb_br_get r 2 = (0, r')" "br_ahead r' rest" using br_get_field [OF assms] by auto
  then show ?thesis by (simp add: chimp_get_def)
qed

lemma chimp_get_strip:
  assumes "br_ahead r ((bits_of 2 (1 :: u64) @ bits_of 3 (of_nat i :: u64)
      @ bits_of 6 (of_nat (if m = 64 then 0 else m) :: u64) @ bits_of m (drop_bit t X)) @ rest)"
    and "i < 8" and "CHIMP_IDX_TO_LEADING ! i = l" and "m = 64 - l - t"
    and "X \<noteq> 0" and "l \<le> tsdb_clz64 X" and "t \<le> tsdb_ctz64 X"
  shows "\<exists>r'. chimp_get pl r = Inr (X, CHIMP_NO_PREV_LEADING, r') \<and> br_ahead r' rest"
proof -
  obtain r1 where r1: "tsdb_br_get r 2 = (1, r1)" "br_ahead r1 (bits_of 3 (of_nat i :: u64)
      @ bits_of 6 (of_nat (if m = 64 then 0 else m) :: u64) @ bits_of m (drop_bit t X) @ rest)"
    using br_get_prefix [OF assms(1)] by auto
  obtain r2 where "get_window CHIMP_IDX_TO_LEADING r1 = Inr (X, l, r2)" "br_ahead r2 rest"
    using get_window_reads [OF r1(2) assms(2-)] .
  then show ?thesis using r1(1) by (simp add: chimp_get_def)
qed

lemma chimp_get_reuse:
  assumes "br_ahead r ((bits_of 2 (2 :: u64) @ bits_of (64 - l) X) @ rest)"
    and "X \<noteq> 0" and "l \<le> tsdb_clz64 X" and "l \<noteq> CHIMP_NO_PREV_LEADING"
  shows "\<exists>r'. chimp_get l r = Inr (X, l, r') \<and> br_ahead r' rest"
proof -
  obtain r1 where r1: "tsdb_br_get r 2 = (2, r1)" "br_ahead r1 (bits_of (64 - l) X @ rest)"
    using br_get_prefix [OF assms(1)] by auto
  obtain r2 where "br_get_safe r1 (64 - l) = (X, r2)" "br_ahead r2 rest"
    using br_get_safe_field [OF r1(2)] lead_fits [OF assms(2,3)] by auto
  then show ?thesis using r1(1) assms(4) by (simp add: chimp_get_def)
qed

lemma chimp_get_new:
  assumes "br_ahead r ((bits_of 2 (3 :: u64) @ bits_of 3 (of_nat i :: u64) @ bits_of (64 - l) X) @ rest)"
    and "i < 8" and "CHIMP_IDX_TO_LEADING ! i = l" and "X \<noteq> 0" and "l \<le> tsdb_clz64 X"
  shows "\<exists>r'. chimp_get pl r = Inr (X, l, r') \<and> br_ahead r' rest"
proof -
  obtain r1 where r1: "tsdb_br_get r 2 = (3, r1)" "br_ahead r1 (bits_of 3 (of_nat i :: u64) @ bits_of (64 - l) X @ rest)"
    using br_get_prefix [OF assms(1)] by auto
  obtain r2 where "get_full CHIMP_IDX_TO_LEADING r1 = Inr (X, l, r2)" "br_ahead r2 rest"
    using get_full_reads [OF r1(2) assms(2-)] .
  then show ?thesis using r1(1) by (simp add: chimp_get_def)
qed

definition chimp_rel :: "chimp_st \<Rightarrow> chimp_st \<Rightarrow> bool" where
  "chimp_rel s d \<longleftrightarrow> s = d"

lemma chimp_stepI:
  assumes "bw_writes w bs w'"
    and "\<And>r rest. br_ahead r (bs @ rest) \<Longrightarrow>
      \<exists>r'. chimp_get (ch_prev_leading d) r = Inr (x XOR ch_prev_u d, pl, r') \<and> br_ahead r' rest"
    and "length bs \<le> 75" and "s' = \<lparr>ch_prev_u = x, ch_prev_leading = pl\<rparr>"
  shows "\<exists>bs d'. bw_writes w bs w' \<and> length bs \<le> 75 \<and> chimp_rel s' d' \<and>
    (\<forall>r rest. br_ahead r (bs @ rest) \<longrightarrow> (\<exists>r'. chimp_dec_step d r = Inr (x, d', r') \<and> br_ahead r' rest))"
proof (rule exI [of _ bs], rule exI [of _ s'], intro conjI allI impI)
  fix r rest assume "br_ahead r (bs @ rest)"
  then obtain r' where "chimp_get (ch_prev_leading d) r = Inr (x XOR ch_prev_u d, pl, r')" "br_ahead r' rest"
    using assms(2) by blast
  moreover have "ch_prev_u d XOR (x XOR ch_prev_u d) = x" by (simp add: xor.left_commute)
  ultimately show "\<exists>r'. chimp_dec_step d r = Inr (x, s', r') \<and> br_ahead r' rest"
    by (simp add: chimp_dec_step_def Let_def br_ahead_def assms(4))
qed (use assms in \<open>auto simp: chimp_rel_def\<close>)

lemma chimp_step_inverse:
  assumes "chimp_enc_step s w x = Inr (s', w')" and "chimp_rel s d"
  shows "\<exists>bs d'. bw_writes w bs w' \<and> length bs \<le> 75 \<and> chimp_rel s' d' \<and>
    (\<forall>r rest. br_ahead r (bs @ rest) \<longrightarrow> (\<exists>r'. chimp_dec_step d r = Inr (x, d', r') \<and> br_ahead r' rest))"
proof -
  define X where "X = x XOR ch_prev_u s"
  define t l where "t = tsdb_ctz64 X"
    and "l = CHIMP_LEADING_ROUND ! (if tsdb_clz64 X < 65 then tsdb_clz64 X else 64)"
  define i m where "i = CHIMP_LEADING_IDX ! l" and "m = 64 - l - t"
  let ?pl = "ch_prev_leading s"
  have d: "d = s" using assms(2) by (simp add: chimp_rel_def)
  have X: "x XOR ch_prev_u d = X" by (simp add: d X_def)
  have step: "Inr (s', w') =
    (if X = 0 then Inr (\<lparr>ch_prev_u = x, ch_prev_leading = ?pl\<rparr>, tsdb_bw_put w 0 2)
     else if t \<ge> CHIMP_TRAIL_THRESH
     then Inr (\<lparr>ch_prev_u = x, ch_prev_leading = CHIMP_NO_PREV_LEADING\<rparr>, put_window (tsdb_bw_put w 1 2) i (drop_bit t X) m)
     else if ?pl \<noteq> CHIMP_NO_PREV_LEADING \<and> l = ?pl
     then Inr (\<lparr>ch_prev_u = x, ch_prev_leading = ?pl\<rparr>, bw_put_safe (tsdb_bw_put w 2 2) X (64 - ?pl))
     else Inr (\<lparr>ch_prev_u = x, ch_prev_leading = l\<rparr>,
       bw_put_safe (tsdb_bw_put (tsdb_bw_put w 3 2) (of_nat i) 3) X (64 - l)) :: tsdb_err + chimp_st \<times> tsdb_bw)"
    using assms(1) unfolding chimp_enc_step_def Let_def X_def [symmetric] t_def [symmetric] l_def [symmetric]
      i_def [symmetric] m_def [symmetric] by (cases s) (auto split: if_splits)
  consider (repeat) "X = 0" | (strip) "X \<noteq> 0" "t \<ge> CHIMP_TRAIL_THRESH"
    | (reuse) "X \<noteq> 0" "\<not> t \<ge> CHIMP_TRAIL_THRESH" "?pl \<noteq> CHIMP_NO_PREV_LEADING" "l = ?pl"
    | (new) "X \<noteq> 0" "\<not> t \<ge> CHIMP_TRAIL_THRESH" "\<not> (?pl \<noteq> CHIMP_NO_PREV_LEADING \<and> l = ?pl)" by blast
  moreover have l: "l \<le> tsdb_clz64 X" "i < 8" "CHIMP_IDX_TO_LEADING ! i = l" if "X \<noteq> 0"
    using lead_tables_okD [OF chimp_tables_ok, of "tsdb_clz64 X"] tsdb_clz64_spec(1) [OF that]
    by (simp_all add: l_def i_def)
  ultimately show ?thesis
  proof cases
    case repeat
    then have s': "s' = \<lparr>ch_prev_u = x, ch_prev_leading = ?pl\<rparr>" and w': "w' = tsdb_bw_put w 0 2"
      using step by simp_all
    have pl: "ch_prev_leading d = ?pl" by (simp add: d)
    have len: "length (bits_of 2 (0 :: u64)) \<le> 75" by simp
    have "bw_writes w (bits_of 2 (0 :: u64)) w'" unfolding w' by (rule bw_writes_put) simp
    then show ?thesis
      by (rule chimp_stepI [OF _ _ len s']) (unfold X repeat pl, erule chimp_get_repeat)
  next
    case strip
    let ?bs = "bits_of 2 (1 :: u64) @ bits_of 3 (of_nat i :: u64)
      @ bits_of 6 (of_nat (if m = 64 then 0 else m) :: u64) @ bits_of m (drop_bit t X)"
    from strip have s': "s' = \<lparr>ch_prev_u = x, ch_prev_leading = CHIMP_NO_PREV_LEADING\<rparr>"
      and w': "w' = put_window (tsdb_bw_put w 1 2) i (drop_bit t X) m"
      using step by simp_all
    have len: "length ?bs \<le> 75" by (simp add: m_def)
    have "bw_writes w ?bs w'"
      unfolding w' by (intro bw_writes_trans [OF bw_writes_put put_window_writes]) (simp_all add: m_def)
    then show ?thesis
      by (rule chimp_stepI [OF _ _ len s'])
        (unfold X, erule chimp_get_strip [OF _ l(2,3) m_def _ l(1)], use strip in \<open>simp_all add: t_def\<close>)
  next
    case reuse
    let ?bs = "bits_of 2 (2 :: u64) @ bits_of (64 - l) X"
    from reuse have s': "s' = \<lparr>ch_prev_u = x, ch_prev_leading = l\<rparr>"
      and w': "w' = bw_put_safe (tsdb_bw_put w 2 2) X (64 - l)" and pl: "ch_prev_leading d = l"
      using step d by simp_all
    have len: "length ?bs \<le> 75" by simp
    have "bw_writes w ?bs w'"
      unfolding w' by (intro bw_writes_trans [OF bw_writes_put bw_writes_put_safe]) simp_all
    then show ?thesis
      by (rule chimp_stepI [OF _ _ len s'])
        (unfold X pl, erule chimp_get_reuse [OF _ _ l(1)], use reuse in simp_all)
  next
    case new
    let ?bs = "bits_of 2 (3 :: u64) @ bits_of 3 (of_nat i :: u64) @ bits_of (64 - l) X"
    from new have s': "s' = \<lparr>ch_prev_u = x, ch_prev_leading = l\<rparr>"
      and w': "w' = bw_put_safe (tsdb_bw_put (tsdb_bw_put w 3 2) (of_nat i) 3) X (64 - l)"
      using step by auto
    have len: "length ?bs \<le> 75" by simp
    have "bw_writes w ((bits_of 2 (3 :: u64) @ bits_of 3 (of_nat i :: u64)) @ bits_of (64 - l) X) w'" unfolding w'
      by (intro bw_writes_trans [OF bw_writes_trans [OF bw_writes_put bw_writes_put] bw_writes_put_safe]) simp_all
    then have "bw_writes w ?bs w'" by simp
    then show ?thesis
      by (rule chimp_stepI [OF _ _ len s'])
        (unfold X, erule chimp_get_new [OF _ l(2,3) _ l(1)], use new in simp_all)
  qed
qed

section \<open>Whole columns\<close>

text \<open>A value takes at most \<open>2 + 3 + 6 + 64\<close> bits.\<close>

interpretation chimp: float_codec chimp_enc_step chimp_dec_step chimp_rel 75 chimp_init chimp_init
proof unfold_locales
  show "chimp_rel (chimp_init u) (chimp_init u)" for u by (simp add: chimp_rel_def)
  show "\<exists>y. chimp_enc_step s w x = Inr y" for s w x
    by (simp add: chimp_enc_step_def Let_def)
qed (rule chimp_step_inverse)

section \<open>Properties of the Chimp codec\<close>

text \<open>C4: Chimp is lossless on every list of bit patterns: with room for 75 bits per value behind the
  first, \<^verbatim>\<open>tsdb_chimp_encode\<close> succeeds; and whenever it succeeds the output stays within the capacity and
  \<^verbatim>\<open>tsdb_chimp_decode\<close> restores the values bit for bit, whatever bytes follow.\<close>

theorem chimp_lossless:
  "(8 + (length xs * 75 + 7) div 8 \<le> cap \<longrightarrow> (\<exists>bytes. tsdb_chimp_encode xs cap = Inr bytes)) \<and>
   (tsdb_chimp_encode xs cap = Inr bytes \<longrightarrow>
      length bytes \<le> cap \<and> tsdb_chimp_decode (bytes @ junk) (length xs) = Inr xs)"
  unfolding tsdb_chimp_encode_def tsdb_chimp_decode_def
  by (intro conjI impI chimp.float_encode_total chimp.float_round_trip chimp.float_encode_size(1))

theorem chimp_lossless_witness:
  "\<exists>bytes. tsdb_chimp_encode [0x3FF8000000000000, 0x3FF8000000000000, 0x4004000000000001] 64 = Inr bytes
     \<and> length bytes \<le> 64
     \<and> tsdb_chimp_decode (bytes @ [7]) 3 = Inr [0x3FF8000000000000, 0x3FF8000000000000, 0x4004000000000001]"
proof -
  let ?xs = "[0x3FF8000000000000, 0x3FF8000000000000, 0x4004000000000001 :: f64]"
  obtain bytes where b: "tsdb_chimp_encode ?xs 64 = Inr bytes" using chimp_lossless [of ?xs 64] by auto
  have "length ?xs = 3" by simp
  then show ?thesis using b chimp_lossless [of ?xs 64 bytes "[7]"] by metis
qed

end
