(* ===== verification/Codec_Chimp128.thy ===== *)
theory Codec_Chimp128
  imports Codec_Chimp
begin

text \<open>
  Model of \<^verbatim>\<open>src/compress/chimp128.c\<close>. The ring is the list of its 128 slots; the hash index
  \<^verbatim>\<open>int16_t index_map[16384]\<close> is a function on the masked hash, with -1 for an unused entry. The costs
  are natural numbers: they are only formed where the \<^verbatim>\<open>unsigned\<close> differences do not wrap.
\<close>

section \<open>Tables and constants\<close>

definition C128_LEADING_ROUND :: "nat list" where
  "C128_LEADING_ROUND =
     [0, 0, 0, 0, 0, 0, 0, 0,
      8, 8, 8, 8,
      12, 12, 12, 12,
      16, 16,
      18, 18,
      20, 20,
      22, 22,
      24, 24, 24, 24, 24, 24, 24, 24,
      24, 24, 24, 24, 24, 24, 24, 24,
      24, 24, 24, 24, 24, 24, 24, 24,
      24, 24, 24, 24, 24, 24, 24, 24,
      24, 24, 24, 24, 24, 24, 24, 24,
      24]"

definition C128_LEADING_IDX :: "nat list" where
  "C128_LEADING_IDX =
     [0, 0, 0, 0, 0, 0, 0, 0,
      1, 1, 1, 1,
      2, 2, 2, 2,
      3, 3,
      4, 4,
      5, 5,
      6, 6,
      7]"

definition C128_IDX_TO_LEADING :: "nat list" where
  "C128_IDX_TO_LEADING = [0, 8, 12, 16, 18, 20, 22, 24]"

definition C128_NO_PREV_LEADING :: nat where
  "C128_NO_PREV_LEADING = 65"

definition C128_TRAIL_THRESH :: nat where
  "C128_TRAIL_THRESH = 7"

definition c128_hash :: "u64 \<Rightarrow> nat" where
  "c128_hash bits = unat (drop_bit 50 bits AND (16384 - 1))"

section \<open>The ring\<close>

record c128_ring =
  ring :: "u64 list"
  index_map :: "nat \<Rightarrow> int"
  write_pos :: nat

definition c128_ring_init :: c128_ring where
  "c128_ring_init = \<lparr>ring = replicate 128 0, index_map = (\<lambda>_. - 1), write_pos = 0\<rparr>"

definition c128_ring_update :: "c128_ring \<Rightarrow> u64 \<Rightarrow> c128_ring" where
  "c128_ring_update s bits =
     \<lparr>ring = (ring s)[write_pos s := bits],
      index_map = (index_map s)(c128_hash bits := int (write_pos s)),
      write_pos = (write_pos s + 1) mod 128\<rparr>"

section \<open>Costs\<close>

definition c128_lead_round :: "u64 \<Rightarrow> nat" where
  "c128_lead_round x = (let clz = tsdb_clz64 x in C128_LEADING_ROUND ! (if clz < 65 then clz else 64))"

definition cost_prev_reuse :: "nat \<Rightarrow> nat" where
  "cost_prev_reuse prev_leading = 3 + (64 - prev_leading)"

definition cost_prev_new :: "nat \<Rightarrow> nat" where
  "cost_prev_new lead_round = 3 + 3 + (64 - lead_round)"

definition cost_prev_strip :: "nat \<Rightarrow> nat \<Rightarrow> nat" where
  "cost_prev_strip lead_round ctz = 3 + 3 + 6 + (64 - lead_round - ctz)"

definition cost_best_prev :: "u64 \<Rightarrow> nat \<Rightarrow> nat" where
  "cost_best_prev xor_val prev_leading =
     (let ctz = tsdb_ctz64 xor_val;
          lead_round = c128_lead_round xor_val;
          best = cost_prev_new lead_round;
          best = (if ctz \<ge> C128_TRAIL_THRESH
                  then let c = cost_prev_strip lead_round ctz in if c < best then c else best
                  else best)
      in if prev_leading \<noteq> C128_NO_PREV_LEADING \<and> lead_round = prev_leading
         then let c = cost_prev_reuse prev_leading in if c < best then c else best
         else best)"

definition cost_ring_new :: "nat \<Rightarrow> nat \<Rightarrow> nat" where
  "cost_ring_new lead_round ctz =
     (let sig_len = (if ctz \<ge> C128_TRAIL_THRESH then 64 - lead_round - ctz else 64 - lead_round)
      in 3 + 7 + 3 + 6 + sig_len)"

definition cost_ring_reuse :: "nat \<Rightarrow> nat" where
  "cost_ring_reuse prev_leading = 3 + 7 + (64 - prev_leading)"

definition cost_best_ring :: "u64 \<Rightarrow> nat \<Rightarrow> nat" where
  "cost_best_ring xor_val prev_leading =
     (let ctz = tsdb_ctz64 xor_val;
          lead_round = c128_lead_round xor_val;
          best = cost_ring_new lead_round ctz
      in if prev_leading \<noteq> C128_NO_PREV_LEADING \<and> lead_round = prev_leading
         then let c = cost_ring_reuse prev_leading in if c < best then c else best
         else best)"

section \<open>Encoder\<close>

record c128_st =
  c_ring :: c128_ring
  c_prev_u :: u64
  c_prev_leading :: nat

definition c128_init :: "u64 \<Rightarrow> c128_st" where
  "c128_init u0 =
     \<lparr>c_ring = c128_ring_update c128_ring_init u0, c_prev_u = u0, c_prev_leading = C128_NO_PREV_LEADING\<rparr>"

text \<open>
  The ring reference to use, if any (\<^verbatim>\<open>use_ring\<close>): its index, the XOR against it, and whether the
  previous leading count is reused (\<^verbatim>\<open>ring_reuse\<close>).
\<close>

definition c128_ring_choice :: "c128_ring \<Rightarrow> u64 \<Rightarrow> u64 \<Rightarrow> nat \<Rightarrow> (nat \<times> u64 \<times> bool) option" where
  "c128_ring_choice rg cur_u xor_prev prev_leading =
     (let ri_raw = index_map rg (c128_hash cur_u)
      in if ri_raw \<ge> 0
         then let ring_idx = nat ri_raw mod 128;
                  xor_ring = cur_u XOR ring rg ! ring_idx
              in if xor_ring \<noteq> 0 \<and> cost_best_ring xor_ring prev_leading < cost_best_prev xor_prev prev_leading
                 then let ctz_r = tsdb_ctz64 xor_ring;
                          lead_r = c128_lead_round xor_ring
                      in Some (ring_idx, xor_ring,
                           prev_leading \<noteq> C128_NO_PREV_LEADING \<and> lead_r = prev_leading \<and>
                           cost_ring_reuse prev_leading \<le> cost_ring_new lead_r ctz_r)
                 else None
         else None)"

text \<open>Each writer returns the new \<^verbatim>\<open>prev_leading\<close> and the bit writer.\<close>

definition c128_put_ring :: "tsdb_bw \<Rightarrow> nat \<Rightarrow> nat \<Rightarrow> u64 \<Rightarrow> bool \<Rightarrow> nat \<times> tsdb_bw" where
  "c128_put_ring bw prev_leading ring_idx xor_ring ring_reuse =
     (if ring_reuse
      then (prev_leading,
            bw_put_safe (tsdb_bw_put (tsdb_bw_put bw 2 3) (of_nat ring_idx) 7) xor_ring (64 - prev_leading))
      else let ctz_r = tsdb_ctz64 xor_ring;
               lead_r = c128_lead_round xor_ring;
               stored_ctz2 = (if ctz_r \<ge> C128_TRAIL_THRESH then ctz_r else 0);
               sig_len = 64 - lead_r - stored_ctz2
           in (lead_r,
               put_window (tsdb_bw_put (tsdb_bw_put bw 1 3) (of_nat ring_idx) 7) (C128_LEADING_IDX ! lead_r)
                 (drop_bit stored_ctz2 xor_ring) sig_len))"

definition c128_put_new :: "tsdb_bw \<Rightarrow> nat \<Rightarrow> u64 \<Rightarrow> nat \<times> tsdb_bw" where
  "c128_put_new bw lead_p xor_prev =
     (lead_p, bw_put_safe (tsdb_bw_put (tsdb_bw_put bw 3 3) (of_nat (C128_LEADING_IDX ! lead_p)) 3) xor_prev (64 - lead_p))"

definition c128_put_reuse :: "tsdb_bw \<Rightarrow> nat \<Rightarrow> u64 \<Rightarrow> nat \<times> tsdb_bw" where
  "c128_put_reuse bw prev_leading xor_prev =
     (prev_leading, bw_put_safe (tsdb_bw_put bw 6 3) xor_prev (64 - prev_leading))"

definition c128_put_prev :: "tsdb_bw \<Rightarrow> nat \<Rightarrow> u64 \<Rightarrow> nat \<times> tsdb_bw" where
  "c128_put_prev bw prev_leading xor_prev =
     (let ctz_p = tsdb_ctz64 xor_prev;
          lead_p = c128_lead_round xor_prev;
          can_reuse = (prev_leading \<noteq> C128_NO_PREV_LEADING \<and> lead_p = prev_leading)
      in if ctz_p \<ge> C128_TRAIL_THRESH
         then let cost_strip = cost_prev_strip lead_p ctz_p;
                  cost_new = cost_prev_new lead_p;
                  cost_reuse = (if can_reuse then cost_prev_reuse prev_leading else 2 ^ 32 - 1)
              in if cost_strip \<le> cost_new \<and> cost_strip \<le> cost_reuse
                 then (lead_p, put_window (tsdb_bw_put bw 5 3) (C128_LEADING_IDX ! lead_p)
                        (drop_bit ctz_p xor_prev) (64 - lead_p - ctz_p))
                 else if can_reuse \<and> cost_reuse < cost_new then c128_put_reuse bw prev_leading xor_prev
                 else c128_put_new bw lead_p xor_prev
         else if can_reuse then c128_put_reuse bw prev_leading xor_prev
         else c128_put_new bw lead_p xor_prev)"

definition c128_enc_step :: "c128_st \<Rightarrow> tsdb_bw \<Rightarrow> f64 \<Rightarrow> tsdb_err + c128_st \<times> tsdb_bw" where
  "c128_enc_step s bw cur_u =
     (let xor_prev = cur_u XOR c_prev_u s;
          (prev_leading, bw') =
            (if xor_prev = 0 then (C128_NO_PREV_LEADING, tsdb_bw_put bw 0 2)
             else case c128_ring_choice (c_ring s) cur_u xor_prev (c_prev_leading s) of
                    Some (ring_idx, xor_ring, ring_reuse) \<Rightarrow>
                      c128_put_ring bw (c_prev_leading s) ring_idx xor_ring ring_reuse
                  | None \<Rightarrow> c128_put_prev bw (c_prev_leading s) xor_prev)
      in Inr (\<lparr>c_ring = c128_ring_update (c_ring s) cur_u, c_prev_u = cur_u, c_prev_leading = prev_leading\<rparr>, bw'))"

definition tsdb_chimp128_encode :: "f64 list \<Rightarrow> nat \<Rightarrow> tsdb_err + u8 list" where
  "tsdb_chimp128_encode = float_encode c128_enc_step c128_init"

section \<open>Decoder\<close>

text \<open>The \<^verbatim>\<open>switch\<close> on the flag: the value, the new \<^verbatim>\<open>prev_leading\<close> and the bit reader.\<close>

definition c128_switch :: "c128_st \<Rightarrow> u64 \<Rightarrow> tsdb_br \<Rightarrow> tsdb_err + u64 \<times> nat \<times> tsdb_br" where
  "c128_switch d flag br =
     (if flag = 1
      then (case tsdb_br_get br 7 of (ring_idx, br) \<Rightarrow>
              res_bind (get_window C128_IDX_TO_LEADING br) (\<lambda>(xor_val, lead_round, br).
                Inr (ring (c_ring d) ! unat (ring_idx AND (128 - 1)) XOR xor_val, lead_round, br)))
      else if flag = 2
      then if c_prev_leading d = C128_NO_PREV_LEADING then Inl TSDB_ERR_CORRUPT
           else (case tsdb_br_get br 7 of (ring_idx, br) \<Rightarrow>
                 case br_get_safe br (64 - c_prev_leading d) of (xor_val, br) \<Rightarrow>
                   Inr (ring (c_ring d) ! unat (ring_idx AND (128 - 1)) XOR xor_val, c_prev_leading d, br))
      else if flag = 3
      then res_bind (get_full C128_IDX_TO_LEADING br) (\<lambda>(xor_val, lead_round, br).
             Inr (c_prev_u d XOR xor_val, lead_round, br))
      else if flag = 5
      then res_bind (get_window C128_IDX_TO_LEADING br) (\<lambda>(xor_val, lead_round, br).
             Inr (c_prev_u d XOR xor_val, lead_round, br))
      else if flag = 6
      then if c_prev_leading d = C128_NO_PREV_LEADING then Inl TSDB_ERR_CORRUPT
           else (case br_get_safe br (64 - c_prev_leading d) of (xor_val, br) \<Rightarrow>
                   Inr (c_prev_u d XOR xor_val, c_prev_leading d, br))
      else Inl TSDB_ERR_CORRUPT)"

definition c128_get :: "c128_st \<Rightarrow> tsdb_br \<Rightarrow> tsdb_err + u64 \<times> nat \<times> tsdb_br" where
  "c128_get d br =
     (case tsdb_br_get br 2 of (prefix, br) \<Rightarrow>
      if prefix = 0 then Inr (c_prev_u d, C128_NO_PREV_LEADING, br)
      else case tsdb_br_get br 1 of (bit2, br) \<Rightarrow> c128_switch d (prefix OR push_bit 2 bit2) br)"

definition c128_dec_step :: "c128_st \<Rightarrow> tsdb_br \<Rightarrow> tsdb_err + f64 \<times> c128_st \<times> tsdb_br" where
  "c128_dec_step d br =
     res_bind (c128_get d br) (\<lambda>(cur_u, prev_leading, br').
       if br_underflow br' then Inl TSDB_ERR_CORRUPT
       else Inr (cur_u,
                 \<lparr>c_ring = c128_ring_update (c_ring d) cur_u, c_prev_u = cur_u, c_prev_leading = prev_leading\<rparr>, br'))"

definition tsdb_chimp128_decode :: "u8 list \<Rightarrow> nat \<Rightarrow> tsdb_err + f64 list" where
  "tsdb_chimp128_decode = float_decode c128_dec_step c128_init"

lemma c128_tables_ok: "lead_tables_ok C128_LEADING_ROUND C128_LEADING_IDX C128_IDX_TO_LEADING"
  by code_simp

lemma c128_lead:
  assumes "X \<noteq> 0"
  shows "c128_lead_round X \<le> tsdb_clz64 X" and "C128_LEADING_IDX ! c128_lead_round X < 8"
    and "C128_IDX_TO_LEADING ! (C128_LEADING_IDX ! c128_lead_round X) = c128_lead_round X"
  using lead_tables_okD [OF c128_tables_ok, of "tsdb_clz64 X"] tsdb_clz64_spec(1) [OF assms]
  by (simp_all add: c128_lead_round_def Let_def)

section \<open>Reading back each code\<close>

text \<open>A three-bit flag is read as a two-bit prefix and one more bit.\<close>

lemma br_get_flag3:
  assumes "br_ahead r ((bits_of 3 f @ bs) @ rest)" and "take_bit 3 f = f"
  obtains r1 r2 where "tsdb_br_get r 2 = (take_bit 2 f, r1)" and "tsdb_br_get r1 1 = (drop_bit 2 f, r2)"
    and "br_ahead r2 (bs @ rest)" and "take_bit 2 f OR push_bit 2 (drop_bit 2 f) = f"
proof -
  have "bits_of (2 + 1) f = bits_of 2 f @ bits_of 1 (drop_bit 2 f)" by (rule bits_of_add)
  then have "br_ahead r (bits_of 2 f @ bits_of 1 (drop_bit 2 f) @ bs @ rest)" using assms(1) by simp
  from bs64.get_ahead [OF this] obtain r1 where r1: "tsdb_br_get r 2 = (take_bit 2 f, r1)"
    "br_ahead r1 (bits_of 1 (drop_bit 2 f) @ bs @ rest)" by auto
  have "take_bit 1 (drop_bit 2 f) = drop_bit 2 f"
    using arg_cong [OF assms(2), of "drop_bit 2"] by (simp add: drop_bit_take_bit)
  then obtain r2 where "tsdb_br_get r1 1 = (drop_bit 2 f, r2)" "br_ahead r2 (bs @ rest)"
    using br_get_field [OF r1(2)] by auto
  moreover have "take_bit 2 f OR push_bit 2 (drop_bit 2 f) = f"
    by (rule take_drop_or)
  ultimately show thesis using that r1(1) by blast
qed

lemma c128_get_flag:
  assumes "br_ahead r ((bits_of 3 f @ bs) @ rest)" and "f \<in> {1, 2, 3, 5, 6}"
  obtains r' where "c128_get d r = c128_switch d f r'" and "br_ahead r' (bs @ rest)"
proof -
  have f: "take_bit 3 f = f" "take_bit 2 f \<noteq> 0" using assms(2) by auto
  obtain r1 r2 where r: "tsdb_br_get r 2 = (take_bit 2 f, r1)" "tsdb_br_get r1 1 = (drop_bit 2 f, r2)"
    "br_ahead r2 (bs @ rest)" "take_bit 2 f OR push_bit 2 (drop_bit 2 f) = f"
    using br_get_flag3 [OF assms(1) f(1)] .
  have "c128_get d r = c128_switch d f r2"
    unfolding c128_get_def r(1) prod.case if_not_P [OF f(2)] r(2) r(4) ..
  then show thesis using that r(3) by blast
qed

lemma ring_index_read:
  assumes "br_ahead r (bits_of 7 (of_nat k :: u64) @ bs)" and "k < 128"
  obtains r' where "tsdb_br_get r 7 = (of_nat k, r')" and "unat ((of_nat k :: u64) AND (128 - 1)) = k"
    and "br_ahead r' bs"
proof -
  obtain r' where r': "tsdb_br_get r 7 = (of_nat k, r')" "unat (of_nat k :: u64) = k" "br_ahead r' bs"
    using br_get_count [OF assms(1)] assms(2) by auto
  have "(of_nat k :: u64) AND (128 - 1) = of_nat k"
    using and_exp_minus_1 [of "of_nat k :: u64" 7] of_nat_fits [of k 7] assms(2) by simp
  then show thesis using that r' by simp
qed

lemma c128_get_repeat:
  assumes "br_ahead r (bits_of 2 (0 :: u64) @ rest)"
  shows "\<exists>r'. c128_get d r = Inr (c_prev_u d, C128_NO_PREV_LEADING, r') \<and> br_ahead r' rest"
proof -
  obtain r' where "tsdb_br_get r 2 = (0, r')" "br_ahead r' rest" using br_get_field [OF assms] by auto
  then show ?thesis by (simp add: c128_get_def)
qed

lemma c128_get_ring_new:
  assumes "br_ahead r ((bits_of 3 (1 :: u64) @ bits_of 7 (of_nat k :: u64) @ bits_of 3 (of_nat i :: u64)
      @ bits_of 6 (of_nat (if m = 64 then 0 else m) :: u64) @ bits_of m (drop_bit t X)) @ rest)"
    and "k < 128" and "i < 8" and "C128_IDX_TO_LEADING ! i = l" and "m = 64 - l - t"
    and "X \<noteq> 0" and "l \<le> tsdb_clz64 X" and "t \<le> tsdb_ctz64 X"
  shows "\<exists>r'. c128_get d r = Inr (ring (c_ring d) ! k XOR X, l, r') \<and> br_ahead r' rest"
proof -
  obtain r1 where get: "c128_get d r = c128_switch d 1 r1"
    and r1: "br_ahead r1 (bits_of 7 (of_nat k :: u64) @ bits_of 3 (of_nat i :: u64)
      @ bits_of 6 (of_nat (if m = 64 then 0 else m) :: u64) @ bits_of m (drop_bit t X) @ rest)"
    using c128_get_flag [OF assms(1)] by auto
  obtain r2 where r2: "tsdb_br_get r1 7 = (of_nat k, r2)" "unat ((of_nat k :: u64) AND (128 - 1)) = k"
    "br_ahead r2 (bits_of 3 (of_nat i :: u64) @ bits_of 6 (of_nat (if m = 64 then 0 else m) :: u64)
      @ bits_of m (drop_bit t X) @ rest)"
    using ring_index_read [OF r1 assms(2)] .
  obtain r3 where "get_window C128_IDX_TO_LEADING r2 = Inr (X, l, r3)" "br_ahead r3 rest"
    using get_window_reads [OF r2(3) assms(3-)] .
  then show ?thesis using r2(2) by (simp add: get c128_switch_def r2(1))
qed

lemma c128_get_ring_reuse:
  assumes "br_ahead r ((bits_of 3 (2 :: u64) @ bits_of 7 (of_nat k :: u64) @ bits_of (64 - l) X) @ rest)"
    and "k < 128" and "X \<noteq> 0" and "l \<le> tsdb_clz64 X" and "c_prev_leading d = l" and "l \<noteq> C128_NO_PREV_LEADING"
  shows "\<exists>r'. c128_get d r = Inr (ring (c_ring d) ! k XOR X, l, r') \<and> br_ahead r' rest"
proof -
  obtain r1 where get: "c128_get d r = c128_switch d 2 r1"
    and r1: "br_ahead r1 (bits_of 7 (of_nat k :: u64) @ bits_of (64 - l) X @ rest)"
    using c128_get_flag [OF assms(1)] by auto
  obtain r2 where r2: "tsdb_br_get r1 7 = (of_nat k, r2)" "unat ((of_nat k :: u64) AND (128 - 1)) = k"
    "br_ahead r2 (bits_of (64 - l) X @ rest)"
    using ring_index_read [OF r1 assms(2)] .
  obtain r3 where "br_get_safe r2 (64 - l) = (X, r3)" "br_ahead r3 rest"
    using br_get_safe_field [OF r2(3)] lead_fits [OF assms(3,4)] by auto
  then show ?thesis using r2(2) assms(5,6) by (simp add: get c128_switch_def r2(1))
qed

lemma c128_get_prev_new:
  assumes "br_ahead r ((bits_of 3 (3 :: u64) @ bits_of 3 (of_nat i :: u64) @ bits_of (64 - l) X) @ rest)"
    and "i < 8" and "C128_IDX_TO_LEADING ! i = l" and "X \<noteq> 0" and "l \<le> tsdb_clz64 X"
  shows "\<exists>r'. c128_get d r = Inr (c_prev_u d XOR X, l, r') \<and> br_ahead r' rest"
proof -
  obtain r1 where get: "c128_get d r = c128_switch d 3 r1"
    and r1: "br_ahead r1 (bits_of 3 (of_nat i :: u64) @ bits_of (64 - l) X @ rest)"
    using c128_get_flag [OF assms(1)] by auto
  obtain r2 where "get_full C128_IDX_TO_LEADING r1 = Inr (X, l, r2)" "br_ahead r2 rest"
    using get_full_reads [OF r1 assms(2-)] .
  then show ?thesis by (simp add: get c128_switch_def)
qed

lemma c128_get_prev_strip:
  assumes "br_ahead r ((bits_of 3 (5 :: u64) @ bits_of 3 (of_nat i :: u64)
      @ bits_of 6 (of_nat (if m = 64 then 0 else m) :: u64) @ bits_of m (drop_bit t X)) @ rest)"
    and "i < 8" and "C128_IDX_TO_LEADING ! i = l" and "m = 64 - l - t"
    and "X \<noteq> 0" and "l \<le> tsdb_clz64 X" and "t \<le> tsdb_ctz64 X"
  shows "\<exists>r'. c128_get d r = Inr (c_prev_u d XOR X, l, r') \<and> br_ahead r' rest"
proof -
  obtain r1 where get: "c128_get d r = c128_switch d 5 r1"
    and r1: "br_ahead r1 (bits_of 3 (of_nat i :: u64)
      @ bits_of 6 (of_nat (if m = 64 then 0 else m) :: u64) @ bits_of m (drop_bit t X) @ rest)"
    using c128_get_flag [OF assms(1)] by auto
  obtain r2 where "get_window C128_IDX_TO_LEADING r1 = Inr (X, l, r2)" "br_ahead r2 rest"
    using get_window_reads [OF r1 assms(2-)] .
  then show ?thesis by (simp add: get c128_switch_def)
qed

lemma c128_get_prev_reuse:
  assumes "br_ahead r ((bits_of 3 (6 :: u64) @ bits_of (64 - l) X) @ rest)"
    and "X \<noteq> 0" and "l \<le> tsdb_clz64 X" and "c_prev_leading d = l" and "l \<noteq> C128_NO_PREV_LEADING"
  shows "\<exists>r'. c128_get d r = Inr (c_prev_u d XOR X, l, r') \<and> br_ahead r' rest"
proof -
  obtain r1 where get: "c128_get d r = c128_switch d 6 r1" and r1: "br_ahead r1 (bits_of (64 - l) X @ rest)"
    using c128_get_flag [OF assms(1)] by auto
  obtain r2 where "br_get_safe r1 (64 - l) = (X, r2)" "br_ahead r2 rest"
    using br_get_safe_field [OF r1] lead_fits [OF assms(2,3)] by auto
  then show ?thesis using assms(4,5) by (simp add: get c128_switch_def)
qed

section \<open>One value\<close>

text \<open>
  What a branch of the encoder must give: the bits it writes, read by the decoder in the same state,
  are the value, and both sides take over the same leading count.
\<close>

definition c128_codes :: "tsdb_bw \<Rightarrow> c128_st \<Rightarrow> u64 \<Rightarrow> nat \<times> tsdb_bw \<Rightarrow> bool" where
  "c128_codes w s x = (\<lambda>(pl, w'). \<exists>bs. bw_writes w bs w' \<and> length bs \<le> 83 \<and>
     (\<forall>r rest. br_ahead r (bs @ rest) \<longrightarrow> (\<exists>r'. c128_get s r = Inr (x, pl, r') \<and> br_ahead r' rest)))"

lemma c128_codesI:
  assumes "bw_writes w bs w'" and "length bs \<le> 83"
    and "\<And>r rest. br_ahead r (bs @ rest) \<Longrightarrow> \<exists>r'. c128_get s r = Inr (x, pl, r') \<and> br_ahead r' rest"
  shows "c128_codes w s x (pl, w')"
  using assms unfolding c128_codes_def by blast

lemma xor_xor_cancel: "(a :: u64) XOR (x XOR a) = x"
  by (rule bit_word_eqI) (auto simp: bit_simps)

lemma c128_put_reuse_codes:
  assumes "X = x XOR c_prev_u s" and "X \<noteq> 0" and "c_prev_leading s = c128_lead_round X"
    and "c_prev_leading s \<noteq> C128_NO_PREV_LEADING"
  shows "c128_codes w s x (c128_put_reuse w (c_prev_leading s) X)"
  unfolding c128_put_reuse_def
proof (rule c128_codesI)
  let ?l = "c_prev_leading s"
  show "bw_writes w (bits_of 3 (6 :: u64) @ bits_of (64 - ?l) X) (bw_put_safe (tsdb_bw_put w 6 3) X (64 - ?l))"
    by (rule bw_writes_trans [OF bw_writes_put bw_writes_put_safe]) simp_all
  show "length (bits_of 3 (6 :: u64) @ bits_of (64 - ?l) X) \<le> 83" by simp
  show "\<exists>r'. c128_get s r = Inr (x, ?l, r') \<and> br_ahead r' rest"
    if "br_ahead r ((bits_of 3 (6 :: u64) @ bits_of (64 - ?l) X) @ rest)" for r rest
    using c128_get_prev_reuse [OF that assms(2) _ refl assms(4)] c128_lead(1) [OF assms(2)] assms(3)
    by (simp add: assms(1) xor_xor_cancel)
qed

lemma c128_put_new_codes:
  assumes "X = x XOR c_prev_u s" and "X \<noteq> 0"
  shows "c128_codes w s x (c128_put_new w (c128_lead_round X) X)"
  unfolding c128_put_new_def
proof (rule c128_codesI)
  let ?l = "c128_lead_round X" and ?i = "of_nat (C128_LEADING_IDX ! c128_lead_round X) :: u64"
  have "bw_writes w ((bits_of 3 (3 :: u64) @ bits_of 3 ?i) @ bits_of (64 - ?l) X)
      (bw_put_safe (tsdb_bw_put (tsdb_bw_put w 3 3) ?i 3) X (64 - ?l))"
    by (rule bw_writes_trans [OF bw_writes_trans [OF bw_writes_put bw_writes_put] bw_writes_put_safe]) simp_all
  then show "bw_writes w (bits_of 3 (3 :: u64) @ bits_of 3 ?i @ bits_of (64 - ?l) X)
      (bw_put_safe (tsdb_bw_put (tsdb_bw_put w 3 3) ?i 3) X (64 - ?l))" by simp
  show "length (bits_of 3 (3 :: u64) @ bits_of 3 ?i @ bits_of (64 - ?l) X) \<le> 83" by simp
  show "\<exists>r'. c128_get s r = Inr (x, ?l, r') \<and> br_ahead r' rest"
    if "br_ahead r ((bits_of 3 (3 :: u64) @ bits_of 3 ?i @ bits_of (64 - ?l) X) @ rest)" for r rest
    using c128_get_prev_new [OF that c128_lead(2,3) [OF assms(2)] assms(2) c128_lead(1) [OF assms(2)], of s]
    by (simp add: assms(1) xor_xor_cancel)
qed

lemma c128_put_strip_codes:
  assumes "X = x XOR c_prev_u s" and "X \<noteq> 0"
  shows "c128_codes w s x (c128_lead_round X, put_window (tsdb_bw_put w 5 3) (C128_LEADING_IDX ! c128_lead_round X)
    (drop_bit (tsdb_ctz64 X) X) (64 - c128_lead_round X - tsdb_ctz64 X))"
proof (rule c128_codesI)
  let ?l = "c128_lead_round X" and ?t = "tsdb_ctz64 X"
  let ?m = "64 - ?l - ?t" and ?i = "C128_LEADING_IDX ! c128_lead_round X"
  let ?bs = "bits_of 3 (5 :: u64) @ bits_of 3 (of_nat ?i :: u64)
    @ bits_of 6 (of_nat (if ?m = 64 then 0 else ?m) :: u64) @ bits_of ?m (drop_bit ?t X)"
  show "bw_writes w ?bs (put_window (tsdb_bw_put w 5 3) ?i (drop_bit ?t X) ?m)"
    by (rule bw_writes_trans [OF bw_writes_put put_window_writes]) simp_all
  show "length ?bs \<le> 83" by simp
  show "\<exists>r'. c128_get s r = Inr (x, ?l, r') \<and> br_ahead r' rest" if "br_ahead r (?bs @ rest)" for r rest
    using c128_get_prev_strip [OF that c128_lead(2,3) [OF assms(2)] refl assms(2) c128_lead(1) [OF assms(2)] order.refl, of s]
    by (simp add: assms(1) xor_xor_cancel)
qed

lemma c128_put_prev_codes:
  assumes "X = x XOR c_prev_u s" and "X \<noteq> 0"
  shows "c128_codes w s x (c128_put_prev w (c_prev_leading s) X)"
proof -
  have "c128_codes w s x (c128_put_reuse w (c_prev_leading s) X)"
    if "c_prev_leading s \<noteq> C128_NO_PREV_LEADING \<and> c128_lead_round X = c_prev_leading s"
    using c128_put_reuse_codes [OF assms] that by simp
  then show ?thesis
    using c128_put_new_codes [OF assms, of w] c128_put_strip_codes [OF assms, of w]
    unfolding c128_put_prev_def Let_def by (simp only: split: if_split) blast
qed

lemma c128_put_ring_codes:
  assumes "c128_ring_choice (c_ring s) x X (c_prev_leading s) = Some (k, R, reuse)"
  shows "c128_codes w s x (c128_put_ring w (c_prev_leading s) k R reuse)"
proof -
  let ?pl = "c_prev_leading s" and ?l = "c128_lead_round R"
  have k: "k < 128" and R: "R = x XOR ring (c_ring s) ! k" "R \<noteq> 0"
    and reuse: "reuse \<Longrightarrow> ?pl \<noteq> C128_NO_PREV_LEADING \<and> ?l = ?pl"
    using assms by (auto simp: c128_ring_choice_def Let_def split: if_splits)
  show ?thesis
  proof (cases reuse)
    case True
    let ?bs = "bits_of 3 (2 :: u64) @ bits_of 7 (of_nat k :: u64) @ bits_of (64 - ?pl) R"
    have len: "length ?bs \<le> 83" by simp
    have "bw_writes w ((bits_of 3 (2 :: u64) @ bits_of 7 (of_nat k :: u64)) @ bits_of (64 - ?pl) R)
        (bw_put_safe (tsdb_bw_put (tsdb_bw_put w 2 3) (of_nat k) 7) R (64 - ?pl))"
      by (rule bw_writes_trans [OF bw_writes_trans [OF bw_writes_put bw_writes_put] bw_writes_put_safe]) simp_all
    moreover have "\<exists>r'. c128_get s r = Inr (x, ?pl, r') \<and> br_ahead r' rest" if "br_ahead r (?bs @ rest)" for r rest
      using c128_get_ring_reuse [OF that k R(2) _ refl] c128_lead(1) [OF R(2)] reuse [OF True]
      by (simp add: R(1) xor_xor_cancel)
    ultimately show ?thesis
      using c128_codesI [of w ?bs _ s x ?pl] len by (simp add: c128_put_ring_def True)
  next
    case False
    define t where "t = (if tsdb_ctz64 R \<ge> C128_TRAIL_THRESH then tsdb_ctz64 R else 0)"
    let ?m = "64 - ?l - t" and ?i = "C128_LEADING_IDX ! c128_lead_round R"
    let ?bs = "bits_of 3 (1 :: u64) @ bits_of 7 (of_nat k :: u64) @ bits_of 3 (of_nat ?i :: u64)
      @ bits_of 6 (of_nat (if ?m = 64 then 0 else ?m) :: u64) @ bits_of ?m (drop_bit t R)"
    let ?w = "put_window (tsdb_bw_put (tsdb_bw_put w 1 3) (of_nat k) 7) ?i (drop_bit t R) ?m"
    have len: "length ?bs \<le> 83" by simp
    have "bw_writes w ((bits_of 3 (1 :: u64) @ bits_of 7 (of_nat k :: u64)) @ (bits_of 3 (of_nat ?i :: u64)
        @ bits_of 6 (of_nat (if ?m = 64 then 0 else ?m) :: u64) @ bits_of ?m (drop_bit t R))) ?w"
      by (rule bw_writes_trans [OF bw_writes_trans [OF bw_writes_put bw_writes_put] put_window_writes]) simp_all
    then have writes: "bw_writes w ?bs ?w" by (simp only: append_assoc)
    have "t \<le> tsdb_ctz64 R" by (simp add: t_def)
    then have "\<exists>r'. c128_get s r = Inr (x, ?l, r') \<and> br_ahead r' rest" if "br_ahead r (?bs @ rest)" for r rest
      using c128_get_ring_new [OF that k c128_lead(2,3) [OF R(2)] refl R(2) c128_lead(1) [OF R(2)], where d = s]
      by (simp add: R(1) xor_xor_cancel)
    then have "c128_codes w s x (?l, ?w)" by (rule c128_codesI [OF writes len])
    then show ?thesis using False by (simp only: c128_put_ring_def Let_def t_def if_False)
  qed
qed

lemma c128_step_codes:
  assumes "c128_enc_step s w x = Inr (s', w')"
  shows "\<exists>pl. c128_codes w s x (pl, w') \<and>
    s' = \<lparr>c_ring = c128_ring_update (c_ring s) x, c_prev_u = x, c_prev_leading = pl\<rparr>"
proof (cases "x XOR c_prev_u s = 0")
  case True
  have "c128_codes w s x (C128_NO_PREV_LEADING, tsdb_bw_put w 0 2)"
  proof (rule c128_codesI [where bs = "bits_of 2 (0 :: u64)"])
    have "x = c_prev_u s" using True by (metis xor_xor_cancel xor.right_neutral)
    then show "\<exists>r'. c128_get s r = Inr (x, C128_NO_PREV_LEADING, r') \<and> br_ahead r' rest"
      if "br_ahead r (bits_of 2 (0 :: u64) @ rest)" for r rest
      using c128_get_repeat [OF that] by simp
  qed (rule bw_writes_put, simp_all)
  then show ?thesis using assms True by (auto simp: c128_enc_step_def)
next
  case False
  let ?P = "case c128_ring_choice (c_ring s) x (x XOR c_prev_u s) (c_prev_leading s) of
      Some (ring_idx, xor_ring, ring_reuse) \<Rightarrow> c128_put_ring w (c_prev_leading s) ring_idx xor_ring ring_reuse
    | None \<Rightarrow> c128_put_prev w (c_prev_leading s) (x XOR c_prev_u s)"
  have "c128_codes w s x ?P"
    using c128_put_prev_codes [OF refl False] by (auto split: option.split intro: c128_put_ring_codes)
  moreover obtain pl where "?P = (pl, w')"
    "s' = \<lparr>c_ring = c128_ring_update (c_ring s) x, c_prev_u = x, c_prev_leading = pl\<rparr>"
    using assms False by (auto simp: c128_enc_step_def Let_def split: prod.splits)
  ultimately show ?thesis by auto
qed

section \<open>Whole columns\<close>

text \<open>A value takes at most \<open>3 + 7 + 3 + 6 + 64\<close> bits.\<close>

interpretation chimp128: float_codec c128_enc_step c128_dec_step "(=)" 83 c128_init c128_init
proof unfold_locales
  fix s w x s' w' and d :: c128_st
  assume "c128_enc_step s w x = Inr (s', w')" and "s = d"
  then obtain pl bs where "bw_writes w bs w'" "length bs \<le> 83"
    and s': "s' = \<lparr>c_ring = c128_ring_update (c_ring d) x, c_prev_u = x, c_prev_leading = pl\<rparr>"
    and dec: "\<And>r rest. br_ahead r (bs @ rest) \<Longrightarrow> \<exists>r'. c128_get d r = Inr (x, pl, r') \<and> br_ahead r' rest"
    using c128_step_codes unfolding c128_codes_def by fast
  moreover have "\<exists>r'. c128_dec_step d r = Inr (x, s', r') \<and> br_ahead r' rest" if "br_ahead r (bs @ rest)" for r rest
    using dec [OF that] by (auto simp: c128_dec_step_def s' br_ahead_def)
  ultimately show "\<exists>bs d'. bw_writes w bs w' \<and> length bs \<le> 83 \<and> s' = d' \<and>
      (\<forall>r rest. br_ahead r (bs @ rest) \<longrightarrow> (\<exists>r'. c128_dec_step d r = Inr (x, d', r') \<and> br_ahead r' rest))"
    by blast
next
  show "\<exists>y. c128_enc_step s w x = Inr y" for s w x
    by (simp add: c128_enc_step_def Let_def split: prod.splits)
qed simp

section \<open>Properties of the Chimp128 codec\<close>

text \<open>C3: Chimp128 is lossless on every list of bit patterns: the decoder rebuilds the encoder's ring, so
  every reference resolves to the same value. With room for 83 bits per value behind the first,
  \<^verbatim>\<open>tsdb_chimp128_encode\<close> succeeds; and whenever it succeeds the output stays within the capacity and
  \<^verbatim>\<open>tsdb_chimp128_decode\<close> restores the values bit for bit, whatever bytes follow.\<close>

theorem chimp128_lossless:
  "(8 + (length xs * 83 + 7) div 8 \<le> cap \<longrightarrow> (\<exists>bytes. tsdb_chimp128_encode xs cap = Inr bytes)) \<and>
   (tsdb_chimp128_encode xs cap = Inr bytes \<longrightarrow>
      length bytes \<le> cap \<and> tsdb_chimp128_decode (bytes @ junk) (length xs) = Inr xs)"
  unfolding tsdb_chimp128_encode_def tsdb_chimp128_decode_def
  by (intro conjI impI chimp128.float_encode_total chimp128.float_round_trip chimp128.float_encode_size(1))

theorem chimp128_lossless_witness:
  "\<exists>bytes. tsdb_chimp128_encode [0x3FF8000000000000, 0x4004000000000001, 0x3FF8000000000003] 64 = Inr bytes
     \<and> length bytes \<le> 64
     \<and> tsdb_chimp128_decode (bytes @ [7]) 3 = Inr [0x3FF8000000000000, 0x4004000000000001, 0x3FF8000000000003]"
proof -
  let ?xs = "[0x3FF8000000000000, 0x4004000000000001, 0x3FF8000000000003 :: f64]"
  obtain bytes where b: "tsdb_chimp128_encode ?xs 64 = Inr bytes" using chimp128_lossless [of ?xs 64] by auto
  have "length ?xs = 3" by simp
  then show ?thesis using b chimp128_lossless [of ?xs 64 bytes "[7]"] by metis
qed

end
