(* ===== verification/Codec_Dict.thy ===== *)
theory Codec_Dict
  imports Codec_Varint
begin

text \<open>
  Model of \<^verbatim>\<open>src/compress/dict.c\<close>: the count, the first symbol code and the deltas as varints. The casts
  through \<^verbatim>\<open>int32_t\<close> to \<^verbatim>\<open>int64_t\<close> are sign extensions (\<open>scast\<close>).
\<close>

section \<open>Encoder\<close>

definition dict_first :: "u32 \<Rightarrow> u64" where
  "dict_first x = push_bit 1 (ucast x) XOR signed_drop_bit 63 (scast x)"

definition dict_delta :: "u32 \<Rightarrow> u32 \<Rightarrow> i64" where
  "dict_delta prev x = scast x - scast prev"

definition dict_zz :: "i64 \<Rightarrow> u64" where
  "dict_zz delta = (if 0 \<le> sint delta then push_bit 1 delta else push_bit 1 (- delta) - 1)"

fun dict_enc_loop :: "u8 list \<Rightarrow> nat \<Rightarrow> u32 \<Rightarrow> u32 list \<Rightarrow> tsdb_err + u8 list" where
  "dict_enc_loop out cap prev [] = Inr out"
| "dict_enc_loop out cap prev (x # xs) =
     res_bind (write_uvarint out cap (dict_zz (dict_delta prev x))) (\<lambda>out'. dict_enc_loop out' cap x xs)"

fun tsdb_dict_encode :: "u32 list \<Rightarrow> nat \<Rightarrow> tsdb_err + u8 list" where
  "tsdb_dict_encode [] cap = Inr []"
| "tsdb_dict_encode (x # xs) cap =
     res_bind (write_uvarint [] cap (of_nat (length (x # xs)))) (\<lambda>out1.
       res_bind (write_uvarint out1 cap (dict_first x)) (\<lambda>out2.
         dict_enc_loop out2 cap x xs))"

section \<open>Decoder\<close>

definition dict_unfirst :: "u64 \<Rightarrow> i64" where
  "dict_unfirst zz = drop_bit 1 zz XOR - (zz AND 1)"

definition dict_unzz :: "u64 \<Rightarrow> i64" where
  "dict_unzz encoded = (if encoded AND 1 \<noteq> 0 then - drop_bit 1 (encoded + 1) else drop_bit 1 encoded)"

fun dict_dec_loop :: "u8 list \<Rightarrow> nat \<Rightarrow> i64 \<Rightarrow> nat \<Rightarrow> tsdb_err + u32 list" where
  "dict_dec_loop buf pos prev 0 = Inr []"
| "dict_dec_loop buf pos prev (Suc n) =
     res_bind (read_uvarint buf pos) (\<lambda>(encoded, pos').
       let cur = prev + dict_unzz encoded
       in res_bind (dict_dec_loop buf pos' cur n) (\<lambda>xs. Inr (ucast cur # xs)))"

definition tsdb_dict_decode :: "u8 list \<Rightarrow> nat \<Rightarrow> tsdb_err + u32 list" where
  "tsdb_dict_decode buf n =
     (if n = 0 then Inr []
      else res_bind (read_uvarint buf 0) (\<lambda>(stored_n, pos).
             if unat stored_n \<noteq> n then Inl TSDB_ERR_CORRUPT
             else res_bind (read_uvarint buf pos) (\<lambda>(zz, pos).
                    let v0 = dict_unfirst zz
                    in res_bind (dict_dec_loop buf pos v0 (n - 1)) (\<lambda>xs. Inr (ucast v0 # xs)))))"

section \<open>Values\<close>

text \<open>
  Both zigzag variants of the file agree with \<^verbatim>\<open>tsdb_zigzag_enc\<close> and \<^verbatim>\<open>tsdb_zigzag_dec\<close> on what they are
  applied to. For a code of 2 ^ 31 or more the running value of the decoder is only right modulo
  \<open>2 ^ 32\<close>, which is all that is stored.
\<close>

lemma take_bit_sum_narrow:
  fixes a b :: int
  assumes "n \<le> m"
  shows "take_bit n (take_bit m a + take_bit m b) = take_bit n (a + b)"
    and "take_bit n (take_bit m a - take_bit m b) = take_bit n (a - b)"
proof -
  have narrow: "take_bit n (take_bit m x) = take_bit n x" for x :: int using assms by simp
  show "take_bit n (take_bit m a + take_bit m b) = take_bit n (a + b)"
    using take_bit_add [of n "take_bit m a" "take_bit m b"] take_bit_add [of n a b] by (simp only: narrow)
  show "take_bit n (take_bit m a - take_bit m b) = take_bit n (a - b)"
    using take_bit_diff [of n "take_bit m a" "take_bit m b"] take_bit_diff [of n a b] by (simp only: narrow)
qed

lemma ucast_add_32: "(ucast (a + b :: i64) :: u32) = ucast a + ucast b"
  by transfer (simp add: take_bit_sum_narrow)

lemma ucast_diff_32: "(ucast (a - b :: i64) :: u32) = ucast a - ucast b"
  by transfer (simp add: take_bit_sum_narrow)

lemma ucast_scast_32: "(ucast (scast (x :: u32) :: i64) :: u32) = x"
  by (rule bit_word_eqI) (auto simp: bit_simps)

lemma bit_dict_first:
  "bit (dict_first x) i \<longleftrightarrow> i < 64 \<and> (if i = 0 then bit x 31 else bit x (i - 1) \<noteq> bit x 31)"
  unfolding dict_first_def bit_xor_iff bit_push_bit_iff
  by (auto simp: bit_simps dest: bit_imp_le_length)

lemma dict_first_value: "ucast (dict_unfirst (dict_first x)) = x"
proof (rule bit_word_eqI)
  fix i assume i: "i < LENGTH(32)"
  have "dict_unfirst (dict_first x) = tsdb_zigzag_dec (dict_first x)"
    by (simp add: dict_unfirst_def tsdb_zigzag_dec_def)
  then show "bit (ucast (dict_unfirst (dict_first x)) :: u32) i = bit x i"
    using i by (auto simp: bit_ucast_iff bit_zigzag_dec bit_dict_first)
qed

lemma dict_zz_zigzag: "dict_zz delta = tsdb_zigzag_enc delta"
proof -
  have top: "bit delta 63 \<longleftrightarrow> sint delta < 0" using bit_last_iff [of delta] by simp
  show ?thesis
  proof (cases "0 \<le> sint delta")
    case True
    then have "signed_drop_bit 63 delta = 0"
      using top by (intro bit_word_eqI) (auto simp: bit_signed_drop_bit_iff Suc_le_eq dest: bit_imp_le_length)
    then show ?thesis using True by (simp only: dict_zz_def tsdb_zigzag_enc_def if_True xor.right_neutral)
  next
    case False
    then have "signed_drop_bit 63 delta = - 1"
      using top by (intro bit_word_eqI) (auto simp: bit_signed_drop_bit_iff Suc_le_eq)
    then have "tsdb_zigzag_enc delta = NOT (push_bit 1 delta)"
      by (simp only: tsdb_zigzag_enc_def bit.xor_one_right)
    then have "tsdb_zigzag_enc delta = - (2 * delta) - 1" by (simp add: not_eq_complement)
    then show ?thesis using False by (simp add: dict_zz_def)
  qed
qed

lemma dict_unzz_zigzag:
  assumes "e \<noteq> - 1"
  shows "dict_unzz e = tsdb_zigzag_dec e"
proof (cases "bit e 0")
  case True
  have "1 + e \<noteq> 0" using assms by (metis add.commute eq_neg_iff_add_eq_0)
  then have e1: "unat (e + 1) = Suc (unat e)" by (metis unatSuc add.commute)
  have "bit (unat e) 0" using True by (simp only: bit_unsigned_iff) simp
  then have "unat e mod 2 = 1" by (simp only: bit_0 odd_iff_mod_2_eq_one)
  then have "Suc (unat e) div 2 = Suc (unat e div 2)" by presburger
  then have "unat (drop_bit 1 (e + 1)) = Suc (unat (drop_bit 1 e))"
    by (simp only: unat_drop_bit e1 power_one_right)
  then have "(of_nat (unat (drop_bit 1 (e + 1))) :: u64) = of_nat (Suc (unat (drop_bit 1 e)))" by (simp only:)
  then have half: "drop_bit 1 (e + 1) = drop_bit 1 e + 1"
    by (simp only: of_nat_Suc of_nat_unat ucast_id add.commute)
  have "e AND 1 = 1" using True by (simp add: and_one_eq bit_0 odd_iff_mod_2_eq_one)
  then show ?thesis
    by (simp only: dict_unzz_def tsdb_zigzag_dec_def half bit.xor_one_right not_eq_complement) simp
next
  case False
  then have "e AND 1 = 0" by (simp add: and_one_eq bit_0 odd_iff_mod_2_eq_one)
  then show ?thesis by (simp add: dict_unzz_def tsdb_zigzag_dec_def)
qed

lemma dict_delta_value: "dict_unzz (dict_zz (dict_delta prev x)) = dict_delta prev x"
proof -
  let ?d = "dict_delta prev x"
  have "?d = word_of_int (sint x - sint prev)" by (simp only: dict_delta_def scast_eq of_int_diff)
  moreover have range: "- (2 ^ 32) \<le> sint x - sint prev" "sint x - sint prev < 2 ^ 32"
    using sint_lt [of x] sint_ge [of x] sint_lt [of prev] sint_ge [of prev] by simp_all
  moreover have "signed_take_bit 63 (sint x - sint prev) = sint x - sint prev"
    using range by (intro signed_take_bit_int_eq_self) auto
  ultimately have "sint ?d = sint x - sint prev"
    using sint_sbintrunc' [where ?'a = 64, of "sint x - sint prev"] by simp
  then have "take_bit (Suc 32) (tsdb_zigzag_enc ?d) = tsdb_zigzag_enc ?d"
    using range by (intro zigzag_enc_fits) auto
  from fits_bit [OF this, of 63] have "\<not> bit (tsdb_zigzag_enc ?d) 63" by simp
  then have "tsdb_zigzag_enc ?d \<noteq> - 1" by auto
  then show ?thesis by (simp add: dict_zz_zigzag dict_unzz_zigzag)
qed

section \<open>Streams\<close>

fun dict_bytes :: "u32 \<Rightarrow> u32 list \<Rightarrow> u8 list" where
  "dict_bytes prev [] = []"
| "dict_bytes prev (x # xs) = uvarint_bytes (dict_zz (dict_delta prev x)) @ dict_bytes x xs"

lemma dict_enc_loop_eq:
  "length out \<le> cap \<Longrightarrow> dict_enc_loop out cap prev xs =
    (if length out + length (dict_bytes prev xs) \<le> cap then Inr (out @ dict_bytes prev xs)
     else Inl TSDB_ERR_OVERFLOW)"
  by (induction xs arbitrary: out prev) (auto simp: write_uvarint_eq)

lemma dict_dec_loop_bytes:
  "ucast v = prev \<Longrightarrow>
   dict_dec_loop (pre @ dict_bytes prev xs @ post) (length pre) v (length xs) = Inr xs"
proof (induction xs arbitrary: pre v prev)
  case (Cons x xs)
  let ?u = "uvarint_bytes (dict_zz (dict_delta prev x))" and ?v = "v + dict_delta prev x"
  have v: "ucast ?v = x"
    using Cons.prems by (simp add: ucast_add_32 dict_delta_def ucast_diff_32 ucast_scast_32)
  have "dict_dec_loop ((pre @ ?u) @ dict_bytes x xs @ post) (length (pre @ ?u)) ?v (length xs) = Inr xs"
    using v by (rule Cons.IH)
  then show ?case using v by (simp add: dict_delta_value)
qed simp

lemma length_dict_bytes: "length (dict_bytes prev xs) \<le> 10 * length xs"
proof (induction xs arbitrary: prev)
  case (Cons x xs)
  show ?case using add_mono [OF length_uvarint_bytes_10 Cons.IH] by simp
qed simp

lemma dict_encode_eq:
  "tsdb_dict_encode (x # xs) cap =
    (let bs = uvarint_bytes (of_nat (length (x # xs))) @ uvarint_bytes (dict_first x) @ dict_bytes x xs
     in if length bs \<le> cap then Inr bs else Inl TSDB_ERR_OVERFLOW)"
  by (auto simp: write_uvarint_eq Let_def dict_enc_loop_eq)

lemma dict_encode_size: "tsdb_dict_encode xs cap = Inr bytes \<Longrightarrow> length bytes \<le> cap"
  by (cases xs) (auto simp: dict_encode_eq Let_def simp del: tsdb_dict_encode.simps(2) split: if_splits)

lemma dict_round_trip:
  assumes "tsdb_dict_encode xs cap = Inr bytes" and "length xs < 2 ^ 64"
  shows "tsdb_dict_decode (bytes @ junk) (length xs) = Inr xs"
proof (cases xs)
  case Nil
  then show ?thesis by (simp add: tsdb_dict_decode_def)
next
  case (Cons x ys)
  let ?n = "uvarint_bytes (of_nat (length xs))" and ?f = "uvarint_bytes (dict_first x)"
  have bytes: "bytes = ?n @ ?f @ dict_bytes x ys"
    using assms(1) Cons by (auto simp: dict_encode_eq Let_def simp del: tsdb_dict_encode.simps split: if_splits)
  have n: "unat (of_nat (length xs) :: u64) = length xs" using assms(2) by (simp add: unat_of_nat)
  have r1: "read_uvarint (bytes @ junk) 0 = Inr (of_nat (length xs), length ?n)"
    using read_uvarint_bytes [of "[]" "of_nat (length xs)" "?f @ dict_bytes x ys @ junk"] by (simp add: bytes)
  have r2: "read_uvarint (bytes @ junk) (length ?n) = Inr (dict_first x, length ?n + length ?f)"
    using read_uvarint_bytes [of ?n "dict_first x" "dict_bytes x ys @ junk"] by (simp add: bytes)
  have "dict_dec_loop (bytes @ junk) (length ?n + length ?f) (dict_unfirst (dict_first x)) (length ys) = Inr ys"
    using dict_dec_loop_bytes [OF dict_first_value, of "?n @ ?f" x ys junk] by (simp add: bytes)
  moreover have "length xs \<noteq> 0" "length xs - 1 = length ys" using Cons by simp_all
  ultimately have "tsdb_dict_decode (bytes @ junk) (length xs) = Inr (x # ys)"
    using n by (simp add: tsdb_dict_decode_def r1 r2 dict_first_value)
  then show ?thesis by (simp add: Cons)
qed

section \<open>Properties of the dictionary codec\<close>

text \<open>C13: with ten bytes per code and ten for the count \<^verbatim>\<open>tsdb_dict_encode\<close> succeeds; what it produces stays
  within the capacity, and \<^verbatim>\<open>tsdb_dict_decode\<close> restores the symbol codes, over the full 32-bit range and
  whatever bytes follow. A wrong count is refused.\<close>

theorem dict_lossless:
  assumes "length xs < 2 ^ 64"
  shows "(10 + 10 * length xs \<le> cap \<longrightarrow> (\<exists>bytes. tsdb_dict_encode xs cap = Inr bytes)) \<and>
    (tsdb_dict_encode xs cap = Inr bytes \<longrightarrow> length bytes \<le> cap \<and>
       tsdb_dict_decode (bytes @ junk) (length xs) = Inr xs \<and>
       (n \<noteq> 0 \<longrightarrow> n \<noteq> length xs \<longrightarrow> xs \<noteq> [] \<longrightarrow> tsdb_dict_decode (bytes @ junk) n = Inl TSDB_ERR_CORRUPT))"
proof (intro conjI impI)
  show "\<exists>bytes. tsdb_dict_encode xs cap = Inr bytes" if "10 + 10 * length xs \<le> cap"
  proof (cases xs)
    case (Cons x ys)
    then show ?thesis
      using that length_uvarint_bytes_10 [of "of_nat (length xs)"] length_uvarint_bytes_10 [of "dict_first x"]
        length_dict_bytes [of x ys]
      by (simp add: dict_encode_eq Let_def del: tsdb_dict_encode.simps)
  qed simp
  assume enc: "tsdb_dict_encode xs cap = Inr bytes"
  show "length bytes \<le> cap"
    using enc by (cases xs) (auto simp: dict_encode_eq Let_def simp del: tsdb_dict_encode.simps(2) split: if_splits)
  show "tsdb_dict_decode (bytes @ junk) (length xs) = Inr xs" using dict_round_trip [OF enc assms] .
  assume n: "n \<noteq> 0" "n \<noteq> length xs" and "xs \<noteq> []"
  then obtain x ys where xs: "xs = x # ys" by (cases xs) auto
  then have "read_uvarint (bytes @ junk) 0 = Inr (of_nat (length xs), length (uvarint_bytes (of_nat (length xs))))"
    using enc read_uvarint_bytes [of "[]" "of_nat (length xs)"]
    by (auto simp: dict_encode_eq Let_def simp del: tsdb_dict_encode.simps split: if_splits)
  moreover have "unat (of_nat (length xs) :: u64) = length xs" using assms by (simp add: unat_of_nat)
  ultimately show "tsdb_dict_decode (bytes @ junk) n = Inl TSDB_ERR_CORRUPT"
    using n by (simp add: tsdb_dict_decode_def)
qed

theorem dict_lossless_witness:
  "\<exists>bytes. tsdb_dict_encode [5, 0xFFFFFFFF, 0x80000000] 64 = Inr bytes \<and> length bytes \<le> 64
     \<and> tsdb_dict_decode (bytes @ [7]) 3 = Inr [5, 0xFFFFFFFF, 0x80000000]
     \<and> tsdb_dict_decode (bytes @ [7]) 2 = Inl TSDB_ERR_CORRUPT"
proof -
  let ?xs = "[5, 0xFFFFFFFF, 0x80000000 :: u32]"
  have len: "length ?xs = 3" "(3 :: nat) < 2 ^ 64" by simp_all
  then obtain bytes where b: "tsdb_dict_encode ?xs 64 = Inr bytes" using dict_lossless [of ?xs 64 "[]" "[]" 0]
    by (auto simp del: tsdb_dict_encode.simps)
  show ?thesis
    using b dict_lossless [of ?xs 64 bytes "[7]" 2] len by (intro exI [of _ bytes]) (simp del: tsdb_dict_encode.simps add: numeral_3_eq_3)
qed

end
