(* ===== verification/Codec_Lzlite.thy ===== *)
theory Codec_Lzlite
  imports QE_Prelude
begin

text \<open>
  Model of \<^verbatim>\<open>src/compress/lzlite.c\<close>: the block compressor with a 64 KB window. The input of the encoder
  is a list with a read cursor, the output the list of bytes written so far; the decoder's input is the
  list of the bytes from the read cursor on. The hash table keeps 16-bit positions; its \<^verbatim>\<open>prev\<close> part is
  scratch memory that survives from one call to the next, so its content at the start is a parameter:
  \<open>None\<close> when the table could not be allocated.
\<close>

section \<open>Operations\<close>

definition MIN_MATCH :: nat where "MIN_MATCH = 4"

definition NIL :: u16 where "NIL = 0xFFFF"

definition NIBBLE_MAX :: nat where "NIBBLE_MAX = 15"

definition lz_hash4 :: "u8 list \<Rightarrow> nat \<Rightarrow> u32" where
  "lz_hash4 xs ip = drop_bit 16 (le_acc 0 0 (take 4 (drop ip xs)) * 2654435761)"

function write_overflow :: "nat \<Rightarrow> u8 list \<Rightarrow> nat \<Rightarrow> tsdb_err + u8 list" where
  "write_overflow out_cap out extra =
     (if extra \<ge> 255
      then if length out \<ge> out_cap then Inl TSDB_ERR_OVERFLOW else write_overflow out_cap (out @ [0xFF]) (extra - 255)
      else if length out \<ge> out_cap then Inl TSDB_ERR_OVERFLOW else Inr (out @ [of_nat extra]))"
  by pat_completeness auto
termination
  by (relation "measure (\<lambda>(c, out, extra). extra)") auto

declare write_overflow.simps [simp del]

fun read_overflow :: "u8 list \<Rightarrow> nat \<Rightarrow> tsdb_err + (nat \<times> u8 list)" where
  "read_overflow [] acc = Inl TSDB_ERR_CORRUPT"
| "read_overflow (b # ins) acc =
     (if b = 0xFF then read_overflow ins (acc + unat b) else Inr (acc + unat b, ins))"

definition tsdb_lzlite_max_output :: "nat \<Rightarrow> nat" where
  "tsdb_lzlite_max_output in_n = in_n + in_n div 255 + 16"

record lz_ht_t =
  head :: "u32 \<Rightarrow> u16"
  prev :: "u16 \<Rightarrow> u16"

definition lz_insert :: "u8 list \<Rightarrow> nat \<Rightarrow> lz_ht_t \<Rightarrow> lz_ht_t" where
  "lz_insert xs ip ht =
     (let h = lz_hash4 xs ip; cur16 = of_nat ip
      in ht\<lparr>prev := (prev ht)(cur16 := head ht h), head := (head ht)(h := cur16)\<rparr>)"

function lz_extend :: "u8 list \<Rightarrow> nat \<Rightarrow> nat \<Rightarrow> nat \<Rightarrow> nat \<Rightarrow> nat" where
  "lz_extend xs ref_pos ip ml max_ml =
     (if ml < max_ml \<and> xs ! (ref_pos + ml) = xs ! (ip + ml) then lz_extend xs ref_pos ip (ml + 1) max_ml else ml)"
  by pat_completeness auto
termination
  by (relation "measure (\<lambda>(xs, r, ip, ml, mx). mx - ml)") auto

declare lz_extend.simps [simp del]

text \<open>The walk along a hash chain, at most \<^verbatim>\<open>chain_limit\<close> entries; the best match is a pair of length and offset.\<close>

primrec lz_chain :: "u8 list \<Rightarrow> (u16 \<Rightarrow> u16) \<Rightarrow> nat \<Rightarrow> nat \<Rightarrow> u16 \<Rightarrow> nat \<times> nat \<Rightarrow> nat \<times> nat" where
  "lz_chain xs prv ip 0 ref16 best = best"
| "lz_chain xs prv ip (Suc chain_limit) ref16 best =
     (if ref16 = NIL then best
      else let delta16 = of_nat ip - ref16; offset = unat delta16; ref_pos = ip - offset in
        if delta16 = 0 then best
        else if offset > ip then best
        else if ref_pos + MIN_MATCH > length xs then lz_chain xs prv ip chain_limit (prv ref16) best
        else if xs ! ref_pos \<noteq> xs ! ip \<or> xs ! (ref_pos + 1) \<noteq> xs ! (ip + 1) \<or> xs ! (ref_pos + 2) \<noteq> xs ! (ip + 2)
             \<or> xs ! (ref_pos + 3) \<noteq> xs ! (ip + 3) then lz_chain xs prv ip chain_limit (prv ref16) best
        else let ml = lz_extend xs ref_pos ip MIN_MATCH (length xs - ip) in
          if ml > fst best
          then if ml \<ge> 256 then (ml, ip - ref_pos) else lz_chain xs prv ip chain_limit (prv ref16) (ml, ip - ref_pos)
          else lz_chain xs prv ip chain_limit (prv ref16) best)"

definition lz_find :: "u8 list \<Rightarrow> nat \<Rightarrow> lz_ht_t \<Rightarrow> (nat \<times> nat) \<times> lz_ht_t" where
  "lz_find xs ip ht =
     (if ip + MIN_MATCH \<le> length xs
      then (lz_chain xs (prev ht) ip 64 (head ht (lz_hash4 xs ip)) (0, 0), lz_insert xs ip ht)
      else ((0, 0), ht))"

text \<open>Token, literal length overflow, match length overflow, offset, literals.\<close>

definition lz_put :: "nat \<Rightarrow> u8 list \<Rightarrow> u8 list \<Rightarrow> tsdb_err + u8 list" where
  "lz_put out_cap out bytes = (if length out + length bytes > out_cap then Inl TSDB_ERR_OVERFLOW else Inr (out @ bytes))"

definition lz_nibble :: "nat \<Rightarrow> nat" where
  "lz_nibble k = (if k \<ge> NIBBLE_MAX then NIBBLE_MAX else k)"

definition lz_emit :: "nat \<Rightarrow> u8 list \<Rightarrow> u8 list \<Rightarrow> nat \<Rightarrow> nat \<Rightarrow> tsdb_err + u8 list" where
  "lz_emit out_cap out lits match_len best_off =
     (let lit_nib = lz_nibble (length lits); match_nib = lz_nibble (match_len - MIN_MATCH);
          token = push_bit 4 (of_nat lit_nib) OR of_nat match_nib;
          off16 = of_nat best_off :: u16
      in res_bind (lz_put out_cap out [token]) (\<lambda>out.
         res_bind (if lit_nib = NIBBLE_MAX then write_overflow out_cap out (length lits - NIBBLE_MAX) else Inr out) (\<lambda>out.
         res_bind (if match_nib = NIBBLE_MAX then write_overflow out_cap out (match_len - MIN_MATCH - NIBBLE_MAX) else Inr out) (\<lambda>out.
         res_bind (lz_put out_cap out [ucast (off16 AND 0xFF), ucast (drop_bit 8 off16)]) (\<lambda>out.
         lz_put out_cap out lits)))))"

definition lz_emit_last :: "nat \<Rightarrow> u8 list \<Rightarrow> u8 list \<Rightarrow> tsdb_err + u8 list" where
  "lz_emit_last out_cap out lits =
     (let lit_nib = lz_nibble (length lits)
      in res_bind (lz_put out_cap out [push_bit 4 (of_nat lit_nib)]) (\<lambda>out.
         res_bind (if lit_nib = NIBBLE_MAX then write_overflow out_cap out (length lits - NIBBLE_MAX) else Inr out) (\<lambda>out.
         lz_put out_cap out lits)))"

text \<open>The hash entries of the positions inside a match.\<close>

function lz_skip :: "u8 list \<Rightarrow> nat \<Rightarrow> nat \<Rightarrow> lz_ht_t \<Rightarrow> lz_ht_t" where
  "lz_skip xs match_end ip ht =
     (if ip < match_end \<and> ip + MIN_MATCH \<le> length xs then lz_skip xs match_end (ip + 1) (lz_insert xs ip ht) else ht)"
  by pat_completeness auto
termination
  by (relation "measure (\<lambda>(xs, e, ip, ht). e - ip)") auto

declare lz_skip.simps [simp del]

function lz_enc_loop :: "u8 list \<Rightarrow> nat \<Rightarrow> lz_ht_t \<Rightarrow> nat \<Rightarrow> nat \<Rightarrow> u8 list \<Rightarrow> tsdb_err + u8 list" where
  "lz_enc_loop xs out_cap ht ip lit_start out =
     (if ip < length xs
      then case lz_find xs ip ht of ((best_len, best_off), ht) \<Rightarrow>
        if best_len < MIN_MATCH then lz_enc_loop xs out_cap ht (ip + 1) lit_start out
        else res_bind (lz_emit out_cap out (take (ip - lit_start) (drop lit_start xs)) best_len best_off)
               (\<lambda>out. let match_end = ip + best_len
                       in lz_enc_loop xs out_cap (lz_skip xs match_end (ip + 1) ht) match_end match_end out)
      else lz_emit_last out_cap out (drop lit_start xs))"
  by pat_completeness auto
termination
  by (relation "measure (\<lambda>(xs, cap, ht, ip, ls, out). length xs - ip)") (auto simp: MIN_MATCH_def)

declare lz_enc_loop.simps [simp del]

definition tsdb_lzlite_encode :: "(u16 \<Rightarrow> u16) option \<Rightarrow> u8 list \<Rightarrow> nat \<Rightarrow> tsdb_err + u8 list" where
  "tsdb_lzlite_encode scratch xs out_cap =
     (if xs = [] then Inr []
      else if out_cap < tsdb_lzlite_max_output (length xs) then Inl TSDB_ERR_OVERFLOW
      else case scratch of
             None \<Rightarrow> Inl TSDB_ERR_NOMEM
           | Some prv \<Rightarrow> lz_enc_loop xs out_cap \<lparr>head = (\<lambda>h. NIL), prev = prv\<rparr> 0 0 [])"

fun lz_copy_bytes :: "nat \<Rightarrow> nat \<Rightarrow> u8 list \<Rightarrow> u8 list" where
  "lz_copy_bytes offset 0 out = out"
| "lz_copy_bytes offset (Suc n) out = lz_copy_bytes offset n (out @ [out ! (length out - offset)])"

definition lz_copy_match :: "nat \<Rightarrow> nat \<Rightarrow> u8 list \<Rightarrow> u8 list" where
  "lz_copy_match offset match_len out =
     (if offset < match_len then lz_copy_bytes offset match_len out
      else out @ take match_len (drop (length out - offset) out))"

text \<open>One sequence of the decoder: the rest of the input and the output behind it.\<close>

definition lz_dec_seq :: "nat \<Rightarrow> u8 \<Rightarrow> u8 list \<Rightarrow> u8 list \<Rightarrow> tsdb_err + (u8 list \<times> u8 list)" where
  "lz_dec_seq out_cap token ins out =
     (let lit_nib = unat (drop_bit 4 token); match_nib = unat (token AND 0x0F) in
      res_bind (if lit_nib = NIBBLE_MAX then read_overflow ins lit_nib else Inr (lit_nib, ins)) (\<lambda>(lit_len, ins).
      let has_match = (match_nib \<noteq> 0 \<or> lit_len + 2 \<le> length ins) in
      res_bind (if has_match
                then if match_nib = NIBBLE_MAX then read_overflow ins (MIN_MATCH + match_nib) else Inr (MIN_MATCH + match_nib, ins)
                else Inr (0, ins)) (\<lambda>(match_len, ins).
      res_bind (if has_match
                then if length ins < 2 then Inl TSDB_ERR_CORRUPT
                     else let offset = unat (ins ! 0) OR push_bit 8 (unat (ins ! 1))
                          in if offset = 0 then Inl TSDB_ERR_CORRUPT else Inr (offset, drop 2 ins)
                else Inr (0, ins)) (\<lambda>(offset, ins).
      res_bind (if lit_len > 0
                then if lit_len > length ins then Inl TSDB_ERR_CORRUPT
                     else if length out + lit_len > out_cap then Inl TSDB_ERR_OVERFLOW
                     else Inr (drop lit_len ins, out @ take lit_len ins)
                else Inr (ins, out)) (\<lambda>(ins, out).
      if match_len \<ge> MIN_MATCH
      then if offset > length out then Inl TSDB_ERR_CORRUPT
           else if length out + match_len > out_cap then Inl TSDB_ERR_OVERFLOW
           else Inr (ins, lz_copy_match offset match_len out)
      else Inr (ins, out))))))"

lemma read_overflow_shorter: "read_overflow ins acc = Inr (v, rest) \<Longrightarrow> length rest < length ins"
  by (induction ins acc rule: read_overflow.induct) (auto split: if_splits)

lemma lz_dec_seq_shorter: "lz_dec_seq out_cap token ins out = Inr (rest, out') \<Longrightarrow> length rest \<le> length ins"
  by (auto simp: lz_dec_seq_def Let_def res_bind_Inr_iff split: if_splits dest!: read_overflow_shorter)

function lz_dec_loop :: "nat \<Rightarrow> u8 list \<Rightarrow> u8 list \<Rightarrow> tsdb_err + u8 list" where
  "lz_dec_loop out_cap [] out = Inr out"
| "lz_dec_loop out_cap (token # ins) out =
     res_bind (lz_dec_seq out_cap token ins out) (\<lambda>(rest, out). lz_dec_loop out_cap rest out)"
  by pat_completeness auto
termination
  by (relation "measure (\<lambda>(c, ins, out). length ins)") (auto dest!: lz_dec_seq_shorter)

definition tsdb_lzlite_decode :: "u8 list \<Rightarrow> nat \<Rightarrow> tsdb_err + u8 list" where
  "tsdb_lzlite_decode ins out_cap = (if ins = [] then Inr [] else lz_dec_loop out_cap ins [])"

section \<open>Overflow bytes\<close>

definition ovf :: "nat \<Rightarrow> u8 list" where
  "ovf extra = replicate (extra div 255) 0xFF @ [of_nat (extra mod 255)]"

lemma length_ovf [simp]: "length (ovf e) = e div 255 + 1"
  by (simp add: ovf_def)

lemma ovf_step: "extra \<ge> 255 \<Longrightarrow> ovf extra = 0xFF # ovf (extra - 255)"
  by (simp add: ovf_def le_div_geq le_mod_geq)

lemma write_overflow_spec:
  "write_overflow cap out extra = (if length out + length (ovf extra) \<le> cap then Inr (out @ ovf extra) else Inl TSDB_ERR_OVERFLOW)"
proof (induction cap out extra rule: write_overflow.induct)
  case (1 cap out extra)
  show ?case
  proof (cases "extra \<ge> 255")
    case True
    then have "extra div 255 = Suc ((extra - 255) div 255)" by (simp add: le_div_geq)
    then show ?thesis using 1 True by (subst write_overflow.simps) (auto simp: ovf_step)
  next
    case False
    then show ?thesis by (subst write_overflow.simps) (auto simp: ovf_def)
  qed
qed

lemma read_overflow_ovf: "read_overflow (ovf e @ rest) acc = Inr (acc + e, rest)"
proof (induction e arbitrary: acc rule: less_induct)
  case (less e)
  show ?case
  proof (cases "e \<ge> 255")
    case True
    then show ?thesis using less [of "e - 255"] by (simp add: ovf_step)
  next
    case False
    then have "unat (of_nat e :: u8) = e" "(of_nat e :: u8) \<noteq> 0xFF"
      by (auto simp: unat_of_nat word_unat_eq_iff)
    then show ?thesis using False by (simp add: ovf_def)
  qed
qed

section \<open>Sequences\<close>

definition lit_ovf :: "nat \<Rightarrow> u8 list" where
  "lit_ovf k = (if k \<ge> NIBBLE_MAX then ovf (k - NIBBLE_MAX) else [])"

definition token_of :: "nat \<Rightarrow> nat \<Rightarrow> u8" where
  "token_of l m = push_bit 4 (of_nat (lz_nibble l)) OR of_nat (lz_nibble m)"

definition seq_bytes :: "u8 list \<Rightarrow> nat \<Rightarrow> nat \<Rightarrow> u8 list" where
  "seq_bytes lits ml off = token_of (length lits) (ml - MIN_MATCH) # lit_ovf (length lits) @ lit_ovf (ml - MIN_MATCH)
     @ le_bytes 2 (of_nat off :: u16) @ lits"

definition last_bytes :: "u8 list \<Rightarrow> u8 list" where
  "last_bytes lits = token_of (length lits) 0 # lit_ovf (length lits) @ lits"

lemma lz_nibble_max [simp]: "lz_nibble k = NIBBLE_MAX \<longleftrightarrow> NIBBLE_MAX \<le> k"
  by (auto simp: lz_nibble_def)

lemma lz_nibble_le: "lz_nibble k \<le> 15"
  by (simp add: lz_nibble_def NIBBLE_MAX_def)

lemma lz_nibble_0 [simp]: "lz_nibble 0 = 0"
  by (simp add: lz_nibble_def NIBBLE_MAX_def)

lemma token_nibbles: "unat (drop_bit 4 (token_of l m)) = lz_nibble l" "unat (token_of l m AND 0x0F) = lz_nibble m"
proof -
  have l: "take_bit 4 (of_nat (lz_nibble l) :: u8) = of_nat (lz_nibble l)" and m: "take_bit 4 (of_nat (lz_nibble m) :: u8) = of_nat (lz_nibble m)"
    using lz_nibble_le [of l] lz_nibble_le [of m] by (auto simp: fits_unat unat_of_nat)
  have t: "token_of l m = of_nat (lz_nibble m) OR push_bit 4 (of_nat (lz_nibble l))"
    by (simp add: token_of_def or.commute)
  have "drop_bit 4 (token_of l m) = of_nat (lz_nibble l)" unfolding t using l m by (intro drop_bit_or_push) simp_all
  then show "unat (drop_bit 4 (token_of l m)) = lz_nibble l" using lz_nibble_le [of l] by (simp add: unat_of_nat)
  have "token_of l m AND 0x0F = take_bit 4 (token_of l m)"
    using and_mask_take_bit [of "token_of l m" 4] by (simp add: mask_eq_exp_minus_1)
  also have "\<dots> = of_nat (lz_nibble m)" unfolding t take_bit_or take_bit_push_bit using m by simp
  finally show "unat (token_of l m AND 0x0F) = lz_nibble m" using lz_nibble_le [of m] by (simp add: unat_of_nat)
qed

lemma le_bytes_2: "le_bytes 2 v = [ucast v, ucast (drop_bit 8 v)]"
  by (simp add: le_bytes_def upt_rec)

lemma ucast_and_FF: "(ucast (v AND 0xFF :: u16) :: u8) = ucast v"
proof -
  have "v AND 0xFF = take_bit 8 v" using and_mask_take_bit [of v 8] by (simp add: mask_eq_exp_minus_1)
  then show ?thesis by (auto intro!: bit_word_eqI simp: bit_simps)
qed

lemma overflow_cond:
  "(if NIBBLE_MAX \<le> k then write_overflow cap out (k - NIBBLE_MAX) else Inr out) =
     (if length out + length (lit_ovf k) \<le> cap \<or> \<not> NIBBLE_MAX \<le> k then Inr (out @ lit_ovf k) else Inl TSDB_ERR_OVERFLOW)"
  by (simp add: lit_ovf_def write_overflow_spec)

lemma lz_emit_spec:
  "lz_emit cap out lits ml off =
     (if length out + length (seq_bytes lits ml off) \<le> cap then Inr (out @ seq_bytes lits ml off) else Inl TSDB_ERR_OVERFLOW)"
proof -
  have "(ucast (v AND 0xFF :: u16) :: u8) # [ucast (drop_bit 8 v)] = le_bytes 2 v" for v
    by (simp add: le_bytes_2 ucast_and_FF)
  then show ?thesis
    unfolding lz_emit_def Let_def lz_nibble_max overflow_cond token_of_def [symmetric]
    by (auto simp: lz_put_def seq_bytes_def)
qed

lemma lz_emit_last_spec:
  "lz_emit_last cap out lits =
     (if length out + length (last_bytes lits) \<le> cap then Inr (out @ last_bytes lits) else Inl TSDB_ERR_OVERFLOW)"
proof -
  have "push_bit 4 (of_nat (lz_nibble k)) = token_of k 0" for k by (simp add: token_of_def)
  then show ?thesis
    unfolding lz_emit_last_def Let_def lz_nibble_max overflow_cond by (auto simp: lz_put_def last_bytes_def)
qed

section \<open>Matches\<close>

text \<open>What the decoder needs of a back-reference, whatever the hash table holds.\<close>

definition match_ok :: "u8 list \<Rightarrow> nat \<Rightarrow> nat \<Rightarrow> nat \<Rightarrow> bool" where
  "match_ok xs ip ml off \<longleftrightarrow> MIN_MATCH \<le> ml \<and> ip + ml \<le> length xs \<and> 0 < off \<and> off \<le> ip \<and> off < 2 ^ 16
     \<and> (\<forall>i < ml. xs ! (ip - off + i) = xs ! (ip + i))"

lemma lz_extend_spec:
  "ml \<le> mx \<Longrightarrow> (\<forall>i < ml. xs ! (r + i) = xs ! (ip + i)) \<Longrightarrow>
     ml \<le> lz_extend xs r ip ml mx \<and> lz_extend xs r ip ml mx \<le> mx
     \<and> (\<forall>i < lz_extend xs r ip ml mx. xs ! (r + i) = xs ! (ip + i))"
proof (induction xs r ip ml mx rule: lz_extend.induct)
  case (1 xs r ip ml mx)
  show ?case
  proof (cases "ml < mx \<and> xs ! (r + ml) = xs ! (ip + ml)")
    case True
    then have e: "lz_extend xs r ip ml mx = lz_extend xs r ip (ml + 1) mx" by (subst lz_extend.simps) simp
    have p: "\<forall>i < ml + 1. xs ! (r + i) = xs ! (ip + i)" using True "1.prems" by (auto simp: less_Suc_eq)
    have "ml + 1 \<le> mx" using True by simp
    from "1.IH" [OF True this p] show ?thesis unfolding e by (intro conjI) simp_all
  next
    case False
    then have "lz_extend xs r ip ml mx = ml" by (subst lz_extend.simps) auto
    then show ?thesis using "1.prems" by simp
  qed
qed

lemma four_bytes:
  "(xs ! r \<noteq> xs ! ip \<or> xs ! (r + 1) \<noteq> xs ! (ip + 1) \<or> xs ! (r + 2) \<noteq> xs ! (ip + 2) \<or> xs ! (r + 3) \<noteq> xs ! (ip + 3))
     \<longleftrightarrow> \<not> (\<forall>i < MIN_MATCH. xs ! (r + i) = xs ! (ip + i))"
  unfolding MIN_MATCH_def by (auto simp: less_Suc_eq numeral_eq_Suc)

lemma lz_chain_ok:
  assumes "ip + MIN_MATCH \<le> length xs"
  shows "fst best < MIN_MATCH \<or> match_ok xs ip (fst best) (snd best) \<Longrightarrow>
    fst (lz_chain xs prv ip lim ref best) < MIN_MATCH
    \<or> match_ok xs ip (fst (lz_chain xs prv ip lim ref best)) (snd (lz_chain xs prv ip lim ref best))"
proof (induction lim arbitrary: ref best)
  case (Suc lim)
  let ?d = "of_nat ip - ref :: u16" let ?r = "ip - unat ?d"
  let ?ml = "lz_extend xs ?r ip MIN_MATCH (length xs - ip)"
  show ?case
  proof (cases "ref = NIL \<or> ?d = 0 \<or> unat ?d > ip \<or> ?r + MIN_MATCH > length xs \<or> \<not> (\<forall>i < MIN_MATCH. xs ! (?r + i) = xs ! (ip + i))")
    case True
    then show ?thesis using Suc unfolding lz_chain.simps Let_def four_bytes by auto
  next
    case False
    then have e: "MIN_MATCH \<le> ?ml" "?ml \<le> length xs - ip" "\<forall>i < ?ml. xs ! (?r + i) = xs ! (ip + i)"
      using lz_extend_spec [of MIN_MATCH "length xs - ip" xs ?r ip] assms by auto
    have "0 < unat ?d" "unat ?d < 2 ^ 16" using False unsigned_less [of ?d] by (auto simp: unat_gt_0)
    then have ok: "match_ok xs ip ?ml (ip - ?r)" using e False assms by (auto simp: match_ok_def)
    show ?thesis
      using Suc False ok unfolding lz_chain.simps Let_def four_bytes by auto
  qed
qed simp

lemma lz_find_ok:
  assumes "lz_find xs ip ht = ((ml, off), ht')" and "\<not> ml < MIN_MATCH"
  shows "match_ok xs ip ml off"
  using assms lz_chain_ok [of ip xs "(0, 0)"] by (auto simp: lz_find_def MIN_MATCH_def split: if_splits) (metis fst_conv snd_conv)

lemma take_snoc_nth: "n < length xs \<Longrightarrow> take n xs @ [xs ! n] = take (Suc n) xs"
  by (simp add: take_Suc_conv_app_nth)

lemma lz_copy_bytes_match:
  assumes "0 < off" "off \<le> ip"
  shows "ip + k + n \<le> length xs \<Longrightarrow> (\<forall>i < k + n. xs ! (ip - off + i) = xs ! (ip + i)) \<Longrightarrow>
    lz_copy_bytes off n (take (ip + k) xs) = take (ip + k + n) xs"
proof (induction n arbitrary: k)
  case (Suc n)
  have "take (ip + k) xs ! (ip + k - off) = xs ! (ip - off + k)" using assms Suc.prems by simp
  also have "\<dots> = xs ! (ip + k)" using Suc.prems by simp
  finally show ?case using Suc.IH [of "Suc k"] Suc.prems take_snoc_nth [of "ip + k" xs] by simp
qed simp

lemma lz_copy_match_ok:
  assumes "match_ok xs ip ml off"
  shows "lz_copy_match off ml (take ip xs) = take (ip + ml) xs"
proof (cases "off < ml")
  case True
  have "lz_copy_bytes off ml (take (ip + 0) xs) = take (ip + 0 + ml) xs"
    using assms by (intro lz_copy_bytes_match) (auto simp: match_ok_def)
  then show ?thesis using True by (simp add: lz_copy_match_def)
next
  case False
  have "take ml (drop (ip - off) (take ip xs)) = take ml (drop ip xs)"
    using assms False by (intro nth_equalityI) (auto simp: match_ok_def)
  then show ?thesis using assms False by (simp add: lz_copy_match_def match_ok_def take_add min_absorb2)
qed

section \<open>Reading a sequence back\<close>

lemma read_lit_ovf:
  "(if lz_nibble k = NIBBLE_MAX then read_overflow (lit_ovf k @ rest) (c + lz_nibble k) else Inr (c + lz_nibble k, lit_ovf k @ rest))
     = Inr (c + k, rest)"
  by (auto simp: lit_ovf_def read_overflow_ovf lz_nibble_def)

lemma read_lit_ovf0:
  "(if lz_nibble k = NIBBLE_MAX then read_overflow (lit_ovf k @ rest) (lz_nibble k) else Inr (lz_nibble k, lit_ovf k @ rest)) = Inr (k, rest)"
  using read_lit_ovf [of k rest 0] by (simp only: add_0)

lemma offset_bytes:
  assumes "off < 2 ^ 16"
  shows "unat (ucast (of_nat off :: u16) :: u8) OR push_bit 8 (unat (ucast (drop_bit 8 (of_nat off :: u16)) :: u8)) = off"
proof -
  have l: "unat (ucast (of_nat off :: u16) :: u8) = take_bit 8 off"
    using assms by (simp add: unsigned_ucast_eq unat_of_nat)
  have h: "unat (ucast (drop_bit 8 (of_nat off :: u16)) :: u8) = drop_bit 8 off"
  proof -
    have "unat (drop_bit 8 (of_nat off :: u16)) = off div 256" using assms by (simp add: unat_drop_bit unat_of_nat del: drop_bit_numeral_bit0)
    moreover have "off div 256 < 256" using assms by (simp add: less_mult_imp_div_less)
    ultimately show ?thesis by (simp add: unsigned_ucast_eq drop_bit_eq_div take_bit_nat_eq_self)
  qed
  show ?thesis unfolding l h
  proof (rule bit_eqI)
    fix n :: nat
    show "bit (take_bit 8 off OR push_bit 8 (drop_bit 8 off)) n = bit off n"
      by (cases "n < 8") (auto simp: bit_simps)
  qed
qed

lemma lz_dec_seq_bytes:
  assumes m: "match_ok xs ip ml off" and ls: "ls \<le> ip" and cap: "length xs \<le> cap" and lits: "lits = take (ip - ls) (drop ls xs)"
  shows "lz_dec_seq cap (token_of (length lits) (ml - MIN_MATCH)) (tl (seq_bytes lits ml off) @ rest) (take ls xs)
    = Inr (rest, take (ip + ml) xs)"
proof -
  have l: "length lits = ip - ls" using m lits by (auto simp: match_ok_def)
  have ml: "MIN_MATCH + (ml - MIN_MATCH) = ml" "MIN_MATCH \<le> ml" using m by (auto simp: match_ok_def)
  have off: "off < 2 ^ 16" "off \<noteq> 0" "off \<le> ip" "ip + ml \<le> length xs" using m by (auto simp: match_ok_def)
  have pre: "take ls xs @ lits = take ip xs"
    using ls lits by (metis le_add_diff_inverse take_add)
  have o: "unat (le_bytes 2 (of_nat off :: u16) ! 0) OR push_bit 8 (unat (le_bytes 2 (of_nat off :: u16) ! 1)) = off"
    using offset_bytes [OF off(1)] by (simp add: le_bytes_2)
  have copy: "lz_copy_match off ml (take ip xs) = take (ip + ml) xs" using m by (rule lz_copy_match_ok)
  have hm: "(lz_nibble (ml - MIN_MATCH) \<noteq> 0 \<or> length lits + 2 \<le> length (lit_ovf (ml - MIN_MATCH) @ le_bytes 2 (of_nat off :: u16) @ lits @ rest)) = True"
    by simp
  show ?thesis
    unfolding lz_dec_seq_def Let_def token_nibbles seq_bytes_def list.sel append_assoc read_lit_ovf0 res_bind_simps prod.case hm
      if_True read_lit_ovf ml(1)
    using off pre o copy ml ls cap by (auto simp: nth_append l)
qed

lemma lz_dec_last_bytes:
  assumes "ls \<le> length xs" and "length xs \<le> cap"
  shows "lz_dec_seq cap (token_of (length (drop ls xs)) 0) (tl (last_bytes (drop ls xs))) (take ls xs) = Inr ([], xs)"
proof -
  have r: "(if lz_nibble k = NIBBLE_MAX then read_overflow (lit_ovf k @ ds) (lz_nibble k) else Inr (lz_nibble k, lit_ovf k @ ds)) = Inr (k, ds)"
    for k ds by (rule read_lit_ovf0)
  show ?thesis
    unfolding lz_dec_seq_def Let_def token_nibbles last_bytes_def list.sel r res_bind_simps prod.case
    using assms by (auto simp: MIN_MATCH_def)
qed

section \<open>The encoder loop\<close>

text \<open>A sequence costs at most one byte per 255 literals more than the input it covers.\<close>

lemma lit_ovf_length: "length (lit_ovf k) \<le> k div 255 + (if k \<ge> NIBBLE_MAX then 1 else 0)"
  by (auto simp: lit_ovf_def intro: div_le_mono)

lemma seq_bytes_length:
  assumes "MIN_MATCH \<le> ml"
  shows "length (seq_bytes lits ml off) \<le> length lits + ml + length lits div 255"
proof -
  have "length (lit_ovf (length lits)) \<le> length lits div 255 + 1" using lit_ovf_length [of "length lits"] by (simp split: if_splits)
  moreover have "length (lit_ovf (ml - MIN_MATCH)) + 4 \<le> ml"
    using assms div_le_dividend [of "ml - MIN_MATCH - NIBBLE_MAX" 255] by (auto simp: lit_ovf_def MIN_MATCH_def NIBBLE_MAX_def)
  ultimately show ?thesis by (simp add: seq_bytes_def)
qed

lemma last_bytes_length: "length (last_bytes lits) \<le> length lits + length lits div 255 + 2"
  using lit_ovf_length [of "length lits"] by (simp add: last_bytes_def split: if_splits)

lemma div_255_add: "a div 255 + b div 255 \<le> (a + b) div (255 :: nat)"
  by (metis add_mult_distrib2 div_mult_self1_is_m div_le_mono div_times_less_eq_dividend add_mono zero_less_numeral mult.commute)

lemma lz_enc_loop_ok:
  assumes "lit_start \<le> ip" and "ip \<le> length xs"
    and "length out + (length xs - lit_start) + (length xs - lit_start) div 255 + 2 \<le> cap"
  shows "\<exists>tail. lz_enc_loop xs cap ht ip lit_start out = Inr (out @ tail)
    \<and> length tail \<le> (length xs - lit_start) + (length xs - lit_start) div 255 + 2
    \<and> (\<forall>ocap. length xs \<le> ocap \<longrightarrow> lz_dec_loop ocap tail (take lit_start xs) = Inr xs)"
  using assms
proof (induction xs cap ht ip lit_start out rule: lz_enc_loop.induct)
  case (1 xs cap ht ip ls out)
  show ?case
  proof (cases "ip < length xs")
    case False
    let ?l = "drop ls xs"
    have "length out + length (last_bytes ?l) \<le> cap" using last_bytes_length [of ?l] "1.prems" by simp
    moreover have "lz_dec_loop ocap (last_bytes ?l) (take ls xs) = Inr xs" if "length xs \<le> ocap" for ocap
      using lz_dec_last_bytes [of ls xs ocap] "1.prems" that by (simp add: last_bytes_def)
    ultimately show ?thesis using False last_bytes_length [of ?l]
      by (subst lz_enc_loop.simps) (auto simp: lz_emit_last_spec)
  next
    case True
    obtain ml off ht' where f: "lz_find xs ip ht = ((ml, off), ht')" by (metis surj_pair)
    show ?thesis
    proof (cases "ml < MIN_MATCH")
      case m: True
      have "lz_enc_loop xs cap ht ip ls out = lz_enc_loop xs cap ht' (ip + 1) ls out"
        using True f m by (subst lz_enc_loop.simps) simp
      then show ?thesis using "1.IH"(1) [OF True f [symmetric] refl m] "1.prems" True by simp
    next
      case m: False
      let ?l = "take (ip - ls) (drop ls xs)" let ?e = "ip + ml"
      have ok: "match_ok xs ip ml off" using f m by (rule lz_find_ok)
      have e: "?e \<le> length xs" "MIN_MATCH \<le> ml" using ok by (auto simp: match_ok_def)
      have l: "length ?l = ip - ls" using "1.prems" by simp
      have s: "length (seq_bytes ?l ml off) \<le> (ip - ls) + ml + (ip - ls) div 255"
        using seq_bytes_length [OF e(2), of ?l off] l by simp
      have d: "(ip - ls) div 255 + (length xs - ?e) div 255 \<le> (length xs - ls) div 255"
      proof -
        have "ip - ls + (length xs - ?e) \<le> length xs - ls" using e "1.prems" by simp
        then have "(ip - ls + (length xs - ?e)) div 255 \<le> (length xs - ls) div 255" by (rule div_le_mono)
        with div_255_add [of "ip - ls" "length xs - ?e"] show ?thesis by (rule order_trans)
      qed
      have k: "length xs - ls = (ip - ls) + ml + (length xs - ?e)" using e "1.prems" by simp
      have emit: "lz_emit cap out ?l ml off = Inr (out @ seq_bytes ?l ml off)"
      proof -
        have "length out + length (seq_bytes ?l ml off) \<le> cap" using s d k "1.prems"(3) by linarith
        then show ?thesis by (simp add: lz_emit_spec)
      qed
      have r: "lz_enc_loop xs cap ht ip ls out = lz_enc_loop xs cap (lz_skip xs ?e (ip + 1) ht') ?e ?e (out @ seq_bytes ?l ml off)"
        using True f m emit by (subst lz_enc_loop.simps) (simp add: Let_def)
      have room: "length (out @ seq_bytes ?l ml off) + (length xs - ?e) + (length xs - ?e) div 255 + 2 \<le> cap"
        using s d k "1.prems"(3) unfolding length_append by linarith
      obtain tail where t: "lz_enc_loop xs cap ht ip ls out = Inr ((out @ seq_bytes ?l ml off) @ tail)"
        "length tail \<le> (length xs - ?e) + (length xs - ?e) div 255 + 2"
        "\<And>ocap. length xs \<le> ocap \<Longrightarrow> lz_dec_loop ocap tail (take ?e xs) = Inr xs"
        using "1.IH"(2) [OF True f [symmetric] refl m emit refl order_refl e(1) room] r by auto
      have "lz_dec_loop ocap (seq_bytes ?l ml off @ tail) (take ls xs) = Inr xs" if "length xs \<le> ocap" for ocap
        using lz_dec_seq_bytes [OF ok "1.prems"(1) that refl, of tail] t(3) [OF that] by (simp add: seq_bytes_def)
      then show ?thesis using t(1,2) s d k by (intro exI [of _ "seq_bytes ?l ml off @ tail"]) auto
    qed
  qed
qed

section \<open>Properties\<close>

lemma lzlite_encode_ok:
  assumes "tsdb_lzlite_max_output (length xs) \<le> cap"
  shows "\<exists>bytes. tsdb_lzlite_encode (Some scratch) xs cap = Inr bytes \<and> length bytes \<le> tsdb_lzlite_max_output (length xs)
    \<and> (\<forall>ocap. length xs \<le> ocap \<longrightarrow> tsdb_lzlite_decode bytes ocap = Inr xs)"
proof (cases "xs = []")
  case True
  then show ?thesis by (simp add: tsdb_lzlite_encode_def tsdb_lzlite_decode_def)
next
  case False
  let ?ht = "\<lparr>head = (\<lambda>h. NIL), prev = scratch\<rparr>"
  obtain tail where t: "lz_enc_loop xs cap ?ht 0 0 [] = Inr tail" "length tail \<le> length xs + length xs div 255 + 2"
    "\<forall>ocap. length xs \<le> ocap \<longrightarrow> lz_dec_loop ocap tail [] = Inr xs"
    using lz_enc_loop_ok [of 0 0 xs "[]" cap ?ht] assms by (auto simp: tsdb_lzlite_max_output_def)
  then have "tail \<noteq> []" using False by auto
  then show ?thesis using t False assms
    by (auto simp: tsdb_lzlite_encode_def tsdb_lzlite_decode_def tsdb_lzlite_max_output_def)
qed

lemma lzlite_round_trip:
  assumes "tsdb_lzlite_encode scratch xs cap = Inr bytes" and "length xs \<le> ocap"
  shows "tsdb_lzlite_decode bytes ocap = Inr xs"
proof (cases "xs = []")
  case True
  then show ?thesis using assms by (simp add: tsdb_lzlite_encode_def tsdb_lzlite_decode_def)
next
  case False
  then obtain prv where "scratch = Some prv" "tsdb_lzlite_max_output (length xs) \<le> cap"
    using assms(1) by (auto simp: tsdb_lzlite_encode_def split: if_splits option.splits)
  then show ?thesis using lzlite_encode_ok [of xs cap prv] assms by auto
qed

text \<open>C19: LZlite is lossless whatever the scratch memory holds: with the room of \<^verbatim>\<open>tsdb_lzlite_max_output\<close> the
  encoder succeeds within that room once its table is allocated and the decoder, given a buffer of the
  original size or more, restores the input; with less room a non-empty input is refused, and without
  the table the encoder reports the failed allocation.\<close>

theorem lzlite_lossless:
  "(if tsdb_lzlite_max_output (length xs) \<le> cap
    then (\<exists>bytes. tsdb_lzlite_encode (Some scratch) xs cap = Inr bytes \<and> length bytes \<le> tsdb_lzlite_max_output (length xs)
           \<and> tsdb_lzlite_decode bytes (length xs + slack) = Inr xs)
         \<and> (xs \<noteq> [] \<longrightarrow> tsdb_lzlite_encode None xs cap = Inl TSDB_ERR_NOMEM)
    else xs \<noteq> [] \<longrightarrow> tsdb_lzlite_encode (Some scratch) xs cap = Inl TSDB_ERR_OVERFLOW)"
  using lzlite_encode_ok [of xs cap scratch] by (auto simp: tsdb_lzlite_encode_def)

theorem lzlite_lossless_witness:
  "\<exists>bytes. tsdb_lzlite_encode (Some (\<lambda>_. 7)) [1, 2, 3, 4, 1, 2, 3, 4, 1, 2] 40 = Inr bytes
     \<and> tsdb_lzlite_decode bytes 12 = Inr [1, 2, 3, 4, 1, 2, 3, 4, 1, 2]"
proof -
  have "length [1, 2, 3, 4, 1, 2, 3, 4, 1, 2 :: u8] = 10" by simp
  then show ?thesis
    using lzlite_lossless [of "[1, 2, 3, 4, 1, 2, 3, 4, 1, 2]" 40 "\<lambda>_. 7" 2]
    by (auto simp: tsdb_lzlite_max_output_def simp del: list.size)
qed

lemma lz_copy_bytes_length: "length (lz_copy_bytes off n out) = length out + n"
  by (induction n arbitrary: out) auto

lemma lz_copy_match_length: "off \<le> length out \<Longrightarrow> length (lz_copy_match off ml out) = length out + ml"
  by (auto simp: lz_copy_match_def lz_copy_bytes_length)

lemma lz_dec_seq_bound: "lz_dec_seq cap token ins out = Inr (rest, out') \<Longrightarrow> length out \<le> cap \<Longrightarrow> length out' \<le> cap"
  by (auto simp: lz_dec_seq_def Let_def res_bind_Inr_iff lz_copy_match_length split: if_splits)

lemma read_overflow_error: "read_overflow ins acc = Inl e \<Longrightarrow> e = TSDB_ERR_CORRUPT"
  by (induction ins acc rule: read_overflow.induct) (auto split: if_splits)

lemma lz_dec_seq_error: "lz_dec_seq cap token ins out = Inl e \<Longrightarrow> e = TSDB_ERR_CORRUPT \<or> e = TSDB_ERR_OVERFLOW"
  by (auto simp: lz_dec_seq_def Let_def res_bind_Inl_iff split: if_splits dest!: read_overflow_error)

text \<open>C20: Decompression is safe on any bytes: it ends, it never writes past the output buffer, and its only
  failures are a corrupt stream and a full output buffer.\<close>

theorem lzlite_decode_safe:
  "(\<exists>out. tsdb_lzlite_decode ins cap = Inr out \<and> length out \<le> cap)
   \<or> tsdb_lzlite_decode ins cap = Inl TSDB_ERR_CORRUPT \<or> tsdb_lzlite_decode ins cap = Inl TSDB_ERR_OVERFLOW"
proof -
  have "length out \<le> cap \<Longrightarrow> (\<exists>out'. lz_dec_loop cap ins out = Inr out' \<and> length out' \<le> cap)
     \<or> lz_dec_loop cap ins out = Inl TSDB_ERR_CORRUPT \<or> lz_dec_loop cap ins out = Inl TSDB_ERR_OVERFLOW" for ins out
  proof (induction cap ins out rule: lz_dec_loop.induct)
    case (2 cap token ins out)
    show ?case
    proof (cases "lz_dec_seq cap token ins out")
      case (Inl e)
      then show ?thesis using lz_dec_seq_error [OF Inl] by auto
    next
      case (Inr p)
      then obtain rest out' where p: "lz_dec_seq cap token ins out = Inr (rest, out')" by (cases p) auto
      then show ?thesis using "2.IH" [OF p refl] lz_dec_seq_bound [OF p "2.prems"] by simp
    qed
  qed simp
  from this [of "[]" ins] show ?thesis by (auto simp: tsdb_lzlite_decode_def)
qed

end
