(* ===== verification/Codec_Block.thy ===== *)
theory Codec_Block
  imports Codec_Dec Codec_Gorilla Codec_Chimp Codec_Chimp128 Codec_Dict Codec_Lzlite
begin

text \<open>
  Model of \<^verbatim>\<open>src/compress/codec.c\<close>: the choice of a domain codec per column block, the optional LZlite
  wrapper around it, and the decoder. Column buffers are memory (lists of bytes, \<open>Core_Types\<close>); a
  returned byte count is the length of the byte list returned, so block sizes are below the range of
  \<^verbatim>\<open>int\<close>. The environment holds what the code gets from outside: which allocations succeed, the LZlite
  table of each call, and the environment variable.
\<close>

section \<open>Environment\<close>

datatype alloc_site =
    Ts_tmp | Int_tmp | Flt_tg | Flt_tc | Sym_tmp | F32_nd | F32_gtmp
  | Sf_dbuf | Sf_pbuf | Sf_dfin | Sf_pfin | Sf_dict_lz | Sf_pfor_lz
  | Df_q | Df_raw | Df_dfin | Df_dod_lz | Df_pfor_lz
  | Ad_dbuf | Ad_lz | Probe_lz

record codec_env =
  mem :: "alloc_site \<Rightarrow> bool"
  lz_table :: "alloc_site \<Rightarrow> (u16 \<Rightarrow> u16) option"
  decimal_var :: "string option"

section \<open>Domain codecs\<close>

definition FLOAT_LZ_SKIP_PCT :: nat where "FLOAT_LZ_SKIP_PCT = 50"

definition LZ_PROBE_BYTES :: nat where "LZ_PROBE_BYTES = 4096"

definition LZ_PROBE_CHUNKS :: nat where "LZ_PROBE_CHUNKS = 4"

definition LZ_PROBE_SKIP_PCT :: nat where "LZ_PROBE_SKIP_PCT = 99"

definition OUTER_LZ_MIN_GAIN :: int where "OUTER_LZ_MIN_GAIN = 16"

definition lz_probe_futile :: "codec_env \<Rightarrow> u8 list \<Rightarrow> nat \<Rightarrow> bool" where
  "lz_probe_futile env ins raw_bytes =
     (if raw_bytes = 0 then True
      else let sample =
             (if raw_bytes \<le> LZ_PROBE_BYTES then take raw_bytes ins
              else let chunk = LZ_PROBE_BYTES div LZ_PROBE_CHUNKS;
                       stride = (raw_bytes - chunk) div (LZ_PROBE_CHUNKS - 1)
                   in concat (map (\<lambda>c. take chunk (drop (c * stride) ins)) [0..<LZ_PROBE_CHUNKS]))
           in case tsdb_lzlite_encode (lz_table env Probe_lz) sample (LZ_PROBE_BYTES + LZ_PROBE_BYTES div 255 + 16) of
                Inl e \<Rightarrow> False
              | Inr out \<Rightarrow> length out * 100 \<ge> length sample * LZ_PROBE_SKIP_PCT)"

definition encode_timestamp :: "codec_env \<Rightarrow> u8 list \<Rightarrow> nat \<Rightarrow> nat \<Rightarrow> tsdb_err + (tsdb_codec_t \<times> u8 list)" where
  "encode_timestamp env ins in_count out_cap =
     (let xs = load_words 8 ins in_count in
      case tsdb_dod_encode xs out_cap of
        Inr out \<Rightarrow> Inr (TSDB_CODEC_DOD, out)
      | Inl rc \<Rightarrow>
          (case (if mem env Ts_tmp then tsdb_pfor_encode_i64 xs (out_cap + 64) else Inl TSDB_ERR_NOMEM) of
             Inr tmp \<Rightarrow>
               if length tmp \<le> out_cap then Inr (TSDB_CODEC_PFOR, tmp)
               else if in_count * 8 \<le> out_cap then Inr (TSDB_CODEC_NONE, take (in_count * 8) ins) else Inl TSDB_ERR_OVERFLOW
           | Inl _ \<Rightarrow>
               if in_count * 8 \<le> out_cap then Inr (TSDB_CODEC_NONE, take (in_count * 8) ins) else Inl TSDB_ERR_OVERFLOW))"

definition encode_int64 :: "codec_env \<Rightarrow> u8 list \<Rightarrow> nat \<Rightarrow> nat \<Rightarrow> tsdb_err + (tsdb_codec_t \<times> u8 list)" where
  "encode_int64 env ins in_count out_cap =
     (let xs = load_words 8 ins in_count; dod = tsdb_dod_encode xs out_cap in
      if \<not> mem env Int_tmp
      then case dod of Inr out \<Rightarrow> Inr (TSDB_CODEC_DOD, out) | Inl rc \<Rightarrow> Inl TSDB_ERR_NOMEM
      else case tsdb_pfor_encode_i64 xs (out_cap + 64) of
             Inr tmp \<Rightarrow>
               (case dod of
                  Inl rc \<Rightarrow> if length tmp \<le> out_cap then Inr (TSDB_CODEC_PFOR, tmp) else Inl rc
                | Inr out \<Rightarrow> if length tmp < length out \<and> length tmp \<le> out_cap then Inr (TSDB_CODEC_PFOR, tmp) else Inr (TSDB_CODEC_DOD, out))
           | Inl _ \<Rightarrow> (case dod of Inl rc \<Rightarrow> Inl rc | Inr out \<Rightarrow> Inr (TSDB_CODEC_DOD, out)))"

definition encode_float64 :: "codec_env \<Rightarrow> u8 list \<Rightarrow> nat \<Rightarrow> nat \<Rightarrow> tsdb_err + (tsdb_codec_t \<times> u8 list)" where
  "encode_float64 env ins in_count out_cap =
     (let xs = load_words 8 ins in_count;
          tmp_cap = (if in_count * 11 + 64 < out_cap + 64 then out_cap + 64 else in_count * 11 + 64) in
      if \<not> (mem env Flt_tg \<and> mem env Flt_tc)
      then res_bind (tsdb_chimp_encode xs out_cap) (\<lambda>out. Inr (TSDB_CODEC_CHIMP, out))
      else let g = tsdb_gorilla_encode xs tmp_cap;
               c = tsdb_chimp_encode xs tmp_cap;
               best = (case c of Inr out \<Rightarrow> Some (TSDB_CODEC_CHIMP, out) | Inl _ \<Rightarrow> None);
               best = (case g of
                         Inr out \<Rightarrow> (case best of
                                      Some (k, b) \<Rightarrow> if length out < length b then Some (TSDB_CODEC_GORILLA, out) else best
                                    | None \<Rightarrow> Some (TSDB_CODEC_GORILLA, out))
                       | Inl _ \<Rightarrow> best)
           in case best of
                None \<Rightarrow> Inl TSDB_ERR_INVAL
              | Some (k, b) \<Rightarrow> if length b > out_cap then Inl TSDB_ERR_OVERFLOW else Inr (k, b))"

definition encode_symbol :: "codec_env \<Rightarrow> u8 list \<Rightarrow> nat \<Rightarrow> nat \<Rightarrow> tsdb_err + (tsdb_codec_t \<times> u8 list)" where
  "encode_symbol env ins in_count out_cap =
     (let xs = load_words 4 ins in_count in
      res_bind (tsdb_dict_encode xs out_cap) (\<lambda>out.
        if \<not> mem env Sym_tmp then Inr (TSDB_CODEC_DICT, out)
        else case tsdb_pfor_encode xs (out_cap + 64) of
               Inr tmp \<Rightarrow> if length tmp < length out \<and> length tmp \<le> out_cap then Inr (TSDB_CODEC_PFOR, tmp) else Inr (TSDB_CODEC_DICT, out)
             | Inl _ \<Rightarrow> Inr (TSDB_CODEC_DICT, out)))"

definition encode_float32 :: "codec_env \<Rightarrow> u8 list \<Rightarrow> nat \<Rightarrow> nat \<Rightarrow> tsdb_err + (tsdb_codec_t \<times> u8 list)" where
  "encode_float32 env ins in_count out_cap =
     (let d = load_words 8 ins in_count;
          raw_bytes = in_count * 4;
          flat = (if raw_bytes > out_cap then Inl TSDB_ERR_FULL else Inr (TSDB_CODEC_F32, store_words 4 (map f32_of_f64 d))) in
      if mem env F32_nd
      then let nd = map (\<lambda>x. f64_of_f32 (f32_of_f64 x)) d in
           case (if mem env F32_gtmp then tsdb_gorilla_encode nd (in_count * 8 + 64) else Inl TSDB_ERR_NOMEM) of
             Inr g \<Rightarrow> if length g < raw_bytes \<and> length g \<le> out_cap then Inr (TSDB_CODEC_GORILLA, g) else flat
           | Inl _ \<Rightarrow> flat
      else flat)"

definition tsdb_codec_encode :: "codec_env \<Rightarrow> tsdb_type_t \<Rightarrow> u8 list \<Rightarrow> nat \<Rightarrow> nat \<Rightarrow> tsdb_err + (tsdb_codec_t \<times> u8 list)" where
  "tsdb_codec_encode env type ins in_count out_cap =
     (case type of
        TSDB_TYPE_TIMESTAMP \<Rightarrow> encode_timestamp env ins in_count out_cap
      | TSDB_TYPE_INT64 \<Rightarrow> encode_int64 env ins in_count out_cap
      | TSDB_TYPE_FLOAT64 \<Rightarrow> encode_float64 env ins in_count out_cap
      | TSDB_TYPE_SYMBOL \<Rightarrow> encode_symbol env ins in_count out_cap
      | TSDB_TYPE_FLOAT32 \<Rightarrow> encode_float32 env ins in_count out_cap)"

definition store_res :: "nat \<Rightarrow> tsdb_err + 'a::len word list \<Rightarrow> tsdb_err + u8 list" where
  "store_res k r = res_bind r (\<lambda>xs. Inr (store_words k xs))"

text \<open>The decoder; \<open>ok\<close> says whether the scratch allocation of the decimal codec succeeds.\<close>

definition tsdb_codec_decode :: "bool \<Rightarrow> tsdb_codec_t \<Rightarrow> tsdb_type_t \<Rightarrow> u8 list \<Rightarrow> nat \<Rightarrow> tsdb_err + u8 list" where
  "tsdb_codec_decode ok codec type ins out_count =
     (case codec of
        TSDB_CODEC_DOD \<Rightarrow> store_res 8 (tsdb_dod_decode ins out_count)
      | TSDB_CODEC_GORILLA \<Rightarrow> store_res 8 (tsdb_gorilla_decode ins out_count)
      | TSDB_CODEC_CHIMP \<Rightarrow> store_res 8 (tsdb_chimp_decode ins out_count)
      | TSDB_CODEC_CHIMP128 \<Rightarrow> store_res 8 (tsdb_chimp128_decode ins out_count)
      | TSDB_CODEC_DEC \<Rightarrow> store_res 8 (tsdb_dec_decode ok ins out_count)
      | TSDB_CODEC_DICT \<Rightarrow> store_res 4 (tsdb_dict_decode ins out_count)
      | TSDB_CODEC_PFOR \<Rightarrow>
          if type = TSDB_TYPE_INT64 \<or> type = TSDB_TYPE_TIMESTAMP then store_res 8 (tsdb_pfor_decode_i64 ins out_count)
          else store_res 4 (tsdb_pfor_decode ins out_count)
      | TSDB_CODEC_F32 \<Rightarrow>
          if length ins < out_count * 4 then Inl TSDB_ERR_CORRUPT
          else Inr (store_words 8 (map f64_of_f32 (load_words 4 ins out_count)))
      | TSDB_CODEC_RAW \<Rightarrow>
          if length ins < out_count * tsdb_type_width type then Inl TSDB_ERR_CORRUPT
          else Inr (take (out_count * tsdb_type_width type) ins)
      | TSDB_CODEC_NONE \<Rightarrow>
          if length ins < out_count * tsdb_type_width type then Inl TSDB_ERR_CORRUPT
          else Inr (take (out_count * tsdb_type_width type) ins)
      | TSDB_CODEC_FOR \<Rightarrow> Inl TSDB_ERR_UNSUPPORTED
      | TSDB_CODEC_LZLITE \<Rightarrow> Inl TSDB_ERR_UNSUPPORTED
      | TSDB_CODEC_BP128 \<Rightarrow> Inl TSDB_ERR_UNSUPPORTED)"

section \<open>The outer LZ stage\<close>

definition TSDB_BF_OUTER_LZ :: u16 where "TSDB_BF_OUTER_LZ = 1"

text \<open>The four header bytes \<^verbatim>\<open>(uint8_t)((o >> 8*i) & 0xFF)\<close> of the wrapped size.\<close>

definition lz_header :: "nat \<Rightarrow> u8 list" where
  "lz_header n = (let o32 = of_nat n :: u32 in [ucast (o32 AND 0xFF), ucast (drop_bit 8 o32 AND 0xFF),
     ucast (drop_bit 16 o32 AND 0xFF), ucast (drop_bit 24 o32 AND 0xFF)])"

definition lz_finalize :: "bool \<Rightarrow> (u16 \<Rightarrow> u16) option \<Rightarrow> u8 list \<Rightarrow> nat \<Rightarrow> int \<Rightarrow> (u16 \<times> u8 list) option" where
  "lz_finalize ok tab dmn dst_cap min_gain =
     (let plain = (if length dmn > dst_cap then None else Some (0, dmn)) in
      if ok
      then case tsdb_lzlite_encode tab dmn (tsdb_lzlite_max_output (length dmn)) of
             Inr lz \<Rightarrow>
               let wrapped = 4 + length lz
               in if int (length dmn) - int wrapped \<ge> min_gain \<and> wrapped \<le> dst_cap
                  then Some (TSDB_BF_OUTER_LZ, lz_header (length dmn) @ lz) else plain
           | Inl _ \<Rightarrow> plain
      else plain)"

definition dec_enabled :: "string option \<Rightarrow> bool" where
  "dec_enabled e = (case e of None \<Rightarrow> False | Some [] \<Rightarrow> False | Some (c # cs) \<Rightarrow> c \<noteq> CHR ''0'')"

text \<open>One round of the loop over the two integer codecs: a smaller result replaces the one kept.\<close>

definition decimal_step :: "codec_env \<Rightarrow> i64 list \<Rightarrow> nat \<Rightarrow> nat \<Rightarrow> nat \<Rightarrow> int \<Rightarrow> tsdb_codec_t \<times> alloc_site
    \<Rightarrow> (u16 \<times> u8 list) option \<Rightarrow> (u16 \<times> u8 list) option" where
  "decimal_step env q scale cap dst_cap min_gain = (\<lambda>(inner, site) ret.
     case tsdb_dec_pack q scale inner cap of
       Inl _ \<Rightarrow> ret
     | Inr raw \<Rightarrow>
         (case lz_finalize (mem env site) (lz_table env site) raw dst_cap min_gain of
            None \<Rightarrow> ret
          | Some (f, fin) \<Rightarrow>
              (case ret of
                 Some (f0, best) \<Rightarrow> if length fin \<ge> length best then ret else Some (f, fin)
               | None \<Rightarrow> Some (f, fin))))"

definition encode_decimal_final :: "codec_env \<Rightarrow> u8 list \<Rightarrow> nat \<Rightarrow> nat \<Rightarrow> int \<Rightarrow> (u16 \<times> u8 list) option" where
  "encode_decimal_final env ins in_count dst_cap min_gain =
     (let cap = in_count * 11 + 64 in
      if \<not> (mem env Df_q \<and> mem env Df_raw \<and> mem env Df_dfin) then None
      else case tsdb_dec_find_scale (load_words 8 ins in_count) of
             None \<Rightarrow> None
           | Some (scale, q) \<Rightarrow>
               fold (decimal_step env q scale cap dst_cap min_gain)
                 [(TSDB_CODEC_DOD, Df_dod_lz), (TSDB_CODEC_PFOR, Df_pfor_lz)] None)"

definition encode_symbol_final :: "codec_env \<Rightarrow> u8 list \<Rightarrow> nat \<Rightarrow> nat \<Rightarrow> int \<Rightarrow> (tsdb_codec_t \<times> u16 \<times> u8 list) option" where
  "encode_symbol_final env ins in_count out_cap min_gain =
     (let cap = out_cap + 64; xs = load_words 4 ins in_count in
      if \<not> (mem env Sf_dbuf \<and> mem env Sf_pbuf \<and> mem env Sf_dfin \<and> mem env Sf_pfin) then None
      else let d = tsdb_dict_encode xs cap;
               p = tsdb_pfor_encode xs cap;
               dfinal = (case d of Inl _ \<Rightarrow> None | Inr b \<Rightarrow> lz_finalize (mem env Sf_dict_lz) (lz_table env Sf_dict_lz) b cap min_gain);
               pfinal = (case p of Inl _ \<Rightarrow> None | Inr b \<Rightarrow> lz_finalize (mem env Sf_pfor_lz) (lz_table env Sf_pfor_lz) b cap min_gain);
               choice = (case (dfinal, pfinal) of
                           (Some (df, db), None) \<Rightarrow> Some (TSDB_CODEC_DICT, df, db)
                         | (Some (df, db), Some (pf, pb)) \<Rightarrow>
                             if length db \<le> length pb then Some (TSDB_CODEC_DICT, df, db) else Some (TSDB_CODEC_PFOR, pf, pb)
                         | (None, Some (pf, pb)) \<Rightarrow> Some (TSDB_CODEC_PFOR, pf, pb)
                         | (None, None) \<Rightarrow> None)
           in case choice of
                None \<Rightarrow> None
              | Some (k, f, b) \<Rightarrow> if length b > out_cap then None else Some (k, f, b))"

text \<open>Step 2 of the encoder: the wrapper over the bytes of the domain codec.\<close>

definition outer_lz :: "codec_env \<Rightarrow> tsdb_codec_t \<Rightarrow> u8 list \<Rightarrow> nat \<Rightarrow> int \<Rightarrow> tsdb_codec_t \<times> u16 \<times> u8 list" where
  "outer_lz env codec dmn out_cap min_gain =
     (if \<not> mem env Ad_lz then (codec, 0, dmn)
      else case tsdb_lzlite_encode (lz_table env Ad_lz) dmn (tsdb_lzlite_max_output (length dmn)) of
             Inr lz \<Rightarrow>
               let wrapped_bytes = 4 + length lz; gain = int (length dmn) - int wrapped_bytes
               in if gain \<ge> min_gain \<and> wrapped_bytes \<le> out_cap
                  then (codec, TSDB_BF_OUTER_LZ, lz_header (length dmn) @ lz) else (codec, 0, dmn)
           | Inl _ \<Rightarrow> (codec, 0, dmn))"

text \<open>Steps 1 to 2: what follows when neither the symbol nor the decimal path returned.\<close>

definition encode_ordinary :: "codec_env \<Rightarrow> tsdb_type_t \<Rightarrow> u8 list \<Rightarrow> nat \<Rightarrow> nat \<Rightarrow> int
    \<Rightarrow> tsdb_err + (tsdb_codec_t \<times> u16 \<times> u8 list)" where
  "encode_ordinary env type ins in_count out_cap min_gain =
     res_bind (tsdb_codec_encode env type ins in_count out_cap) (\<lambda>(codec, dmn).
       if type = TSDB_TYPE_FLOAT64 \<and> in_count > 0 \<and> length dmn \<ge> in_count * 8 \<and> in_count * 8 \<le> out_cap
       then Inr (TSDB_CODEC_RAW, 0, take (in_count * 8) ins)
       else if (codec = TSDB_CODEC_GORILLA \<or> codec = TSDB_CODEC_CHIMP \<or> codec = TSDB_CODEC_CHIMP128) \<and> in_count > 0
          \<and> length dmn * 100 \<ge> in_count * 8 * FLOAT_LZ_SKIP_PCT \<and> lz_probe_futile env ins (in_count * 8)
       then Inr (codec, 0, dmn)
       else Inr (outer_lz env codec dmn out_cap min_gain))"

definition tsdb_codec_encode_adaptive_ex :: "codec_env \<Rightarrow> tsdb_type_t \<Rightarrow> u8 list \<Rightarrow> nat \<Rightarrow> nat \<Rightarrow> int
    \<Rightarrow> tsdb_err + (tsdb_codec_t \<times> u16 \<times> u8 list)" where
  "tsdb_codec_encode_adaptive_ex env type ins in_count out_cap min_gain0 =
     (let min_gain = (if min_gain0 \<le> 0 then 1 else min_gain0);
          sym = (if type = TSDB_TYPE_SYMBOL \<and> in_count > 0 then encode_symbol_final env ins in_count out_cap min_gain else None);
          dec = (if type = TSDB_TYPE_FLOAT64 \<and> in_count > 0 \<and> dec_enabled (decimal_var env) \<and> mem env Ad_dbuf
                 then encode_decimal_final env ins in_count out_cap min_gain else None)
      in case sym of
           Some r \<Rightarrow> Inr r
         | None \<Rightarrow>
             (case dec of
                Some (f, b) \<Rightarrow>
                  if length b * 2 \<le> in_count * 8 then Inr (TSDB_CODEC_DEC, f, b)
                  else encode_ordinary env type ins in_count out_cap min_gain
              | None \<Rightarrow> encode_ordinary env type ins in_count out_cap min_gain))"

definition tsdb_codec_encode_adaptive :: "codec_env \<Rightarrow> tsdb_type_t \<Rightarrow> u8 list \<Rightarrow> nat \<Rightarrow> nat
    \<Rightarrow> tsdb_err + (tsdb_codec_t \<times> u16 \<times> u8 list)" where
  "tsdb_codec_encode_adaptive env type ins in_count out_cap =
     tsdb_codec_encode_adaptive_ex env type ins in_count out_cap OUTER_LZ_MIN_GAIN"

text \<open>The decoder of wrapped and plain blocks; \<open>ok\<close> and \<open>ok_dec\<close> say whether its allocations succeed.\<close>

definition tsdb_codec_decode_adaptive :: "bool \<Rightarrow> bool \<Rightarrow> tsdb_codec_t \<Rightarrow> tsdb_type_t \<Rightarrow> u16 \<Rightarrow> u8 list \<Rightarrow> nat
    \<Rightarrow> tsdb_err + u8 list" where
  "tsdb_codec_decode_adaptive ok ok_dec codec type flags ins out_count =
     (if flags AND TSDB_BF_OUTER_LZ = 0 then tsdb_codec_decode ok_dec codec type ins out_count
      else if length ins < 4 then Inl TSDB_ERR_CORRUPT
      else let orig_size = unat (get_u32_le ins) in
        if orig_size = 0 \<or> orig_size > 64 * 1024 * 1024 then Inl TSDB_ERR_CORRUPT
        else if \<not> ok then Inl TSDB_ERR_NOMEM
        else case tsdb_lzlite_decode (drop 4 ins) orig_size of
               Inl _ \<Rightarrow> Inl TSDB_ERR_CORRUPT
             | Inr tmp \<Rightarrow>
                 if length tmp \<noteq> orig_size then Inl TSDB_ERR_CORRUPT
                 else tsdb_codec_decode ok_dec codec type tmp out_count)"

section \<open>The domain codecs read back\<close>

text \<open>What a block stands for: the column itself, or the column at \<^verbatim>\<open>float\<close> precision.\<close>

definition block_image :: "tsdb_type_t \<Rightarrow> u8 list \<Rightarrow> nat \<Rightarrow> u8 list" where
  "block_image type ins n =
     (if type = TSDB_TYPE_FLOAT32 then store_words 8 (map (\<lambda>x. f64_of_f32 (f32_of_f64 x)) (load_words 8 ins n)) else ins)"

definition reads_back :: "tsdb_type_t \<Rightarrow> u8 list \<Rightarrow> nat \<Rightarrow> nat \<Rightarrow> tsdb_codec_t \<times> u8 list \<Rightarrow> bool" where
  "reads_back type ins n cap = (\<lambda>(codec, bytes).
     length bytes \<le> cap \<and> tsdb_codec_decode True codec type bytes n = Inr (block_image type ins n))"

definition column_of :: "tsdb_type_t \<Rightarrow> u8 list \<Rightarrow> nat \<Rightarrow> bool" where
  "column_of type ins n \<longleftrightarrow> length ins = n * tsdb_type_width type"

lemma column_words:
  assumes "column_of type ins n"
  shows "tsdb_type_width type = 8 \<Longrightarrow> store_words 8 (load_words 8 ins n :: u64 list) = ins"
    and "tsdb_type_width type = 4 \<Longrightarrow> store_words 4 (load_words 4 ins n :: u32 list) = ins"
  using assms by (auto simp: column_of_def mult.commute intro!: store_load_words)

lemma dod_reads_back:
  assumes "tsdb_dod_encode (load_words 8 ins n) cap = Inr out" and "column_of type ins n"
    and "type = TSDB_TYPE_TIMESTAMP \<or> type = TSDB_TYPE_INT64"
  shows "reads_back type ins n cap (TSDB_CODEC_DOD, out)"
  using assms dod_round_trip [OF assms(1), of "[]"] dod_encode_size(1) [OF assms(1)] column_words(1) [OF assms(2)]
  by (auto simp: reads_back_def tsdb_codec_decode_def store_res_def block_image_def tsdb_type_width_def)

lemma pfor_i64_reads_back:
  assumes "tsdb_pfor_encode_i64 (load_words 8 ins n) tcap = Inr out" and "column_of type ins n"
    and "type = TSDB_TYPE_TIMESTAMP \<or> type = TSDB_TYPE_INT64" and "length out \<le> cap"
  shows "reads_back type ins n cap (TSDB_CODEC_PFOR, out)"
  using assms pfor_i64_round_trip(2) [OF assms(1), of "[]"] column_words(1) [OF assms(2)]
  by (auto simp: reads_back_def tsdb_codec_decode_def store_res_def block_image_def tsdb_type_width_def)

lemma raw_reads_back:
  assumes "column_of type ins n" and "n * 8 \<le> cap" and "tsdb_type_width type = 8" and "type \<noteq> TSDB_TYPE_FLOAT32"
    and "codec = TSDB_CODEC_NONE \<or> codec = TSDB_CODEC_RAW"
  shows "reads_back type ins n cap (codec, take (n * 8) ins)"
  using assms by (auto simp: reads_back_def tsdb_codec_decode_def block_image_def column_of_def)

lemma dict_reads_back:
  assumes "tsdb_dict_encode (load_words 4 ins n) tcap = Inr out" and "column_of TSDB_TYPE_SYMBOL ins n"
    and "n < 2 ^ 64" and "length out \<le> cap"
  shows "reads_back TSDB_TYPE_SYMBOL ins n cap (TSDB_CODEC_DICT, out)"
  using assms dict_round_trip [OF assms(1), of "[]"] column_words(2) [OF assms(2)]
  by (auto simp: reads_back_def tsdb_codec_decode_def store_res_def block_image_def tsdb_type_width_def)

lemma pfor_reads_back:
  assumes "tsdb_pfor_encode (load_words 4 ins n) tcap = Inr out" and "column_of TSDB_TYPE_SYMBOL ins n" and "length out \<le> cap"
  shows "reads_back TSDB_TYPE_SYMBOL ins n cap (TSDB_CODEC_PFOR, out)"
  using assms pfor_round_trip(2) [OF assms(1), of "[]"] column_words(2) [OF assms(2)]
  by (auto simp: reads_back_def tsdb_codec_decode_def store_res_def block_image_def tsdb_type_width_def)

lemma gorilla_reads_back:
  assumes "tsdb_gorilla_encode xs tcap = Inr out" and "length xs = n" and "store_words 8 xs = block_image type ins n" and "length out \<le> cap"
  shows "reads_back type ins n cap (TSDB_CODEC_GORILLA, out)"
  using assms gorilla.float_round_trip [of xs tcap out "[]"]
  by (auto simp: reads_back_def tsdb_codec_decode_def store_res_def tsdb_gorilla_encode_def tsdb_gorilla_decode_def)

lemma chimp_reads_back:
  assumes "tsdb_chimp_encode xs tcap = Inr out" and "length xs = n" and "store_words 8 xs = block_image type ins n" and "length out \<le> cap"
  shows "reads_back type ins n cap (TSDB_CODEC_CHIMP, out)"
  using assms chimp.float_round_trip [of xs tcap out "[]"]
  by (auto simp: reads_back_def tsdb_codec_decode_def store_res_def tsdb_chimp_encode_def tsdb_chimp_decode_def)

lemma encode_timestamp_reads_back:
  assumes "encode_timestamp env ins n cap = Inr r" and "column_of TSDB_TYPE_TIMESTAMP ins n"
  shows "reads_back TSDB_TYPE_TIMESTAMP ins n cap r"
  using assms
  by (auto simp: encode_timestamp_def Let_def tsdb_type_width_def split: sum.splits if_splits
      intro: dod_reads_back pfor_i64_reads_back raw_reads_back)

lemma encode_int64_reads_back:
  assumes "encode_int64 env ins n cap = Inr r" and "column_of TSDB_TYPE_INT64 ins n"
  shows "reads_back TSDB_TYPE_INT64 ins n cap r"
  using assms
  by (auto simp: encode_int64_def Let_def split: sum.splits if_splits intro: dod_reads_back pfor_i64_reads_back)

lemma encode_symbol_reads_back:
  assumes "encode_symbol env ins n cap = Inr r" and "column_of TSDB_TYPE_SYMBOL ins n" and "n < 2 ^ 64"
  shows "reads_back TSDB_TYPE_SYMBOL ins n cap r"
proof -
  from assms(1) obtain out where out: "tsdb_dict_encode (load_words 4 ins n) cap = Inr out"
    by (auto simp: encode_symbol_def Let_def res_bind_Inr_iff)
  have "length out \<le> cap" using dict_encode_size [OF out] .
  then show ?thesis using assms out
    by (auto simp: encode_symbol_def Let_def split: sum.splits if_splits intro: dict_reads_back pfor_reads_back)
qed

lemma float64_image: "column_of TSDB_TYPE_FLOAT64 ins n \<Longrightarrow> store_words 8 (load_words 8 ins n :: u64 list) = block_image TSDB_TYPE_FLOAT64 ins n"
  using column_words(1) [of TSDB_TYPE_FLOAT64 ins n] by (simp add: block_image_def tsdb_type_width_def)

lemma encode_float64_reads_back:
  assumes "encode_float64 env ins n cap = Inr r" and "column_of TSDB_TYPE_FLOAT64 ins n"
  shows "reads_back TSDB_TYPE_FLOAT64 ins n cap r"
proof -
  note i = float64_image [OF assms(2)]
  have c: "length out \<le> cap" if "tsdb_chimp_encode (load_words 8 ins n) cap = Inr out" for out
    using chimp.float_encode_size(1) that by (simp add: tsdb_chimp_encode_def)
  show ?thesis
    using assms(1) c
    by (auto simp: encode_float64_def Let_def res_bind_Inr_iff split: sum.splits if_splits option.splits
        intro: gorilla_reads_back [OF _ length_load_words i] chimp_reads_back [OF _ length_load_words i])
qed

lemma encode_float32_reads_back:
  assumes "encode_float32 env ins n cap = Inr r"
  shows "reads_back TSDB_TYPE_FLOAT32 ins n cap r"
proof -
  let ?nd = "map (\<lambda>x. f64_of_f32 (f32_of_f64 x)) (load_words 8 ins n)"
  have i: "store_words 8 ?nd = block_image TSDB_TYPE_FLOAT32 ins n" by (simp add: block_image_def)
  have l: "length ?nd = n" by simp
  have "load_words 4 (store_words 4 (map f32_of_f64 (load_words 8 ins n))) n = map f32_of_f64 (load_words 8 ins n)"
    using load_store_words [of 4 "map f32_of_f64 (load_words 8 ins n)" "[]"] by simp
  then have f: "reads_back TSDB_TYPE_FLOAT32 ins n cap (TSDB_CODEC_F32, store_words 4 (map f32_of_f64 (load_words 8 ins n)))"
    if "n * 4 \<le> cap" using that
    by (simp add: reads_back_def tsdb_codec_decode_def block_image_def comp_def mult.commute)
  show ?thesis
    using assms f by (auto simp: encode_float32_def Let_def split: sum.splits if_splits intro: gorilla_reads_back [OF _ l i])
qed

lemma codec_encode_reads_back:
  assumes "tsdb_codec_encode env type ins n cap = Inr r" and "column_of type ins n" and "n < 2 ^ 64"
  shows "reads_back type ins n cap r"
  using assms
  by (cases type) (auto simp: tsdb_codec_encode_def encode_timestamp_reads_back encode_int64_reads_back encode_symbol_reads_back
      encode_float64_reads_back encode_float32_reads_back)

section \<open>The outer stage reads back\<close>

definition LZ_MAX_ORIG :: nat where "LZ_MAX_ORIG = 64 * 1024 * 1024"

lemma ucast_and_FF_32: "(ucast (v AND 0xFF :: u32) :: u8) = ucast v"
proof -
  have "v AND 0xFF = take_bit 8 v" using and_mask_take_bit [of v 8] by (simp add: mask_eq_exp_minus_1)
  then show ?thesis by (auto intro!: bit_word_eqI simp: bit_simps)
qed

lemma lz_header_eq: "lz_header n = put_u32_le (of_nat n)"
  by (simp add: lz_header_def put_u32_le_def Let_def ucast_and_FF_32)

lemma unwrap_block:
  assumes "tsdb_lzlite_encode tab dmn c = Inr lz" and "dmn \<noteq> []" and "length dmn \<le> LZ_MAX_ORIG"
  shows "tsdb_codec_decode_adaptive True ok codec type TSDB_BF_OUTER_LZ (lz_header (length dmn) @ lz) n
    = tsdb_codec_decode ok codec type dmn n"
proof -
  have "unat (of_nat (length dmn) :: u32) = length dmn" using assms(3) by (simp add: unat_of_nat LZ_MAX_ORIG_def)
  moreover have "tsdb_lzlite_decode lz (length dmn) = Inr dmn" using lzlite_round_trip [OF assms(1)] by simp
  ultimately show ?thesis
    using assms(2,3) by (simp add: tsdb_codec_decode_adaptive_def lz_header_eq LZ_MAX_ORIG_def TSDB_BF_OUTER_LZ_def Let_def)
qed

lemma plain_block: "tsdb_codec_decode_adaptive True ok codec type 0 dmn n = tsdb_codec_decode ok codec type dmn n"
  by (simp add: tsdb_codec_decode_adaptive_def)

text \<open>A stage that wraps or not: the block decodes to what the inner bytes decode to, and a wrapped block is smaller.\<close>

definition wraps :: "nat \<Rightarrow> u8 list \<Rightarrow> u16 \<times> u8 list \<Rightarrow> bool" where
  "wraps cap dmn = (\<lambda>(f, b). length b \<le> cap \<and> length b \<le> length dmn
     \<and> (\<forall>codec type n. tsdb_codec_decode_adaptive True True codec type f b n = tsdb_codec_decode True codec type dmn n))"

lemma wraps_wrapped:
  assumes "tsdb_lzlite_encode tab dmn c = Inr lz" and "length dmn \<le> LZ_MAX_ORIG" and "1 \<le> g"
    and "g \<le> int (length dmn) - int (4 + length lz)" and "4 + length lz \<le> cap"
  shows "wraps cap dmn (TSDB_BF_OUTER_LZ, lz_header (length dmn) @ lz)"
proof -
  have "dmn \<noteq> []" using assms(3,4) by auto
  then show ?thesis using assms unwrap_block [OF assms(1)] by (simp add: wraps_def lz_header_eq)
qed

lemma wraps_plain: "length dmn \<le> cap \<Longrightarrow> wraps cap dmn (0, dmn)"
  by (simp add: wraps_def plain_block)

lemma lz_finalize_wraps:
  assumes "lz_finalize ok tab dmn cap g = Some r" and "1 \<le> g" and "length dmn \<le> LZ_MAX_ORIG"
  shows "wraps cap dmn r"
  using assms by (auto simp: lz_finalize_def Let_def split: if_splits sum.splits intro: wraps_plain wraps_wrapped)

lemma outer_lz_wraps:
  assumes "outer_lz env codec dmn cap g = (k, r)" and "1 \<le> g" and "length dmn \<le> LZ_MAX_ORIG" and "length dmn \<le> cap"
  shows "k = codec \<and> wraps cap dmn r"
  using assms by (auto simp: outer_lz_def Let_def split: if_splits sum.splits intro: wraps_plain wraps_wrapped)

text \<open>The result of the adaptive encoder: its size, and that the adaptive decoder restores the block.\<close>

definition block_ok :: "tsdb_type_t \<Rightarrow> u8 list \<Rightarrow> nat \<Rightarrow> nat \<Rightarrow> tsdb_codec_t \<times> u16 \<times> u8 list \<Rightarrow> bool" where
  "block_ok type ins n cap = (\<lambda>(codec, flags, bytes).
     length bytes \<le> cap \<and> tsdb_codec_decode_adaptive True True codec type flags bytes n = Inr (block_image type ins n))"

lemma block_okI:
  "wraps cap dmn r \<Longrightarrow> reads_back type ins n c (codec, dmn) \<Longrightarrow> block_ok type ins n cap (codec, r)"
  by (auto simp: wraps_def reads_back_def block_ok_def)

lemma symbol_final_ok:
  assumes "encode_symbol_final env ins n cap g = Some r" and "column_of TSDB_TYPE_SYMBOL ins n" and "n < 2 ^ 64"
    and "1 \<le> g" and "cap + 64 \<le> LZ_MAX_ORIG"
  shows "block_ok TSDB_TYPE_SYMBOL ins n cap r"
proof -
  let ?xs = "load_words 4 ins n"
  have d: "block_ok TSDB_TYPE_SYMBOL ins n (cap + 64) (TSDB_CODEC_DICT, f, b)"
    if "tsdb_dict_encode ?xs (cap + 64) = Inr out" "lz_finalize ok tab out (cap + 64) g = Some (f, b)" for out ok tab f b
  proof -
    have "length out \<le> cap + 64" using dict_encode_size [OF that(1)] .
    then show ?thesis
      using assms that by (intro block_okI [OF lz_finalize_wraps [OF that(2)] dict_reads_back [OF that(1)]]) auto
  qed
  have p: "block_ok TSDB_TYPE_SYMBOL ins n (cap + 64) (TSDB_CODEC_PFOR, f, b)"
    if "tsdb_pfor_encode ?xs (cap + 64) = Inr out" "lz_finalize ok tab out (cap + 64) g = Some (f, b)" for out ok tab f b
  proof -
    have "length out \<le> cap + 64" using pfor_round_trip(1) [OF that(1)] .
    then show ?thesis
      using assms that by (intro block_okI [OF lz_finalize_wraps [OF that(2)] pfor_reads_back [OF that(1)]]) auto
  qed
  have "block_ok TSDB_TYPE_SYMBOL ins n (cap + 64) r \<and> length (snd (snd r)) \<le> cap"
    using assms(1) d p by (auto simp: encode_symbol_final_def Let_def split: if_splits sum.splits option.splits prod.splits)
  then show ?thesis by (auto simp: block_ok_def)
qed

lemma dec_pack_reads_back:
  assumes "tsdb_dec_find_scale (load_words 8 ins n) = Some (s, q)" and "tsdb_dec_pack q s inner c = Inr raw"
    and "column_of TSDB_TYPE_FLOAT64 ins n"
  shows "reads_back TSDB_TYPE_FLOAT64 ins n c (TSDB_CODEC_DEC, raw)"
proof -
  have m: "map (\<lambda>x. dec_expand x s) q = load_words 8 ins n" using dec_find_scale_spec(3) [OF assms(1)] .
  then have "length q = n" by (metis length_load_words length_map)
  then have "tsdb_dec_decode True raw n = Inr (load_words 8 ins n)" using dec_decode_pack [OF assms(2), of "[]"] m by simp
  then show ?thesis using dec_pack_size [OF assms(2)] float64_image [OF assms(3)]
    by (simp add: reads_back_def tsdb_codec_decode_def store_res_def)
qed

lemma decimal_step_ok:
  assumes "\<And>r. ret = Some r \<Longrightarrow> block_ok TSDB_TYPE_FLOAT64 ins n cap (TSDB_CODEC_DEC, r)"
    and "decimal_step env q s c cap g (inner, site) ret = Some r"
    and "tsdb_dec_find_scale (load_words 8 ins n) = Some (s, q)" and "column_of TSDB_TYPE_FLOAT64 ins n" and "1 \<le> g" and "c \<le> LZ_MAX_ORIG"
  shows "block_ok TSDB_TYPE_FLOAT64 ins n cap (TSDB_CODEC_DEC, r)"
proof -
  have "block_ok TSDB_TYPE_FLOAT64 ins n cap (TSDB_CODEC_DEC, f, b)"
    if p: "tsdb_dec_pack q s inner c = Inr raw" and z: "lz_finalize (mem env site) (lz_table env site) raw cap g = Some (f, b)" for raw f b
  proof (rule block_okI [OF lz_finalize_wraps [OF z assms(5)] dec_pack_reads_back [OF assms(3) p assms(4)]])
    show "length raw \<le> LZ_MAX_ORIG" using dec_pack_size [OF p] assms(6) by simp
  qed
  then show ?thesis using assms(1,2) by (auto simp: decimal_step_def split: sum.splits option.splits prod.splits if_splits)
qed

lemma decimal_final_ok:
  assumes "encode_decimal_final env ins n cap g = Some r" and "column_of TSDB_TYPE_FLOAT64 ins n"
    and "1 \<le> g" and "n * 11 + 64 \<le> LZ_MAX_ORIG"
  shows "block_ok TSDB_TYPE_FLOAT64 ins n cap (TSDB_CODEC_DEC, r)"
proof -
  let ?step = "\<lambda>s q. decimal_step env q s (n * 11 + 64) cap g"
  obtain s q where f: "tsdb_dec_find_scale (load_words 8 ins n) = Some (s, q)"
    and r: "?step s q (TSDB_CODEC_PFOR, Df_pfor_lz) (?step s q (TSDB_CODEC_DOD, Df_dod_lz) None) = Some r"
    using assms(1) by (auto simp: encode_decimal_final_def Let_def split: if_splits option.splits)
  have "block_ok TSDB_TYPE_FLOAT64 ins n cap (TSDB_CODEC_DEC, r1)"
    if "?step s q (TSDB_CODEC_DOD, Df_dod_lz) None = Some r1" for r1
    by (rule decimal_step_ok [OF _ that f assms(2,3,4)]) simp
  then show ?thesis by (rule decimal_step_ok [OF _ r f assms(2,3,4)])
qed

lemma ordinary_ok:
  assumes "encode_ordinary env type ins n cap g = Inr r" and "column_of type ins n" and "n < 2 ^ 64" and "1 \<le> g" and "cap \<le> LZ_MAX_ORIG"
  shows "block_ok type ins n cap r"
proof -
  obtain codec dmn where e: "tsdb_codec_encode env type ins n cap = Inr (codec, dmn)"
    using assms(1) by (auto simp: encode_ordinary_def res_bind_Inr_iff)
  have b: "reads_back type ins n cap (codec, dmn)" using codec_encode_reads_back [OF e assms(2,3)] .
  then have l: "length dmn \<le> cap" "length dmn \<le> LZ_MAX_ORIG" using assms(5) by (auto simp: reads_back_def)
  have raw: "block_ok type ins n cap (TSDB_CODEC_RAW, 0, take (n * 8) ins)" if "type = TSDB_TYPE_FLOAT64" "n * 8 \<le> cap"
    using that assms(2) by (intro block_okI [OF wraps_plain raw_reads_back]) (auto simp: tsdb_type_width_def)
  have plain: "block_ok type ins n cap (codec, 0, dmn)" using l b by (intro block_okI [OF wraps_plain])
  have "block_ok type ins n cap (outer_lz env codec dmn cap g)"
    using outer_lz_wraps [of env codec dmn cap g] assms(4) l b by (cases "outer_lz env codec dmn cap g") (auto intro: block_okI)
  then show ?thesis using assms(1) e raw plain by (auto simp: encode_ordinary_def split: if_splits)
qed

lemma adaptive_ok:
  assumes "tsdb_codec_encode_adaptive_ex env type ins n cap g0 = Inr r" and "column_of type ins n"
    and "cap + 64 \<le> LZ_MAX_ORIG" and "n * 11 + 64 \<le> LZ_MAX_ORIG"
  shows "block_ok type ins n cap r"
proof -
  let ?g = "if g0 \<le> 0 then 1 else g0"
  have g: "1 \<le> ?g" by simp
  have n: "n < 2 ^ 64" "cap \<le> LZ_MAX_ORIG" using assms(3,4) by (auto simp: LZ_MAX_ORIG_def)
  show ?thesis
    using assms symbol_final_ok [OF _ _ n(1) g assms(3), of env ins r] decimal_final_ok [OF _ _ g assms(4), of env ins cap]
      ordinary_ok [OF _ assms(2) n(1) g n(2), of env r]
    unfolding tsdb_codec_encode_adaptive_ex_def Let_def
    by (auto split: option.splits if_splits)
qed

section \<open>Size of a float block\<close>

lemma chimp_total:
  assumes "n * 11 + 64 \<le> c"
  shows "\<exists>out. tsdb_chimp_encode (load_words 8 ins n) c = Inr out \<and> length out \<le> n * 11 + 64"
proof -
  have "8 + (n * 75 + 7) div 8 \<le> n * 11 + 64" by simp
  then show ?thesis
    using chimp.float_encode_total [of "load_words 8 ins n" c] chimp.float_encode_size(2) [of "load_words 8 ins n" c] assms
    by (fastforce simp: tsdb_chimp_encode_def)
qed

lemma encode_float64_total:
  assumes "n * 11 + 64 \<le> cap"
  shows "\<exists>k b. encode_float64 env ins n cap = Inr (k, b)"
proof -
  let ?c = "if n * 11 + 64 < cap + 64 then cap + 64 else n * 11 + 64"
  have "n * 11 + 64 \<le> ?c" by simp
  then obtain out where out: "tsdb_chimp_encode (load_words 8 ins n) ?c = Inr out" "length out \<le> n * 11 + 64"
    using chimp_total by metis
  obtain out2 where "tsdb_chimp_encode (load_words 8 ins n) cap = Inr out2" using chimp_total [OF assms] by metis
  then show ?thesis
    using out assms unfolding encode_float64_def Let_def
    by (auto split: sum.splits)
qed

lemma outer_lz_size: "outer_lz env codec dmn cap g = (k, f, b) \<Longrightarrow> 1 \<le> g \<Longrightarrow> length b \<le> length dmn"
  by (auto simp: outer_lz_def Let_def lz_header_eq split: if_splits sum.splits)

lemma encode_ordinary_float64:
  assumes "n * 11 + 64 \<le> cap" and "0 < n" and "1 \<le> g" and "length ins = n * 8"
  shows "\<exists>k f b. encode_ordinary env TSDB_TYPE_FLOAT64 ins n cap g = Inr (k, f, b) \<and> length b \<le> n * 8"
proof -
  obtain k b where e: "encode_float64 env ins n cap = Inr (k, b)" using encode_float64_total [OF assms(1)] by blast
  obtain k' f' b' where o: "outer_lz env k b cap g = (k', f', b')" by (metis prod_cases3)
  have "length b' \<le> length b" using outer_lz_size [OF o assms(3)] .
  then show ?thesis using e o assms by (auto simp: encode_ordinary_def tsdb_codec_encode_def)
qed

lemma adaptive_float64:
  assumes "n * 11 + 64 \<le> cap" and "0 < n" and "length ins = n * 8"
  shows "\<exists>k f b. tsdb_codec_encode_adaptive_ex env TSDB_TYPE_FLOAT64 ins n cap g0 = Inr (k, f, b) \<and> length b \<le> n * 8"
proof -
  let ?g = "if g0 \<le> 0 then 1 else g0 :: int"
  have "1 \<le> ?g" by simp
  note o = encode_ordinary_float64 [OF assms(1,2) this assms(3), of env]
  show ?thesis
    unfolding tsdb_codec_encode_adaptive_ex_def Let_def
    using o by (cases "if TSDB_TYPE_FLOAT64 = TSDB_TYPE_FLOAT64 \<and> n > 0 \<and> dec_enabled (decimal_var env) \<and> mem env Ad_dbuf
        then encode_decimal_final env ins n cap ?g else None") auto
qed

section \<open>Properties\<close>


definition plain_env :: codec_env where
  "plain_env = \<lparr>mem = (\<lambda>s. True), lz_table = (\<lambda>s. Some (\<lambda>i. 0)), decimal_var = Some ''1''\<rparr>"






end
