(* ===== verification/Server_Crc.thy ===== *)
theory Server_Crc
  imports Core_Types
begin

text \<open>
  Model of the CRC-32C checksum of \<^verbatim>\<open>src/server/proto.c\<close>: the table-driven software path, eight bytes per step.
  (The SSE4.2 and ARMv8 paths are single machine instructions for the same function.) The tables are
  shown to compute plain bitwise division by the Castagnoli polynomial, and the checksum to notice every
  change confined to four consecutive bytes.
\<close>

section \<open>CRC-32C\<close>

definition CRC32C_POLY :: u32 where "CRC32C_POLY = 0x82F63B78"

text \<open>One round of the inner loop of \<^verbatim>\<open>crc32c_build_table\<close>.\<close>

definition crc_shift :: "u32 \<Rightarrow> u32" where
  "crc_shift c = (if c AND 1 \<noteq> 0 then CRC32C_POLY XOR drop_bit 1 c else drop_bit 1 c)"

definition crc_table0 :: "u32 list" where
  "crc_table0 = map (\<lambda>i. (crc_shift ^^ 8) (of_nat i)) [0..<256]"

definition crc_next_row :: "u32 list \<Rightarrow> u32 list" where
  "crc_next_row row = map (\<lambda>c. crc_table0 ! unat (c AND 0xFF) XOR drop_bit 8 c) row"

definition crc32c_build_table :: "u32 list list" where
  "crc32c_build_table = map (\<lambda>s. (crc_next_row ^^ s) crc_table0) [0..<8]"

definition crc_at :: "nat \<Rightarrow> u32 \<Rightarrow> u32" where
  "crc_at s i = crc32c_build_table ! s ! unat i"

text \<open>The two loops of \<^verbatim>\<open>crc32c_step_sw\<close>: eight bytes at a time, then the rest byte by byte.\<close>

definition crc_eight :: "u32 \<Rightarrow> u8 list \<Rightarrow> u32" where
  "crc_eight crc p =
     (let w0 = le_acc 0 0 (take 4 p); w1 = le_acc 0 0 (take 4 (drop 4 p));
          c0 = crc XOR w0; c1 = w1
      in crc_at 7 (c0 AND 0xFF) XOR crc_at 6 (drop_bit 8 c0 AND 0xFF) XOR crc_at 5 (drop_bit 16 c0 AND 0xFF)
         XOR crc_at 4 (drop_bit 24 c0) XOR crc_at 3 (c1 AND 0xFF) XOR crc_at 2 (drop_bit 8 c1 AND 0xFF)
         XOR crc_at 1 (drop_bit 16 c1 AND 0xFF) XOR crc_at 0 (drop_bit 24 c1))"

definition crc_one :: "u8 \<Rightarrow> u32 \<Rightarrow> u32" where
  "crc_one b crc = crc_at 0 ((crc XOR ucast b) AND 0xFF) XOR drop_bit 8 crc"

function crc32c_step_sw :: "u32 \<Rightarrow> u8 list \<Rightarrow> u32" where
  "crc32c_step_sw crc p =
     (if length p \<ge> 8 then crc32c_step_sw (crc_eight crc p) (drop 8 p) else fold crc_one p crc)"
  by pat_completeness auto
termination
  by (relation "measure (\<lambda>(crc, p). length p)") auto

declare crc32c_step_sw.simps [simp del]

definition tsdb_crc32c_update :: "u32 \<Rightarrow> u8 list \<Rightarrow> u32" where
  "tsdb_crc32c_update crc p = crc32c_step_sw (crc XOR 0xFFFFFFFF) p XOR 0xFFFFFFFF"

definition tsdb_crc32c :: "u8 list \<Rightarrow> u32" where
  "tsdb_crc32c p = crc32c_step_sw 0xFFFFFFFF p XOR 0xFFFFFFFF"

section \<open>The checksum as bitwise polynomial division\<close>

definition crc_byte :: "u8 \<Rightarrow> u32 \<Rightarrow> u32" where
  "crc_byte b crc = (crc_shift ^^ 8) (crc XOR ucast b)"

definition crc_ref :: "u32 \<Rightarrow> u8 list \<Rightarrow> u32" where
  "crc_ref crc bs = fold crc_byte bs crc"

lemma and_1_bit: "c AND 1 \<noteq> 0 \<longleftrightarrow> bit (c :: 'a::len word) 0"
  by (simp add: and_one_eq bit_0 odd_iff_mod_2_eq_one)

lemma crc_shift_xor: "crc_shift (a XOR b) = crc_shift a XOR crc_shift b"
proof (rule bit_word_eqI)
  fix n
  show "bit (crc_shift (a XOR b)) n = bit (crc_shift a XOR crc_shift b) n"
    unfolding crc_shift_def and_1_bit bit_xor_iff by (auto simp: bit_xor_iff)
qed

lemma crc_shifts_xor: "(crc_shift ^^ k) (a XOR b) = (crc_shift ^^ k) a XOR (crc_shift ^^ k) b"
  by (induction k) (simp_all add: crc_shift_xor)

lemma crc_shift_0 [simp]: "crc_shift 0 = 0"
  by (simp add: crc_shift_def)

lemma crc_shift_push:
  assumes "take_bit 31 d = d"
  shows "crc_shift (push_bit 1 d) = d"
proof -
  have "\<not> bit (push_bit 1 d) 0" unfolding bit_push_bit_iff by simp
  moreover have "drop_bit 1 (push_bit 1 d) = d"
    using drop_bit_or_push [of 1 0 d] assms by simp
  ultimately show ?thesis unfolding crc_shift_def and_1_bit by simp
qed

lemma crc_shifts_push:
  "k \<le> 32 \<Longrightarrow> take_bit (32 - k) d = d \<Longrightarrow> (crc_shift ^^ k) (push_bit k d) = d"
proof (induction k arbitrary: d)
  case (Suc k)
  have f: "take_bit 31 d = d" by (rule fits_mono [OF Suc.prems(2)]) simp
  have p: "push_bit (Suc k) d = push_bit k (push_bit 1 d)" by (simp only: push_bit_push_bit Suc_eq_plus1)
  have "take_bit (32 - k) (push_bit 1 d) = push_bit 1 d"
  proof (rule fitsI)
    fix i assume "32 - k \<le> i" "i < LENGTH(32)"
    then have "\<not> bit d (i - 1)" by (intro fits_bit [OF Suc.prems(2)]) arith
    then show "\<not> bit (push_bit 1 d) i" unfolding bit_push_bit_iff by blast
  qed
  then have "(crc_shift ^^ k) (push_bit (Suc k) d) = push_bit 1 d"
    unfolding p by (rule Suc.IH [OF Suc_leD [OF Suc.prems(1)]])
  then show ?case using crc_shift_push [OF f] by (simp only: funpow.simps comp_apply)
qed simp

lemma crc_shift_top: "bit (crc_shift c) 31 = bit c 0"
proof -
  have "\<not> bit c 32" using bit_imp_le_length [of c 32] by auto
  then have "\<not> bit (drop_bit 1 c) 31" unfolding bit_drop_bit_eq by simp
  moreover have "bit CRC32C_POLY 31" by (simp add: CRC32C_POLY_def)
  ultimately show ?thesis unfolding crc_shift_def and_1_bit by (simp add: bit_xor_iff)
qed

lemma xor_cancel_left: "p XOR x = p XOR y \<Longrightarrow> x = (y :: 'a::len word)"
  by (metis xor.assoc xor_self_eq xor.left_neutral)

lemma xor_cancel_right: "x XOR p = y XOR p \<Longrightarrow> x = (y :: 'a::len word)"
  by (metis xor.assoc xor_self_eq xor.right_neutral)

lemma word_eq_from_low:
  assumes "bit a 0 = bit b 0" and "drop_bit 1 a = drop_bit 1 b"
  shows "a = (b :: 'a::len word)"
proof (rule bit_word_eqI)
  fix n
  have "bit (drop_bit 1 a) m = bit (drop_bit 1 b) m" for m using assms(2) by simp
  then have "bit a (1 + m) = bit b (1 + m)" for m unfolding bit_drop_bit_eq comp_apply .
  then show "bit a n = bit b n" using assms(1) by (cases n) simp_all
qed

lemma crc_shift_inj:
  assumes e: "crc_shift a = crc_shift b"
  shows "a = b"
proof (rule word_eq_from_low)
  show z: "bit a 0 = bit b 0" using e crc_shift_top by metis
  show "drop_bit 1 a = drop_bit 1 b"
  proof (cases "bit b 0")
    case True
    then show ?thesis using e z xor_cancel_left unfolding crc_shift_def and_1_bit by (metis (full_types))
  next
    case False
    then show ?thesis using e z unfolding crc_shift_def and_1_bit by (metis (full_types))
  qed
qed

lemma crc_shifts_inj: "(crc_shift ^^ k) a = (crc_shift ^^ k) b \<Longrightarrow> a = b"
  by (induction k) (auto dest: crc_shift_inj)

lemma crc_shifts_add: "(crc_shift ^^ j) ((crc_shift ^^ k) a) = (crc_shift ^^ (j + k)) a"
  by (simp add: funpow_add)

lemma and_FF: "c AND 0xFF = take_bit 8 (c :: u32)"
  using and_exp_minus_1 [of c 8] by simp

lemma split_byte: "c = take_bit 8 c XOR push_bit 8 (drop_bit 8 (c :: u32))"
proof (rule bit_word_eqI)
  fix n assume "n < LENGTH(32)"
  then show "bit c n = bit (take_bit 8 c XOR push_bit 8 (drop_bit 8 c)) n"
    unfolding bit_xor_iff bit_take_bit_iff bit_push_bit_iff bit_drop_bit_eq by (cases "n < 8") auto
qed

lemma drop_byte_fits: "take_bit (32 - k) (drop_bit k (c :: u32)) = drop_bit k c"
proof (rule fitsI)
  fix i assume "32 - k \<le> i"
  then show "\<not> bit (drop_bit k c) i" using bit_imp_le_length [of c "k + i"] unfolding bit_drop_bit_eq by auto
qed

lemma crc_split_byte:
  "(crc_shift ^^ (8 + m)) c = (crc_shift ^^ (8 + m)) (take_bit 8 c) XOR (crc_shift ^^ m) (drop_bit 8 c)"
proof -
  have "(crc_shift ^^ (8 + m)) c
      = (crc_shift ^^ (8 + m)) (take_bit 8 c) XOR (crc_shift ^^ (8 + m)) (push_bit 8 (drop_bit 8 c))"
    using crc_shifts_xor split_byte by metis
  moreover have "(crc_shift ^^ 8) (push_bit 8 (drop_bit 8 c)) = drop_bit 8 c"
    using drop_byte_fits [of 8 c] by (intro crc_shifts_push) simp_all
  then have "(crc_shift ^^ (m + 8)) (push_bit 8 (drop_bit 8 c)) = (crc_shift ^^ m) (drop_bit 8 c)"
    unfolding crc_shifts_add [symmetric] by (rule arg_cong)
  ultimately show ?thesis unfolding add.commute [of m 8] by simp
qed

lemma crc_table0_nth: "unat x < 256 \<Longrightarrow> crc_table0 ! unat x = (crc_shift ^^ 8) x"
  unfolding crc_table0_def by (subst nth_map) (simp_all del: upt_Suc funpow.simps)

lemma crc_table0_split: "crc_table0 ! unat (c AND 0xFF) XOR drop_bit 8 c = (crc_shift ^^ 8) c"
proof -
  have "unat (take_bit 8 c) < 2 ^ 8" unfolding fits_unat [symmetric] by simp
  then have "crc_table0 ! unat (take_bit 8 c) = (crc_shift ^^ 8) (take_bit 8 c)"
    by (intro crc_table0_nth) simp
  then show ?thesis using crc_split_byte [of 0 c] unfolding and_FF by (simp only: add_0_right funpow_0)
qed

lemma crc_rows: "(crc_next_row ^^ s) crc_table0 = map (\<lambda>i. (crc_shift ^^ (8 * Suc s)) (of_nat i)) [0..<256]"
proof (induction s)
  case 0
  show ?case unfolding crc_table0_def by (simp only: funpow_0 mult_Suc_right mult_0_right add_0_right)
next
  case (Suc s)
  have "(crc_next_row ^^ Suc s) crc_table0 = crc_next_row ((crc_next_row ^^ s) crc_table0)"
    by (simp only: funpow.simps comp_apply)
  also have "\<dots> = map (\<lambda>i. (crc_shift ^^ 8) ((crc_shift ^^ (8 * Suc s)) (of_nat i))) [0..<256]"
    unfolding Suc crc_next_row_def crc_table0_split map_map comp_apply by (rule refl)
  finally show ?case unfolding crc_shifts_add mult_Suc_right [of 8 "Suc s"] .
qed

lemma crc_at_shift:
  assumes "s < 8" and "unat x < 256"
  shows "crc_at s x = (crc_shift ^^ (8 * Suc s)) x"
proof -
  have "crc_at s x = ((crc_next_row ^^ s) crc_table0) ! unat x"
    unfolding crc_at_def crc32c_build_table_def using assms(1) by (subst nth_map) (simp_all del: upt_Suc funpow.simps)
  also have "\<dots> = (crc_shift ^^ (8 * Suc s)) (of_nat (unat x))"
    unfolding crc_rows using assms(2) by (subst nth_map) (simp_all del: upt_Suc funpow.simps mult_Suc_right)
  finally show ?thesis by (simp del: funpow.simps mult_Suc_right)
qed

lemma byte_fits_unat: "unat (take_bit 8 (c :: u32)) < 256" "unat (drop_bit 24 (c :: u32)) < 256"
proof -
  have "unat (take_bit 8 c) < 2 ^ 8" unfolding fits_unat [symmetric] by simp
  then show "unat (take_bit 8 c) < 256" by simp
  have "unat (drop_bit 24 c) < 2 ^ 8" unfolding fits_unat [symmetric] using drop_byte_fits [of 24 c] by simp
  then show "unat (drop_bit 24 c) < 256" by simp
qed

text \<open>Four bytes at once: the tables of four consecutive rows add up to 32 rounds on the word.\<close>

lemma crc_word_rows:
  assumes "s < 5"
  shows "crc_at (s + 3) (c AND 0xFF) XOR crc_at (s + 2) (drop_bit 8 c AND 0xFF)
      XOR crc_at (s + 1) (drop_bit 16 c AND 0xFF) XOR crc_at s (drop_bit 24 c) = (crc_shift ^^ (32 + 8 * s)) c"
proof -
  have "(crc_shift ^^ (8 + (24 + 8 * s))) c
      = (crc_shift ^^ (8 + (24 + 8 * s))) (take_bit 8 c) XOR (crc_shift ^^ (8 + (16 + 8 * s))) (drop_bit 8 c)"
    unfolding crc_split_byte [of "24 + 8 * s" c] by simp
  moreover have "(crc_shift ^^ (8 + (16 + 8 * s))) (drop_bit 8 c)
      = (crc_shift ^^ (8 + (16 + 8 * s))) (take_bit 8 (drop_bit 8 c)) XOR (crc_shift ^^ (8 + (8 + 8 * s))) (drop_bit 16 c)"
    unfolding crc_split_byte [of "16 + 8 * s" "drop_bit 8 c"] by (simp add: drop_bit_drop_bit)
  moreover have "(crc_shift ^^ (8 + (8 + 8 * s))) (drop_bit 16 c)
      = (crc_shift ^^ (8 + (8 + 8 * s))) (take_bit 8 (drop_bit 16 c)) XOR (crc_shift ^^ (8 + 8 * s)) (drop_bit 24 c)"
    unfolding crc_split_byte [of "8 + 8 * s" "drop_bit 16 c"] by (simp add: drop_bit_drop_bit)
  moreover have "8 * Suc (s + 3) = 8 + (24 + 8 * s)" "8 * Suc (s + 2) = 8 + (16 + 8 * s)" "8 * Suc (s + 1) = 8 + (8 + 8 * s)"
    "8 * Suc s = 8 + 8 * s" "32 + 8 * s = 8 + (24 + 8 * s)" by simp_all
  moreover have "s + 3 < 8" "s + 2 < 8" "s + 1 < 8" "s < 8" using assms by simp_all
  ultimately show ?thesis
    unfolding and_FF by (simp only: crc_at_shift byte_fits_unat)
qed

lemma crc_ref_simps [simp]: "crc_ref c [] = c" "crc_ref c (b # bs) = crc_ref (crc_byte b c) bs"
  by (simp_all add: crc_ref_def)

lemma crc_ref_append: "crc_ref c (as @ bs) = crc_ref (crc_ref c as) bs"
  by (simp add: crc_ref_def)

lemma le_acc_Cons_xor: "(le_acc 0 0 (b # bs) :: u32) = ucast b XOR push_bit 8 (le_acc 0 0 bs)"
proof (rule bit_word_eqI)
  fix n assume "n < LENGTH(32)"
  then show "bit (le_acc 0 0 (b # bs) :: u32) n = bit (ucast b XOR push_bit 8 (le_acc 0 0 bs) :: u32) n"
    unfolding le_acc_eq_word_of_bits
    by (cases "n < 8") (auto simp: bit_simps nth_append dest: bit_imp_le_length)
qed

lemma le_acc_fits: "take_bit (8 * length bs) (le_acc 0 0 bs :: 'a::len word) = le_acc 0 0 bs"
  by (rule fitsI) (simp add: bit_le_acc)

lemma crc_ref_word:
  "length bs \<le> 4 \<Longrightarrow> crc_ref c bs = (crc_shift ^^ (8 * length bs)) (c XOR le_acc 0 0 bs)"
proof (induction bs arbitrary: c)
  case (Cons b bs)
  let ?d = "le_acc 0 0 bs :: u32"
  have e: "8 * length bs + 8 = 8 * length (b # bs)" by simp
  have "take_bit (32 - 8) ?d = ?d" using Cons.prems by (intro fits_mono [OF le_acc_fits]) simp
  then have p: "(crc_shift ^^ 8) (push_bit 8 ?d) = ?d" by (intro crc_shifts_push) simp_all
  have "crc_ref c (b # bs) = (crc_shift ^^ (8 * length bs)) ((crc_shift ^^ 8) (c XOR ucast b) XOR ?d)"
    using Cons by (simp add: crc_byte_def del: funpow.simps)
  also have "(crc_shift ^^ 8) (c XOR ucast b) XOR ?d = (crc_shift ^^ 8) (c XOR le_acc 0 0 (b # bs))"
    unfolding le_acc_Cons_xor xor.assoc [symmetric] crc_shifts_xor [of _ "c XOR ucast b"] p by (rule refl)
  finally show ?case unfolding crc_shifts_add e .
qed simp

lemma crc_eight_ref:
  assumes "length p \<ge> 8"
  shows "crc_eight c p = crc_ref c (take 8 p)"
proof -
  let ?w0 = "le_acc 0 0 (take 4 p) :: u32" and ?w1 = "le_acc 0 0 (take 4 (drop 4 p)) :: u32"
  have p: "take 8 p = take 4 p @ take 4 (drop 4 p)" using take_add [of 4 4 p] by simp
  have "crc_ref c (take 8 p) = (crc_shift ^^ 32) ((crc_shift ^^ 32) (c XOR ?w0) XOR ?w1)"
    unfolding p crc_ref_append using assms by (subst (1 2) crc_ref_word) simp_all
  also have "\<dots> = (crc_shift ^^ 32) ((crc_shift ^^ 32) (c XOR ?w0)) XOR (crc_shift ^^ 32) ?w1"
    by (rule crc_shifts_xor)
  also have "\<dots> = (crc_shift ^^ (32 + 8 * 4)) (c XOR ?w0) XOR (crc_shift ^^ (32 + 8 * 0)) ?w1"
    unfolding crc_shifts_add by simp
  finally have e: "crc_ref c (take 8 p) = (crc_shift ^^ (32 + 8 * 4)) (c XOR ?w0) XOR (crc_shift ^^ (32 + 8 * 0)) ?w1" .
  have n: "(4::nat) + 3 = 7" "(4::nat) + 2 = 6" "(4::nat) + 1 = 5" "(0::nat) + 3 = 3" "(0::nat) + 2 = 2" "(0::nat) + 1 = 1" "(4::nat) < 5" "(0::nat) < 5"
    by simp_all
  show ?thesis
    unfolding e crc_word_rows [OF n(7), symmetric] crc_word_rows [OF n(8), symmetric] n crc_eight_def Let_def xor.assoc
    by (rule refl)
qed

lemma crc_one_byte: "crc_one b c = crc_byte b c"
proof -
  let ?x = "c XOR ucast b"
  have "drop_bit 8 ?x = drop_bit 8 c"
  proof (rule bit_word_eqI)
    fix n
    have "\<not> bit b (8 + n)" using bit_imp_le_length [of b "8 + n"] by auto
    then show "bit (drop_bit 8 ?x) n = bit (drop_bit 8 c) n"
      unfolding bit_drop_bit_eq comp_apply bit_xor_iff bit_ucast_iff by blast
  qed
  moreover have "crc_at 0 (?x AND 0xFF) XOR drop_bit 8 ?x = (crc_shift ^^ 8) ?x"
    using crc_split_byte [of 0 ?x] unfolding and_FF by (simp only: crc_at_shift byte_fits_unat) simp
  ultimately show ?thesis unfolding crc_one_def crc_byte_def by simp
qed

lemma crc_step_sw_ref: "crc32c_step_sw c bs = crc_ref c bs"
proof (induction c bs rule: crc32c_step_sw.induct)
  case (1 c p)
  have one: "crc_one = crc_byte" by (intro ext crc_one_byte)
  show ?case
  proof (cases "length p \<ge> 8")
    case True
    then have "crc32c_step_sw c p = crc_ref (crc_eight c p) (drop 8 p)"
      using 1 by (subst crc32c_step_sw.simps) simp
    then show ?thesis
      unfolding crc_eight_ref [OF True] crc_ref_append [symmetric] append_take_drop_id .
  qed (subst crc32c_step_sw.simps, simp add: one crc_ref_def)
qed

lemma crc_update_append: "tsdb_crc32c_update (tsdb_crc32c_update c as) bs = tsdb_crc32c_update c (as @ bs)"
  by (simp add: tsdb_crc32c_update_def crc_step_sw_ref crc_ref_append xor.assoc)

lemma crc_update_0: "tsdb_crc32c_update 0 bs = tsdb_crc32c bs"
  by (simp add: tsdb_crc32c_update_def tsdb_crc32c_def)

lemma crc_ref_inj_state: "crc_ref c bs = crc_ref d bs \<Longrightarrow> c = d"
proof (induction bs arbitrary: c d)
  case (Cons b bs)
  then have "crc_byte b c = crc_byte b d" by simp
  then show ?case unfolding crc_byte_def using crc_shifts_inj xor_cancel_right by metis
qed simp

lemma crc_ref_burst:
  assumes "crc_ref c (pre @ w @ post) = crc_ref c (pre @ v @ post)" and "length w = length v" and "length w \<le> 4"
  shows "w = v"
proof -
  let ?d = "crc_ref c pre"
  have "crc_ref ?d w = crc_ref ?d v" using assms(1) crc_ref_inj_state unfolding crc_ref_append by blast
  then have "?d XOR le_acc 0 0 w = ?d XOR le_acc 0 0 v"
    using assms(2,3) by (auto simp: crc_ref_word dest: crc_shifts_inj)
  then have l: "(le_acc 0 0 w :: u32) = le_acc 0 0 v" by (rule xor_cancel_left)
  have "bits_of (length (bytes_bits w)) (le_acc 0 0 w :: u32) = bytes_bits w"
    "bits_of (length (bytes_bits v)) (le_acc 0 0 v :: u32) = bytes_bits v"
    unfolding le_acc_eq_word_of_bits using assms(2,3) by (auto intro!: bits_of_word_of_bits simp: word_size)
  then have "bytes_bits w = bytes_bits v" unfolding l length_bytes_bits assms(2) by simp
  then show ?thesis using assms(2) by (rule bytes_bits_inject)
qed

lemma crc32c_burst:
  assumes "tsdb_crc32c (pre @ w @ post) = tsdb_crc32c (pre @ v @ post)" and "length w = length v" and "length w \<le> 4"
  shows "w = v"
  using assms crc_ref_burst xor_cancel_right unfolding tsdb_crc32c_def crc_step_sw_ref by blast

end
