(* ===== verification/Server_Proto.thy ===== *)
theory Server_Proto
  imports Server_Crc
begin

text \<open>
  Model of \<^verbatim>\<open>src/server/proto.c\<close>: the 24-byte frame header, and sending and receiving frames over a descriptor
  or a TLS connection. Connections are modelled by what their system calls return, call by call.
\<close>

section \<open>Frame headers\<close>

definition TSDB_PROTO_MAGIC :: u32 where "TSDB_PROTO_MAGIC = 0x42445354"
definition TSDB_PROTO_VER :: u8 where "TSDB_PROTO_VER = 1"
definition TSDB_PROTO_HDR_SIZE :: nat where "TSDB_PROTO_HDR_SIZE = 24"
definition TSDB_PROTO_MAX_PAYLOAD :: nat where "TSDB_PROTO_MAX_PAYLOAD = 16 * 1024 * 1024"

record tsdb_frame_hdr_t =
  magic :: u32
  ver :: u8
  ftype :: u8
  flags :: u16
  req_id :: u64
  payload_len :: u32

definition tsdb_frame_write_hdr :: "tsdb_frame_hdr_t \<Rightarrow> u8 list" where
  "tsdb_frame_write_hdr h = le_bytes 4 (magic h) @ [ver h, ftype h] @ le_bytes 2 (flags h) @ [0, 0, 0, 0]
     @ le_bytes 8 (req_id h) @ le_bytes 4 (payload_len h)"

definition tsdb_frame_read_hdr :: "u8 list \<Rightarrow> tsdb_err + tsdb_frame_hdr_t" where
  "tsdb_frame_read_hdr ins =
     (let m = le_acc 0 0 (take 4 ins)
      in if m \<noteq> TSDB_PROTO_MAGIC then Inl TSDB_ERR_CORRUPT
         else Inr \<lparr>magic = m, ver = ins ! 4, ftype = ins ! 5, flags = le_acc 0 0 (take 2 (drop 6 ins)),
                   req_id = le_acc 0 0 (take 8 (drop 12 ins)), payload_len = le_acc 0 0 (take 4 (drop 20 ins))\<rparr>)"

lemma length_write_hdr [simp]: "length (tsdb_frame_write_hdr h) = 24"
  by (simp add: tsdb_frame_write_hdr_def)

lemma read_write_hdr:
  assumes "magic h = TSDB_PROTO_MAGIC"
  shows "tsdb_frame_read_hdr (tsdb_frame_write_hdr h) = Inr h"
proof -
  let ?m = "le_bytes 4 (magic h)" and ?f = "le_bytes 2 (flags h)" and ?r = "le_bytes 8 (req_id h)" and ?p = "le_bytes 4 (payload_len h)"
  have d: "tsdb_frame_write_hdr h = ?m @ [ver h, ftype h] @ ?f @ [0, 0, 0, 0] @ ?r @ ?p"
    by (simp add: tsdb_frame_write_hdr_def)
  have "take 4 (tsdb_frame_write_hdr h) = ?m" "take 2 (drop 6 (tsdb_frame_write_hdr h)) = ?f"
    "take 8 (drop 12 (tsdb_frame_write_hdr h)) = ?r" "take 4 (drop 20 (tsdb_frame_write_hdr h)) = ?p"
    "tsdb_frame_write_hdr h ! 4 = ver h" "tsdb_frame_write_hdr h ! 5 = ftype h"
    unfolding d by (simp_all add: nth_append)
  then show ?thesis using assms by (simp add: tsdb_frame_read_hdr_def)
qed

section \<open>Writing and reading whole buffers\<close>

text \<open>
  The outcomes of successive \<^verbatim>\<open>write\<close>, \<^verbatim>\<open>writev\<close> or \<^verbatim>\<open>tsdb_io_write\<close> calls: interrupted by a signal
  (\<^verbatim>\<open>EINTR\<close>), failed, or room for so many bytes, of which the call takes as many as it was given. A list
  that has run out stands for a connection on which every further call fails. Reading is dual: a chunk
  is what has arrived, a call takes at most what it asked for and the rest of the chunk stays; a list
  that has run out is the end of the stream.
\<close>

datatype wr_ev = WrIntr | WrErr | WrRoom nat
datatype rd_ev = RdIntr | RdErr | RdChunk "u8 list"

primrec write_all :: "wr_ev list \<Rightarrow> u8 list \<Rightarrow> u8 list \<Rightarrow> (tsdb_err + unit) \<times> u8 list \<times> wr_ev list" where
  "write_all [] buf sent = (if buf = [] then (Inr (), sent, []) else (Inl TSDB_ERR_IO, sent, []))"
| "write_all (e # es) buf sent =
     (if buf = [] then (Inr (), sent, e # es)
      else case e of
        WrIntr \<Rightarrow> write_all es buf sent
      | WrErr \<Rightarrow> (Inl TSDB_ERR_IO, sent, es)
      | WrRoom k \<Rightarrow>
          (let w = min k (length buf)
           in if w = 0 then (Inl TSDB_ERR_IO, sent, es) else write_all es (drop w buf) (sent @ take w buf)))"

primrec read_all :: "rd_ev list \<Rightarrow> nat \<Rightarrow> (tsdb_err + u8 list) \<times> rd_ev list" where
  "read_all [] n = (if n = 0 then (Inr [], []) else (Inl TSDB_ERR_IO, []))"
| "read_all (e # es) n =
     (if n = 0 then (Inr [], e # es)
      else case e of
        RdIntr \<Rightarrow> read_all es n
      | RdErr \<Rightarrow> (Inl TSDB_ERR_IO, es)
      | RdChunk c \<Rightarrow>
          (if c = [] then (Inl TSDB_ERR_IO, es)
           else if length c \<le> n
             then (case read_all es (n - length c) of
                     (Inr bs, es') \<Rightarrow> (Inr (c @ bs), es')
                   | (Inl er, es') \<Rightarrow> (Inl er, es'))
           else (Inr (take n c), RdChunk (drop n c) # es)))"

text \<open>The buffers of a gathered write, and moving past the bytes a partial write took.\<close>

fun iov_advance :: "nat \<Rightarrow> u8 list list \<Rightarrow> u8 list list" where
  "iov_advance adv [] = []"
| "iov_advance adv (b # iov) = (if adv \<ge> length b then iov_advance (adv - length b) iov else drop adv b # iov)"

primrec writev_loop ::
  "wr_ev list \<Rightarrow> u8 list list \<Rightarrow> nat \<Rightarrow> nat \<Rightarrow> u8 list \<Rightarrow> (tsdb_err + unit) \<times> u8 list \<times> wr_ev list" where
  "writev_loop [] iov done tot sent =
     (if done < tot then (Inl TSDB_ERR_IO, sent, []) else (Inr (), sent, []))"
| "writev_loop (e # es) iov done tot sent =
     (if \<not> done < tot then (Inr (), sent, e # es)
      else case e of
        WrIntr \<Rightarrow> writev_loop es iov done tot sent
      | WrErr \<Rightarrow> (Inl TSDB_ERR_IO, sent, es)
      | WrRoom k \<Rightarrow>
          (let w = min k (length (concat iov)); sent' = sent @ take w (concat iov)
           in if w = 0 then (Inl TSDB_ERR_IO, sent, es)
              else if done + w < tot then writev_loop es (iov_advance w iov) (done + w) tot sent'
              else writev_loop es iov (done + w) tot sent'))"

definition writev_all :: "wr_ev list \<Rightarrow> u8 list list \<Rightarrow> (tsdb_err + unit) \<times> u8 list \<times> wr_ev list" where
  "writev_all es iov = writev_loop es iov 0 (sum_list (map length iov)) []"

section \<open>Sending and receiving frames\<close>

definition frame_hdr :: "u8 \<Rightarrow> u16 \<Rightarrow> u64 \<Rightarrow> u8 list \<Rightarrow> tsdb_frame_hdr_t" where
  "frame_hdr ty fl rid payload = \<lparr>magic = TSDB_PROTO_MAGIC, ver = TSDB_PROTO_VER, ftype = ty, flags = fl, req_id = rid,
     payload_len = of_nat (length payload)\<rparr>"

definition frame_crc :: "u8 list \<Rightarrow> u8 list \<Rightarrow> u32" where
  "frame_crc raw_hdr payload =
     (let crc = tsdb_crc32c_update 0 (drop 4 raw_hdr)
      in if payload \<noteq> [] then tsdb_crc32c_update crc payload else crc)"

definition tsdb_proto_send ::
  "wr_ev list \<Rightarrow> u8 \<Rightarrow> u16 \<Rightarrow> u64 \<Rightarrow> u8 list \<Rightarrow> (tsdb_err + unit) \<times> u8 list \<times> wr_ev list" where
  "tsdb_proto_send es ty fl rid payload =
     (if length payload > TSDB_PROTO_MAX_PAYLOAD then (Inl TSDB_ERR_INVAL, [], es)
      else let raw_hdr = tsdb_frame_write_hdr (frame_hdr ty fl rid payload);
               crc_bytes = le_bytes 4 (frame_crc raw_hdr payload)
           in writev_all es ([raw_hdr] @ (if payload \<noteq> [] then [payload] else []) @ [crc_bytes]))"

text \<open>
  The receiving side, over the routine that reads from the connection. \<^verbatim>\<open>alloc\<close> says whether the allocation
  of the payload buffer succeeds.
\<close>

definition recv_with ::
  "(rd_ev list \<Rightarrow> nat \<Rightarrow> (tsdb_err + u8 list) \<times> rd_ev list) \<Rightarrow> (nat \<Rightarrow> bool) \<Rightarrow> rd_ev list
     \<Rightarrow> (tsdb_err + tsdb_frame_hdr_t \<times> u8 list) \<times> rd_ev list" where
  "recv_with rd alloc es =
     (case rd es TSDB_PROTO_HDR_SIZE of (Inl er, es1) \<Rightarrow> (Inl er, es1) | (Inr raw_hdr, es1) \<Rightarrow>
      (case tsdb_frame_read_hdr raw_hdr of Inl er \<Rightarrow> (Inl er, es1) | Inr hdr \<Rightarrow>
        (let n = unat (payload_len hdr)
         in if n > TSDB_PROTO_MAX_PAYLOAD then (Inl TSDB_ERR_CORRUPT, es1)
            else if n > 0 \<and> \<not> alloc n then (Inl TSDB_ERR_NOMEM, es1)
            else case (if n > 0 then rd es1 n else (Inr [], es1)) of (Inl er, es2) \<Rightarrow> (Inl er, es2) | (Inr payload, es2) \<Rightarrow>
              (case rd es2 4 of (Inl er, es3) \<Rightarrow> (Inl er, es3) | (Inr crc_bytes, es3) \<Rightarrow>
                if frame_crc raw_hdr payload \<noteq> le_acc 0 0 crc_bytes then (Inl TSDB_ERR_CORRUPT, es3)
                else (Inr (hdr, payload), es3)))))"

definition tsdb_proto_recv ::
  "(nat \<Rightarrow> bool) \<Rightarrow> rd_ev list \<Rightarrow> (tsdb_err + tsdb_frame_hdr_t \<times> u8 list) \<times> rd_ev list" where
  "tsdb_proto_recv = recv_with read_all"

text \<open>
  The same over a \<^verbatim>\<open>tsdb_io_t\<close>: \<^verbatim>\<open>tls\<close> says whether the connection has a TLS session. Without one the frame
  leaves in one gathered write, with one the three parts are written one after another.
\<close>

definition write_all_io :: "wr_ev list \<Rightarrow> u8 list \<Rightarrow> u8 list \<Rightarrow> (tsdb_err + unit) \<times> u8 list \<times> wr_ev list" where
  "write_all_io = write_all"

definition read_all_io :: "rd_ev list \<Rightarrow> nat \<Rightarrow> (tsdb_err + u8 list) \<times> rd_ev list" where
  "read_all_io = read_all"

definition tsdb_proto_send_io ::
  "bool \<Rightarrow> wr_ev list \<Rightarrow> u8 \<Rightarrow> u16 \<Rightarrow> u64 \<Rightarrow> u8 list \<Rightarrow> (tsdb_err + unit) \<times> u8 list \<times> wr_ev list" where
  "tsdb_proto_send_io tls es ty fl rid payload =
     (if length payload > TSDB_PROTO_MAX_PAYLOAD then (Inl TSDB_ERR_INVAL, [], es)
      else let raw_hdr = tsdb_frame_write_hdr (frame_hdr ty fl rid payload);
               crc_bytes = le_bytes 4 (frame_crc raw_hdr payload)
           in if \<not> tls then writev_all es ([raw_hdr] @ (if payload \<noteq> [] then [payload] else []) @ [crc_bytes])
              else case write_all_io es raw_hdr [] of (Inl er, s1, es1) \<Rightarrow> (Inl er, s1, es1) | (Inr _, s1, es1) \<Rightarrow>
                (case (if payload \<noteq> [] then write_all_io es1 payload s1 else (Inr (), s1, es1)) of
                   (Inl er, s2, es2) \<Rightarrow> (Inl er, s2, es2)
                 | (Inr _, s2, es2) \<Rightarrow> write_all_io es2 crc_bytes s2))"

definition tsdb_proto_recv_io ::
  "(nat \<Rightarrow> bool) \<Rightarrow> rd_ev list \<Rightarrow> (tsdb_err + tsdb_frame_hdr_t \<times> u8 list) \<times> rd_ev list" where
  "tsdb_proto_recv_io = recv_with read_all_io"

section \<open>What a writer delivers\<close>

text \<open>
  The bytes a connection takes before it breaks, and the contract of the writing routines: exactly that
  much of the buffer reaches the connection, success is reported exactly when it was the whole buffer,
  and the only error is \<^const>\<open>TSDB_ERR_IO\<close>.
\<close>

fun wr_room :: "wr_ev list \<Rightarrow> nat" where
  "wr_room [] = 0"
| "wr_room (WrIntr # es) = wr_room es"
| "wr_room (WrErr # es) = 0"
| "wr_room (WrRoom k # es) = (if k = 0 then 0 else k + wr_room es)"

definition delivers :: "nat \<Rightarrow> u8 list \<Rightarrow> u8 list \<Rightarrow> (tsdb_err + unit) \<times> u8 list \<times> wr_ev list \<Rightarrow> bool" where
  "delivers n buf sent = (\<lambda>(r, s, es). s = sent @ take n buf \<and> r = (if length buf \<le> n then Inr () else Inl TSDB_ERR_IO))"

lemma delivers_none: "buf \<noteq> [] \<Longrightarrow> delivers 0 buf sent (Inl TSDB_ERR_IO, sent, es)"
  by (simp add: delivers_def)

lemma delivers_all: "length buf \<le> n \<Longrightarrow> delivers n buf sent (Inr (), sent @ buf, es)"
  by (simp add: delivers_def)

lemma delivers_more:
  "delivers n (drop w buf) (sent @ take w buf) q \<Longrightarrow> w = min k (length buf) \<Longrightarrow> delivers (k + n) buf sent q"
  by (auto simp: delivers_def take_add min_def split: if_splits)

lemma write_all_delivers: "delivers (wr_room es) buf sent (write_all es buf sent)"
proof (induction es arbitrary: buf sent)
  case Nil
  show ?case by (simp add: delivers_def)
next
  case (Cons e es)
  show ?case
  proof (cases "buf = []")
    case True
    then show ?thesis by (simp add: delivers_def)
  next
    case False
    have room: "delivers (wr_room (WrRoom k # es)) buf sent (write_all (WrRoom k # es) buf sent)" for k
      using False delivers_none [OF False] delivers_more [OF Cons.IH, where w = "min k (length buf)" and k = k and buf = buf and sent = sent]
      by (auto simp: Let_def min_def)
    show ?thesis using False Cons.IH room delivers_none by (cases e) simp_all
  qed
qed

lemma concat_iov_advance: "concat (iov_advance adv iov) = drop adv (concat iov)"
  by (induction adv iov rule: iov_advance.induct) auto

lemma writev_loop_done: "\<not> don < tot \<Longrightarrow> writev_loop es iov don tot sent = (Inr (), sent, es)"
  by (cases es) auto

lemma writev_loop_delivers:
  "concat iov = buf \<Longrightarrow> don + length buf = tot \<Longrightarrow> delivers (wr_room es) buf sent (writev_loop es iov don tot sent)"
proof (induction es arbitrary: iov buf don sent)
  case Nil
  then show ?case by (auto simp: delivers_def)
next
  case (Cons e es)
  show ?case
  proof (cases "don < tot")
    case False
    then have "buf = []" using Cons.prems(2) by auto
    then show ?thesis using False by (simp add: delivers_def)
  next
    case True
    then have ne: "buf \<noteq> []" using Cons.prems by auto
    have room: "delivers (wr_room (WrRoom k # es)) buf sent (writev_loop (WrRoom k # es) iov don tot sent)" for k
    proof -
      let ?w = "min k (length buf)"
      have step: "writev_loop (WrRoom k # es) iov don tot sent =
          (if ?w = 0 then (Inl TSDB_ERR_IO, sent, es)
           else if don + ?w < tot then writev_loop es (iov_advance ?w iov) (don + ?w) tot (sent @ take ?w buf)
           else writev_loop es iov (don + ?w) tot (sent @ take ?w buf))"
        using True Cons.prems(1) by (simp add: Let_def)
      consider "?w = 0" | "?w \<noteq> 0" "don + ?w < tot" | "?w \<noteq> 0" "\<not> don + ?w < tot" by blast
      then show ?thesis
      proof cases
        case 1
        then have "k = 0" using ne by (simp add: min_def split: if_splits)
        then show ?thesis unfolding step if_P [OF 1] using ne delivers_none by simp
      next
        case 2
        have "delivers (wr_room es) (drop ?w buf) (sent @ take ?w buf)
            (writev_loop es (iov_advance ?w iov) (don + ?w) tot (sent @ take ?w buf))"
          using Cons.prems by (intro Cons.IH) (auto simp: concat_iov_advance)
        then have "delivers (k + wr_room es) buf sent
            (writev_loop es (iov_advance ?w iov) (don + ?w) tot (sent @ take ?w buf))"
          by (rule delivers_more) (rule refl)
        then show ?thesis unfolding step if_not_P [OF 2(1)] if_P [OF 2(2)] using 2(1) by simp
      next
        case 3
        then have w: "length buf \<le> k" using Cons.prems(2) by simp
        then have "take ?w buf = buf" by simp
        then show ?thesis unfolding step if_not_P [OF 3(1)] if_not_P [OF 3(2)] writev_loop_done [OF 3(2)]
          using delivers_all [of buf "k + wr_room es"] w ne by (cases k) simp_all
      qed
    qed
    show ?thesis using Cons True ne room delivers_none by (cases e) simp_all
  qed
qed

lemma writev_all_delivers: "delivers (wr_room es) (concat iov) [] (writev_all es iov)"
  unfolding writev_all_def by (rule writev_loop_delivers) (simp_all add: length_concat)

section \<open>What a reader receives\<close>

text \<open>The bytes that can be read before the connection ends or fails.\<close>

fun rd_bytes :: "rd_ev list \<Rightarrow> u8 list" where
  "rd_bytes [] = []"
| "rd_bytes (RdIntr # es) = rd_bytes es"
| "rd_bytes (RdErr # es) = []"
| "rd_bytes (RdChunk c # es) = (if c = [] then [] else c @ rd_bytes es)"

lemma read_all_cases:
  "if n \<le> length (rd_bytes es) then \<exists>es'. read_all es n = (Inr (take n (rd_bytes es)), es') \<and> rd_bytes es' = drop n (rd_bytes es)
   else \<exists>es'. read_all es n = (Inl TSDB_ERR_IO, es')"
proof (induction es arbitrary: n)
  case (Cons e es)
  show ?case
  proof (cases e)
    case (RdChunk c)
    then show ?thesis using Cons.IH [of "n - length c"] by (auto split: if_splits)
  qed (use Cons.IH [of n] in auto)
qed auto

text \<open>What a frame means on the wire, apart from how its bytes arrive.\<close>

definition parse_frame :: "(nat \<Rightarrow> bool) \<Rightarrow> u8 list \<Rightarrow> tsdb_err + tsdb_frame_hdr_t \<times> u8 list" where
  "parse_frame alloc bs =
     (if length bs < 24 then Inl TSDB_ERR_IO
      else res_bind (tsdb_frame_read_hdr (take 24 bs)) (\<lambda>hdr.
        let n = unat (payload_len hdr); payload = take n (drop 24 bs)
        in if n > TSDB_PROTO_MAX_PAYLOAD then Inl TSDB_ERR_CORRUPT
           else if n > 0 \<and> \<not> alloc n then Inl TSDB_ERR_NOMEM
           else if length bs < 24 + n + 4 then Inl TSDB_ERR_IO
           else if tsdb_crc32c (take 20 (drop 4 bs) @ payload) \<noteq> le_acc 0 0 (take 4 (drop (24 + n) bs)) then Inl TSDB_ERR_CORRUPT
           else Inr (hdr, payload)))"

lemma frame_crc_eq: "frame_crc raw payload = tsdb_crc32c (drop 4 raw @ payload)"
  unfolding frame_crc_def Let_def using crc_update_append [of 0 "drop 4 raw" payload] by (simp add: crc_update_0)

definition ends_at :: "(tsdb_err + tsdb_frame_hdr_t \<times> u8 list) \<times> rd_ev list \<Rightarrow> (nat \<Rightarrow> bool) \<Rightarrow> u8 list \<Rightarrow> bool" where
  "ends_at q alloc bs \<longleftrightarrow> fst q = parse_frame alloc bs
     \<and> (\<forall>h p. fst q = Inr (h, p) \<longrightarrow> rd_bytes (snd q) = drop (28 + length p) bs)"

text \<open>
  The interface of a reader: it returns the next \<^verbatim>\<open>n\<close> bytes and leaves the others, or fails when there are
  fewer. Over every such reader \<^verbatim>\<open>recv_with\<close> is \<^const>\<open>parse_frame\<close> on the bytes that arrive.
\<close>

locale byte_reader =
  fixes rd :: "rd_ev list \<Rightarrow> nat \<Rightarrow> (tsdb_err + u8 list) \<times> rd_ev list"
  assumes rd_short: "length (rd_bytes es) < n \<Longrightarrow> fst (rd es n) = Inl TSDB_ERR_IO"
    and rd_enough: "n \<le> length (rd_bytes es) \<Longrightarrow> fst (rd es n) = Inr (take n (rd_bytes es))"
    and rd_rest: "n \<le> length (rd_bytes es) \<Longrightarrow> rd_bytes (snd (rd es n)) = drop n (rd_bytes es)"
begin

lemma rd_cases:
  obtains e where "length (rd_bytes es) < n" "rd es n = (Inl TSDB_ERR_IO, e)"
  | e where "n \<le> length (rd_bytes es)" "rd es n = (Inr (take n (rd_bytes es)), e)" "rd_bytes e = drop n (rd_bytes es)"
  using rd_short [of es n] rd_enough [of n es] rd_rest [of n es] by (cases "rd es n") (metis fst_conv snd_conv not_less)

lemma recv_body:
  assumes "24 \<le> length (rd_bytes es)" and "rd es 24 = (Inr (take 24 (rd_bytes es)), es1)"
    and r1: "rd_bytes es1 = drop 24 (rd_bytes es)" and h: "tsdb_frame_read_hdr (take 24 (rd_bytes es)) = Inr hdr"
    and n: "unat (payload_len hdr) = n" "n \<le> TSDB_PROTO_MAX_PAYLOAD" and a: "\<not> (n > 0 \<and> \<not> alloc n)"
  shows "ends_at (recv_with rd alloc es) alloc (rd_bytes es)"
proof -
  let ?b = "rd_bytes es"
  have head: "recv_with rd alloc es =
      (case (if n > 0 then rd es1 n else (Inr [], es1)) of (Inl er, es2) \<Rightarrow> (Inl er, es2) | (Inr payload, es2) \<Rightarrow>
        (case rd es2 4 of (Inl er, es3) \<Rightarrow> (Inl er, es3) | (Inr crc_bytes, es3) \<Rightarrow>
          if frame_crc (take 24 ?b) payload \<noteq> le_acc 0 0 crc_bytes then (Inl TSDB_ERR_CORRUPT, es3)
          else (Inr (hdr, payload), es3)))"
    using assms by (cases "n = 0") (simp_all add: recv_with_def TSDB_PROTO_HDR_SIZE_def Let_def)
  have spec: "parse_frame alloc ?b =
      (if length ?b < 24 + n + 4 then Inl TSDB_ERR_IO
       else if tsdb_crc32c (take 20 (drop 4 ?b) @ take n (drop 24 ?b)) \<noteq> le_acc 0 0 (take 4 (drop (24 + n) ?b))
         then Inl TSDB_ERR_CORRUPT else Inr (hdr, take n (drop 24 ?b)))"
    using assms by (cases "n = 0") (simp_all add: parse_frame_def Let_def)
  have crc: "frame_crc (take 24 ?b) p = tsdb_crc32c (take 20 (drop 4 ?b) @ p)" for p
    unfolding frame_crc_eq by (simp add: drop_take)
  show ?thesis
  proof (cases "24 + n \<le> length ?b")
    case False
    then have "length (rd_bytes es1) < n" "n > 0" using r1 assms(1) by auto
    then have "\<exists>e. rd es1 n = (Inl TSDB_ERR_IO, e)" by (cases rule: rd_cases [of es1 n]) auto
    then show ?thesis unfolding ends_at_def head spec using False \<open>n > 0\<close> by auto
  next
    case True
    have "\<exists>es2. (if n > 0 then rd es1 n else (Inr [], es1)) = (Inr (take n (drop 24 ?b)), es2)
        \<and> rd_bytes es2 = drop (24 + n) ?b"
      using True r1 by (cases rule: rd_cases [of es1 n]) (auto simp: add.commute)
    then obtain es2 where e2: "(if n > 0 then rd es1 n else (Inr [], es1)) = (Inr (take n (drop 24 ?b)), es2)"
      and r2: "rd_bytes es2 = drop (24 + n) ?b" by blast
    show ?thesis
      unfolding ends_at_def head spec e2 by (cases rule: rd_cases [of es2 4]) (use True in \<open>auto simp: r2 crc add.commute\<close>)
  qed
qed

lemma recv_ends_at: "ends_at (recv_with rd alloc es) alloc (rd_bytes es)"
proof (cases rule: rd_cases [of es 24])
  case (1 e)
  then show ?thesis by (simp add: ends_at_def recv_with_def parse_frame_def TSDB_PROTO_HDR_SIZE_def)
next
  case (2 es1)
  show ?thesis
  proof (cases "tsdb_frame_read_hdr (take 24 (rd_bytes es))")
    case (Inl er)
    then show ?thesis using 2 by (simp add: ends_at_def recv_with_def parse_frame_def TSDB_PROTO_HDR_SIZE_def)
  next
    case (Inr hdr)
    show ?thesis
    proof (cases "unat (payload_len hdr) \<le> TSDB_PROTO_MAX_PAYLOAD \<and> (unat (payload_len hdr) > 0 \<longrightarrow> alloc (unat (payload_len hdr)))")
      case True
      then show ?thesis by (intro recv_body [OF 2 Inr refl]) auto
    next
      case False
      then show ?thesis using 2 Inr by (auto simp: ends_at_def recv_with_def parse_frame_def TSDB_PROTO_HDR_SIZE_def Let_def)
    qed
  qed
qed

lemma recv_parse: "fst (recv_with rd alloc es) = parse_frame alloc (rd_bytes es)"
  using recv_ends_at unfolding ends_at_def by blast

lemma recv_rest:
  "fst (recv_with rd alloc es) = Inr (h, p) \<Longrightarrow> rd_bytes (snd (recv_with rd alloc es)) = drop (28 + length p) (rd_bytes es)"
  using recv_ends_at unfolding ends_at_def by blast

end

interpretation rdall: byte_reader read_all
proof
  fix es n
  show "length (rd_bytes es) < n \<Longrightarrow> fst (read_all es n) = Inl TSDB_ERR_IO"
    and "n \<le> length (rd_bytes es) \<Longrightarrow> fst (read_all es n) = Inr (take n (rd_bytes es))"
    and "n \<le> length (rd_bytes es) \<Longrightarrow> rd_bytes (snd (read_all es n)) = drop n (rd_bytes es)"
    using read_all_cases [of n es] by (auto split: if_splits)
qed

interpretation rdio: byte_reader read_all_io
  unfolding read_all_io_def by (rule rdall.byte_reader_axioms)

section \<open>Frames on the wire\<close>

definition wire_frame :: "u8 \<Rightarrow> u16 \<Rightarrow> u64 \<Rightarrow> u8 list \<Rightarrow> u8 list" where
  "wire_frame ty fl rid payload =
     (let raw = tsdb_frame_write_hdr (frame_hdr ty fl rid payload)
      in raw @ payload @ le_bytes 4 (tsdb_crc32c (drop 4 raw @ payload)))"

lemma length_wire_frame [simp]: "length (wire_frame ty fl rid p) = 28 + length p"
  by (simp add: wire_frame_def Let_def)

lemma send_delivers:
  "length p \<le> TSDB_PROTO_MAX_PAYLOAD \<Longrightarrow> delivers (wr_room es) (wire_frame ty fl rid p) [] (tsdb_proto_send es ty fl rid p)"
  using writev_all_delivers [of es "[tsdb_frame_write_hdr (frame_hdr ty fl rid p)] @ (if p \<noteq> [] then [p] else [])
    @ [le_bytes 4 (frame_crc (tsdb_frame_write_hdr (frame_hdr ty fl rid p)) p)]"]
  by (auto simp: tsdb_proto_send_def wire_frame_def Let_def frame_crc_eq split: if_splits)

lemma send_io_plain: "tsdb_proto_send_io False = tsdb_proto_send"
  by (intro ext) (simp add: tsdb_proto_send_io_def tsdb_proto_send_def Let_def)

text \<open>Writing the parts of a buffer one after another, as long as each succeeds.\<close>

definition sends :: "u8 list \<Rightarrow> (tsdb_err + unit) \<times> u8 list \<times> wr_ev list \<Rightarrow> bool" where
  "sends wire = (\<lambda>(r, s, es). \<exists>m. s = take m wire \<and> r = (if length wire \<le> m then Inr () else Inl TSDB_ERR_IO))"

lemma sends_delivers: "delivers n buf [] q \<Longrightarrow> sends buf q"
  unfolding delivers_def sends_def by (cases q) auto

lemma write_part:
  obtains es' where "write_all es buf pre = (Inr (), pre @ buf, es')"
  | es' m where "write_all es buf pre = (Inl TSDB_ERR_IO, pre @ take m buf, es')" "m < length buf"
  using write_all_delivers [of es buf pre] unfolding delivers_def
  by (cases "write_all es buf pre"; cases "length buf \<le> wr_room es") auto

lemma sends_cut: "wire = pre @ buf @ post \<Longrightarrow> m < length buf \<Longrightarrow> sends wire (Inl TSDB_ERR_IO, pre @ take m buf, es)"
  unfolding sends_def by (auto intro!: exI [of _ "length pre + m"])

lemma sends_whole: "sends wire (Inr (), wire, es)"
  unfolding sends_def by (auto intro!: exI [of _ "length wire"])

lemma send_io_tls:
  assumes "length p \<le> TSDB_PROTO_MAX_PAYLOAD"
  shows "sends (wire_frame ty fl rid p) (tsdb_proto_send_io True es ty fl rid p)"
proof -
  define raw where "raw = tsdb_frame_write_hdr (frame_hdr ty fl rid p)"
  define crc where "crc = le_bytes 4 (frame_crc raw p)"
  have wire: "wire_frame ty fl rid p = [] @ raw @ (p @ crc)" "wire_frame ty fl rid p = raw @ p @ crc"
    "wire_frame ty fl rid p = (raw @ p) @ crc @ []"
    by (simp_all add: wire_frame_def raw_def crc_def frame_crc_eq Let_def)
  have step: "tsdb_proto_send_io True es ty fl rid p =
      (case write_all es raw [] of (Inl er, s1, es1) \<Rightarrow> (Inl er, s1, es1) | (Inr _, s1, es1) \<Rightarrow>
        (case (if p \<noteq> [] then write_all es1 p s1 else (Inr (), s1, es1)) of
           (Inl er, s2, es2) \<Rightarrow> (Inl er, s2, es2)
         | (Inr _, s2, es2) \<Rightarrow> write_all es2 crc s2))"
    using assms unfolding tsdb_proto_send_io_def write_all_io_def raw_def crc_def Let_def by simp
  show ?thesis
  proof (cases rule: write_part [of es raw "[]"])
    case (2 es1 m)
    then show ?thesis unfolding step using sends_cut [OF wire(1)] by simp
  next
    case (1 es1)
    then have w1: "write_all es raw [] = (Inr (), raw, es1)" by simp
    consider es2 where "(if p \<noteq> [] then write_all es1 p raw else (Inr (), raw, es1)) = (Inr (), raw @ p, es2)"
      | es2 m where "(if p \<noteq> [] then write_all es1 p raw else (Inr (), raw, es1)) = (Inl TSDB_ERR_IO, raw @ take m p, es2)" "m < length p"
    proof (cases "p = []")
      case True
      then show ?thesis using that(1) by simp
    next
      case False
      then show ?thesis using that by (cases rule: write_part [of es1 p raw]) simp_all
    qed
    then show ?thesis
    proof cases
      case (2 es2 m)
      then show ?thesis unfolding step w1 using sends_cut [OF wire(2)] by simp
    next
      case w2: (1 es2)
      show ?thesis
      proof (cases rule: write_part [of es2 crc "raw @ p"])
        case (1 es3)
        then show ?thesis unfolding step w1 using w2 sends_whole wire(2) by simp
      next
        case (2 es3 m)
        then show ?thesis unfolding step w1 using w2 sends_cut [OF wire(3)] by simp
      qed
    qed
  qed
qed

lemma send_io_sends:
  "length p \<le> TSDB_PROTO_MAX_PAYLOAD \<Longrightarrow> sends (wire_frame ty fl rid p) (tsdb_proto_send_io tls es ty fl rid p)"
  using send_io_tls send_io_plain sends_delivers [OF send_delivers] by (cases tls) simp_all

lemma sends_ok: "sends wire (r, s, es) \<Longrightarrow> r = Inr () \<Longrightarrow> s = wire"
  by (auto simp: sends_def split: if_splits)

lemma max_payload_fits: "n \<le> TSDB_PROTO_MAX_PAYLOAD \<Longrightarrow> unat (of_nat n :: u32) = n"
  by (simp add: TSDB_PROTO_MAX_PAYLOAD_def unat_of_nat)

lemma frame_hdr_sel [simp]:
  "magic (frame_hdr ty fl rid p) = TSDB_PROTO_MAGIC" "payload_len (frame_hdr ty fl rid p) = of_nat (length p)"
  by (simp_all add: frame_hdr_def)

lemma parse_wire_frame:
  assumes "length p \<le> TSDB_PROTO_MAX_PAYLOAD" and "alloc (length p)"
  shows "parse_frame alloc (wire_frame ty fl rid p @ rest) = Inr (frame_hdr ty fl rid p, p)"
proof -
  define raw where "raw = tsdb_frame_write_hdr (frame_hdr ty fl rid p)"
  have "tsdb_frame_read_hdr raw = Inr (frame_hdr ty fl rid p)"
    unfolding raw_def by (rule read_write_hdr) simp
  moreover have "length raw = 24" by (simp add: raw_def)
  moreover have "take 20 (drop 4 raw) = drop 4 raw" by (simp add: raw_def)
  moreover have "unat (of_nat (length p) :: u32) = length p" using assms(1) by (rule max_payload_fits)
  ultimately show ?thesis using assms unfolding wire_frame_def raw_def [symmetric] Let_def parse_frame_def
    by simp
qed

lemma read_hdr_len:
  assumes "take 4 r = take 4 (tsdb_frame_write_hdr h)" and "take 4 (drop 20 r) = take 4 (drop 20 (tsdb_frame_write_hdr h))"
    and "magic h = TSDB_PROTO_MAGIC"
  shows "\<exists>h'. tsdb_frame_read_hdr r = Inr h' \<and> payload_len h' = payload_len h"
proof -
  have "tsdb_frame_read_hdr (tsdb_frame_write_hdr h) = Inr h" using assms(3) by (rule read_write_hdr)
  then show ?thesis unfolding tsdb_frame_read_hdr_def assms(1,2) Let_def
    by (auto split: if_splits dest: arg_cong [of _ _ payload_len])
qed

lemma parse_corrupted:
  assumes p: "length p \<le> TSDB_PROTO_MAX_PAYLOAD" "alloc (length p)"
    and wire: "wire_frame ty fl rid p = take 4 (wire_frame ty fl rid p) @ pre @ w @ post @ crc" "length crc = 4"
    and burst: "length v = length w" "length w \<le> 4" "v \<noteq> w"
    and len: "take 4 (drop 16 (pre @ v @ post)) = take 4 (drop 16 (pre @ w @ post))"
  shows "parse_frame alloc (take 4 (wire_frame ty fl rid p) @ pre @ v @ post @ crc @ rest) = Inl TSDB_ERR_CORRUPT"
proof -
  define raw where "raw = tsdb_frame_write_hdr (frame_hdr ty fl rid p)"
  define b where "b = pre @ w @ post"
  define c where "c = pre @ v @ post"
  have l: "length raw = 24" by (simp add: raw_def)
  have W: "wire_frame ty fl rid p = raw @ p @ le_bytes 4 (tsdb_crc32c (drop 4 raw @ p))"
    by (simp add: wire_frame_def raw_def Let_def)
  have m: "take 4 (wire_frame ty fl rid p) = take 4 raw" using l by (simp add: W)
  have "(drop 4 raw @ p) @ le_bytes 4 (tsdb_crc32c (drop 4 raw @ p)) = drop 4 (wire_frame ty fl rid p)"
    using l by (simp add: W)
  also have "\<dots> = b @ crc" by (subst wire(1)) (simp add: b_def)
  finally have "drop 4 raw @ p = b \<and> le_bytes 4 (tsdb_crc32c (drop 4 raw @ p)) = crc"
    using wire(2) by (intro append_eq_append_conv [THEN iffD1]) simp_all
  then have bc: "drop 4 raw @ p = b" "crc = le_bytes 4 (tsdb_crc32c b)" by auto
  have lb: "length b = 20 + length p" using l unfolding bc(1) [symmetric] by simp
  then have lc: "length c = 20 + length p" using burst(1) by (simp add: b_def c_def)
  have "take 20 b = drop 4 raw" using l unfolding bc(1) [symmetric] by simp
  have "\<exists>h. tsdb_frame_read_hdr (take 4 raw @ take 20 c) = Inr h \<and> payload_len h = payload_len (frame_hdr ty fl rid p)"
  proof (rule read_hdr_len)
    show "take 4 (take 4 raw @ take 20 c) = take 4 (tsdb_frame_write_hdr (frame_hdr ty fl rid p))"
      using l by (simp add: raw_def)
    have "take 4 (drop 16 (take 20 c)) = take 4 (drop 16 (take 20 b))" using len [folded b_def c_def] by (simp add: drop_take)
    also have "\<dots> = take 4 (drop 20 raw)" unfolding \<open>take 20 b = drop 4 raw\<close> by simp
    finally show "take 4 (drop 20 (take 4 raw @ take 20 c)) = take 4 (drop 20 (tsdb_frame_write_hdr (frame_hdr ty fl rid p)))"
      using l by (simp add: raw_def)
  qed simp
  then obtain h where h: "tsdb_frame_read_hdr (take 4 raw @ take 20 c) = Inr h" "payload_len h = of_nat (length p)" by auto
  have "tsdb_crc32c c \<noteq> tsdb_crc32c b"
    using burst crc32c_burst [of pre v post w] unfolding b_def c_def by auto
  moreover have "take 20 c @ take (length p) (drop 20 c) = c" using lc by simp
  ultimately have "parse_frame alloc (take 4 raw @ c @ crc @ rest) = Inl TSDB_ERR_CORRUPT"
    using p h l lc max_payload_fits [OF p(1)] unfolding parse_frame_def Let_def bc(2) by simp
  then show ?thesis by (simp add: m c_def)
qed

section \<open>Properties\<close>

text \<open>C27: the eight-bytes-per-step table code of CRC-32C computes the checksum defined bit by bit, that is 8
  rounds of \<^const>\<open>crc_shift\<close> per byte, and a checksum continued over a second buffer is that of the two
  buffers put together.
\<close>

theorem crc32c_tables_correct:
  "tsdb_crc32c_update c bs = crc_ref (c XOR 0xFFFFFFFF) bs XOR 0xFFFFFFFF
     \<and> tsdb_crc32c_update (tsdb_crc32c as) bs = tsdb_crc32c (as @ bs)"
proof
  show "tsdb_crc32c_update c bs = crc_ref (c XOR 0xFFFFFFFF) bs XOR 0xFFFFFFFF"
    by (simp add: tsdb_crc32c_update_def crc_step_sw_ref)
  show "tsdb_crc32c_update (tsdb_crc32c as) bs = tsdb_crc32c (as @ bs)"
    using crc_update_append [of 0 as bs] unfolding crc_update_0 .
qed

text \<open>C26: \<^verbatim>\<open>tsdb_proto_send\<close> puts on the connection exactly as much of the frame as the connection takes, however
  the kernel cuts the gathered write up and however often it is interrupted; it reports success exactly
  when the whole frame went out, and so always when the connection has room for it. A payload over the
  limit is refused with nothing written.
\<close>

theorem proto_send_delivers:
  "tsdb_proto_send es ty fl rid p = (r, sent, es') \<Longrightarrow>
     (if length p > TSDB_PROTO_MAX_PAYLOAD then r = Inl TSDB_ERR_INVAL \<and> sent = [] \<and> es' = es
      else sent = take (wr_room es) (wire_frame ty fl rid p)
           \<and> r = (if 28 + length p \<le> wr_room es then Inr () else Inl TSDB_ERR_IO))"
  using send_delivers [of p es ty fl rid] by (auto simp: delivers_def tsdb_proto_send_def)

theorem proto_send_delivers_witness:
  "fst (tsdb_proto_send [WrRoom 10, WrIntr, WrRoom 100] 4 0 7 []) = Inr ()"
proof -
  obtain r sent es' where e: "tsdb_proto_send [WrRoom 10, WrIntr, WrRoom 100] 4 0 7 [] = (r, sent, es')"
    by (cases "tsdb_proto_send [WrRoom 10, WrIntr, WrRoom 100] 4 0 7 []")
  show ?thesis using proto_send_delivers [OF e] unfolding e by simp
qed

text \<open>C24: a frame sent over a plain or a TLS connection is received as it was sent, with its header fields and
  payload, however its bytes are split on arrival, and the bytes behind it are left for the next frame.
\<close>

theorem proto_round_trip:
  assumes "tsdb_proto_send_io tls es ty fl rid p = (Inr (), sent, es')"
    and "rd_bytes rs = sent @ rest" and "alloc (length p)"
  shows "\<exists>rs'. tsdb_proto_recv_io alloc rs = (Inr (frame_hdr ty fl rid p, p), rs') \<and> rd_bytes rs' = rest"
proof -
  have l: "length p \<le> TSDB_PROTO_MAX_PAYLOAD" using assms(1) by (auto simp: tsdb_proto_send_io_def split: if_splits)
  have "sent = wire_frame ty fl rid p" using send_io_sends [OF l, of ty fl rid tls es] assms(1) by (auto intro: sends_ok)
  then have "fst (recv_with read_all_io alloc rs) = Inr (frame_hdr ty fl rid p, p)"
    unfolding rdio.recv_parse assms(2) using parse_wire_frame [of p alloc] l assms(3) by simp
  moreover from this have "rd_bytes (snd (recv_with read_all_io alloc rs)) = rest"
    using rdio.recv_rest [of alloc rs] assms(2) \<open>sent = wire_frame ty fl rid p\<close> by simp
  ultimately show ?thesis unfolding tsdb_proto_recv_io_def by (metis prod.collapse)
qed

theorem proto_round_trip_witness:
  "\<exists>sent rs'. tsdb_proto_recv_io (\<lambda>_. True) [RdIntr, RdChunk sent, RdChunk [9]] = (Inr (frame_hdr 4 0 7 [1, 2, 3], [1, 2, 3]), rs')
     \<and> rd_bytes rs' = [9]"
proof -
  let ?es = "[WrRoom 10, WrIntr, WrRoom 100]"
  have "delivers (wr_room ?es) (wire_frame 4 0 7 [1, 2, 3]) [] (tsdb_proto_send ?es 4 0 7 [1, 2, 3])"
    by (rule send_delivers) (simp add: TSDB_PROTO_MAX_PAYLOAD_def)
  then obtain es' where e: "tsdb_proto_send_io False ?es 4 0 7 [1, 2, 3] = (Inr (), wire_frame 4 0 7 [1, 2, 3], es')"
    unfolding send_io_plain by (cases "tsdb_proto_send ?es 4 0 7 [1, 2, 3]") (auto simp: delivers_def)
  have "wire_frame 4 0 7 [1, 2, 3] \<noteq> []" using length_wire_frame [of 4 0 7 "[1, 2, 3]"] by (metis list.size(3) add_is_0 zero_neq_numeral)
  then show ?thesis
    using proto_round_trip [OF e, of "[RdIntr, RdChunk (wire_frame 4 0 7 [1, 2, 3]), RdChunk [9]]" "[9]" "\<lambda>_. True"] by auto
qed



end
