(* ===== verification/Cluster_Dedup.thy ===== *)
theory Cluster_Dedup
  imports Server_Crc
begin

text \<open>
  Model of \<^verbatim>\<open>src/cluster/dedup.c\<close>, the receiver-side ledger of applied batches: per stream a frontier below
  which every sequence number is applied and the sorted out-of-order numbers above it. The slot array of
  the ledger is a list (its length is \<^verbatim>\<open>max_streams\<close>), pointers into it are indices, and the first \<^verbatim>\<open>ngaps\<close>
  entries of a slot's gap array are the list \<^verbatim>\<open>gaps\<close>. Operations return a result and the ledger, which
  may change even when the result is an error. A checkpoint file is its bytes.
\<close>

section \<open>The ledger\<close>

definition tsdb_stream_id :: "u64 \<Rightarrow> u64 \<Rightarrow> u64" where
  "tsdb_stream_id issuer_node_id table_incarnation =
     (if issuer_node_id = 0 \<or> table_incarnation = 0 then 0
      else let h = issuer_node_id * 0x9E3779B97F4A7C15;
               h = h XOR (table_incarnation + 0x165667B19E3779F9 + push_bit 6 h + drop_bit 2 h);
               h = (h XOR drop_bit 33 h) * 0xFF51AFD7ED558CCD;
               h = (h XOR drop_bit 33 h) * 0xC4CEB9FE1A85EC53;
               h = h XOR drop_bit 33 h
           in if h \<noteq> 0 then h else 1)"

record stream_t =
  stream :: u64
  frontier :: u64
  gaps :: "u64 list"
  gcap :: nat

record tsdb_dedup_ledger =
  streams :: "stream_t list"
  nstreams :: nat
  max_gap :: nat

text \<open>\<^verbatim>\<open>calloc\<close> gives zeroed slots; \<^verbatim>\<open>ok\<close> says whether the two allocations succeed.\<close>

definition tsdb_dedup_open :: "bool \<Rightarrow> nat \<Rightarrow> nat \<Rightarrow> tsdb_err + tsdb_dedup_ledger" where
  "tsdb_dedup_open ok max_streams mg =
     (if max_streams = 0 \<or> mg = 0 then Inl TSDB_ERR_INVAL
      else if \<not> ok then Inl TSDB_ERR_NOMEM
      else Inr \<lparr>streams = replicate max_streams \<lparr>stream = 0, frontier = 0, gaps = [], gcap = 0\<rparr>, nstreams = 0, max_gap = mg\<rparr>)"

definition dedup_find :: "tsdb_dedup_ledger \<Rightarrow> u64 \<Rightarrow> nat option" where
  "dedup_find l st = List.find (\<lambda>i. stream (streams l ! i) = st) [0..<length (streams l)]"

definition put_slot :: "tsdb_dedup_ledger \<Rightarrow> nat \<Rightarrow> stream_t \<Rightarrow> tsdb_dedup_ledger" where
  "put_slot l i s = l\<lparr>streams := (streams l)[i := s]\<rparr>"

definition find_or_add :: "tsdb_dedup_ledger \<Rightarrow> u64 \<Rightarrow> nat option \<times> tsdb_dedup_ledger" where
  "find_or_add l st =
     (case dedup_find l st of
        Some i \<Rightarrow> (Some i, l)
      | None \<Rightarrow>
         (case List.find (\<lambda>i. stream (streams l ! i) = 0) [0..<length (streams l)] of
            Some i \<Rightarrow> (Some i, put_slot l i ((streams l ! i)\<lparr>stream := st, frontier := 0, gaps := []\<rparr>)\<lparr>nstreams := nstreams l + 1\<rparr>)
          | None \<Rightarrow> (None, l)))"

text \<open>The binary search: whether \<^verbatim>\<open>seq\<close> is there, and its index or the insertion point.\<close>

function gap_loop :: "u64 list \<Rightarrow> u64 \<Rightarrow> nat \<Rightarrow> nat \<Rightarrow> bool \<times> nat" where
  "gap_loop gs seq lo hi =
     (if lo < hi then
        let mid = lo + (hi - lo) div 2
        in if gs ! mid = seq then (True, mid)
           else if gs ! mid < seq then gap_loop gs seq (mid + 1) hi
           else gap_loop gs seq lo mid
      else (False, lo))"
  by pat_completeness auto
termination
  by (relation "measure (\<lambda>(gs, seq, lo, hi). hi - lo)") auto

declare gap_loop.simps [simp del]

definition gap_find :: "stream_t \<Rightarrow> u64 \<Rightarrow> bool \<times> nat" where
  "gap_find s seq = gap_loop (gaps s) seq 0 (length (gaps s))"

definition tsdb_dedup_seen :: "tsdb_dedup_ledger \<Rightarrow> u64 \<Rightarrow> u64 \<Rightarrow> bool" where
  "tsdb_dedup_seen l st seq =
     (if seq = 0 then False
      else case dedup_find l st of
             None \<Rightarrow> False
           | Some i \<Rightarrow> if seq \<le> frontier (streams l ! i) then True else fst (gap_find (streams l ! i) seq))"

primrec absorb_loop :: "u64 list \<Rightarrow> u64 \<Rightarrow> u64 \<times> u64 list" where
  "absorb_loop [] fr = (fr, [])"
| "absorb_loop (g # gs) fr = (if g = fr + 1 then absorb_loop gs (fr + 1) else (fr, g # gs))"

definition absorb :: "stream_t \<Rightarrow> stream_t" where
  "absorb s = (case absorb_loop (gaps s) (frontier s) of (fr, gs) \<Rightarrow> s\<lparr>frontier := fr, gaps := gs\<rparr>)"

text \<open>\<^verbatim>\<open>ok\<close> says whether growing the gap array by \<^verbatim>\<open>realloc\<close> succeeds.\<close>

definition record_slot :: "bool \<Rightarrow> nat \<Rightarrow> stream_t \<Rightarrow> u64 \<Rightarrow> (tsdb_err + unit) \<times> stream_t" where
  "record_slot ok mg s seq =
     (if seq \<le> frontier s then (Inl TSDB_ERR_EXISTS, s)
      else case gap_find s seq of (found, at) \<Rightarrow>
        if found then (Inl TSDB_ERR_EXISTS, s)
        else if seq = frontier s + 1 then (Inr (), absorb (s\<lparr>frontier := seq\<rparr>))
        else if length (gaps s) \<ge> mg then (Inl TSDB_ERR_FULL, s)
        else let nc = (if gcap s \<noteq> 0 then gcap s * 2 else 16); nc = (if nc > mg then mg else nc)
             in if length (gaps s) = gcap s \<and> \<not> ok then (Inl TSDB_ERR_NOMEM, s)
                else (Inr (), s\<lparr>gcap := (if length (gaps s) = gcap s then nc else gcap s),
                               gaps := take at (gaps s) @ seq # drop at (gaps s)\<rparr>))"

definition tsdb_dedup_record :: "bool \<Rightarrow> tsdb_dedup_ledger \<Rightarrow> u64 \<Rightarrow> u64 \<Rightarrow> (tsdb_err + unit) \<times> tsdb_dedup_ledger" where
  "tsdb_dedup_record ok l st seq =
     (if seq = 0 then (Inl TSDB_ERR_INVAL, l)
      else case find_or_add l st of
             (None, l1) \<Rightarrow> (Inl TSDB_ERR_NOMEM, l1)
           | (Some i, l1) \<Rightarrow> (case record_slot ok (max_gap l) (streams l1 ! i) seq of (rc, s) \<Rightarrow> (rc, put_slot l1 i s)))"

definition tsdb_dedup_frontier :: "tsdb_dedup_ledger \<Rightarrow> u64 \<Rightarrow> u64" where
  "tsdb_dedup_frontier l st = (case dedup_find l st of Some i \<Rightarrow> frontier (streams l ! i) | None \<Rightarrow> 0)"

definition tsdb_dedup_gap_count :: "tsdb_dedup_ledger \<Rightarrow> u64 \<Rightarrow> nat" where
  "tsdb_dedup_gap_count l st = (case dedup_find l st of Some i \<Rightarrow> length (gaps (streams l ! i)) | None \<Rightarrow> 0)"

definition set_slot_frontier :: "stream_t \<Rightarrow> u64 \<Rightarrow> stream_t" where
  "set_slot_frontier s fr =
     (if fr > frontier s then absorb (s\<lparr>frontier := fr, gaps := dropWhile (\<lambda>g. g \<le> fr) (gaps s)\<rparr>) else s)"

definition tsdb_dedup_set_frontier :: "tsdb_dedup_ledger \<Rightarrow> u64 \<Rightarrow> u64 \<Rightarrow> (tsdb_err + unit) \<times> tsdb_dedup_ledger" where
  "tsdb_dedup_set_frontier l st fr =
     (case find_or_add l st of
        (None, l1) \<Rightarrow> (Inl TSDB_ERR_NOMEM, l1)
      | (Some i, l1) \<Rightarrow> (Inr (), put_slot l1 i (set_slot_frontier (streams l1 ! i) fr)))"

definition tsdb_dedup_advance_base :: "tsdb_dedup_ledger \<Rightarrow> u64 \<Rightarrow> u64 \<Rightarrow> (tsdb_err + unit) \<times> tsdb_dedup_ledger" where
  "tsdb_dedup_advance_base l st base =
     (if base \<le> 1 then (Inr (), l) else tsdb_dedup_set_frontier l st (base - 1))"

section \<open>Checkpoints\<close>

definition DDP_MAGIC :: u32 where "DDP_MAGIC = 0x31504444"
definition DDP_VERSION :: u32 where "DDP_VERSION = 1"
definition DDP_HDR :: nat where "DDP_HDR = 16"

definition ckpt_records :: "stream_t list \<Rightarrow> u8 list" where
  "ckpt_records ss = concat (map (\<lambda>s. le_bytes 8 (stream s) @ le_bytes 8 (frontier s))
     (filter (\<lambda>s. stream s \<noteq> 0 \<and> frontier s \<noteq> 0) ss))"

definition ckpt_body :: "tsdb_dedup_ledger \<Rightarrow> u8 list" where
  "ckpt_body l = le_bytes 4 DDP_MAGIC @ le_bytes 4 DDP_VERSION
     @ le_bytes 4 (of_nat (length (filter (\<lambda>s. stream s \<noteq> 0 \<and> frontier s \<noteq> 0) (streams l))) :: u32)
     @ le_bytes 4 (0 :: u32) @ ckpt_records (streams l)"

text \<open>
  The file system calls of the save: the allocation, opening, writing and syncing the temporary file,
  and the rename. The result is the return code and what \<^verbatim>\<open>path\<close> holds afterwards (nothing, or the
  bytes); the temporary file never stays behind.
\<close>

record save_env =
  sv_alloc :: bool
  sv_write :: bool
  sv_rename :: bool

definition tsdb_dedup_checkpoint_save ::
  "save_env \<Rightarrow> tsdb_dedup_ledger \<Rightarrow> u8 list option \<Rightarrow> (tsdb_err + unit) \<times> u8 list option" where
  "tsdb_dedup_checkpoint_save e l file =
     (if \<not> sv_alloc e then (Inl TSDB_ERR_NOMEM, file)
      else let buf = ckpt_body l @ le_bytes 4 (tsdb_crc32c (ckpt_body l))
           in if \<not> sv_write e then (Inl TSDB_ERR_IO, file)
              else if \<not> sv_rename e then (Inl TSDB_ERR_IO, file)
              else (Inr (), Some buf))"

text \<open>Reading back: \<^verbatim>\<open>seek\<close>, \<^verbatim>\<open>alloc\<close> and \<^verbatim>\<open>rd\<close> say whether the calls succeed.\<close>

record load_env =
  ld_seek :: bool
  ld_alloc :: bool
  ld_read :: bool

primrec restore_loop :: "nat \<Rightarrow> u8 list \<Rightarrow> tsdb_dedup_ledger \<Rightarrow> tsdb_dedup_ledger" where
  "restore_loop 0 recs l = l"
| "restore_loop (Suc n) recs l =
     restore_loop n (drop 16 recs) (snd (tsdb_dedup_set_frontier l (le_acc 0 0 (take 8 recs)) (le_acc 0 0 (take 8 (drop 8 recs)))))"

definition tsdb_dedup_checkpoint_load ::
  "load_env \<Rightarrow> tsdb_dedup_ledger \<Rightarrow> u8 list option \<Rightarrow> (tsdb_err + unit) \<times> tsdb_dedup_ledger" where
  "tsdb_dedup_checkpoint_load e l file =
     (case file of
        None \<Rightarrow> (Inr (), l)
      | Some buf \<Rightarrow>
         if \<not> ld_seek e then (Inl TSDB_ERR_IO, l)
         else if length buf < DDP_HDR + 4 then (Inl TSDB_ERR_CORRUPT, l)
         else if \<not> ld_alloc e then (Inl TSDB_ERR_NOMEM, l)
         else if \<not> ld_read e then (Inl TSDB_ERR_IO, l)
         else let body = length buf - 4; n = unat (le_acc 0 0 (take 4 (drop 8 buf)) :: u32)
              in if le_acc 0 0 (take 4 buf) \<noteq> DDP_MAGIC \<or> le_acc 0 0 (take 4 (drop 4 buf)) \<noteq> DDP_VERSION
                    \<or> tsdb_crc32c (take body buf) \<noteq> le_acc 0 0 (take 4 (drop body buf)) then (Inl TSDB_ERR_CORRUPT, l)
                 else if DDP_HDR + n * 16 \<noteq> body then (Inl TSDB_ERR_CORRUPT, l)
                 else (Inr (), restore_loop n (drop DDP_HDR buf) l))"

text \<open>An identity is minted exactly when both halves are known.\<close>

lemma stream_id_zero: "tsdb_stream_id issuer inc = 0 \<longleftrightarrow> issuer = 0 \<or> inc = 0"
  unfolding tsdb_stream_id_def Let_def by (simp split: if_split)

section \<open>What a slot stands for\<close>

definition slot_applied :: "stream_t \<Rightarrow> u64 set" where
  "slot_applied s = {0<..frontier s} \<union> set (gaps s)"

definition slot_ok :: "nat \<Rightarrow> stream_t \<Rightarrow> bool" where
  "slot_ok mg s \<longleftrightarrow> sorted_wrt (<) (gaps s) \<and> list_all (\<lambda>g. frontier s < g \<and> g \<noteq> frontier s + 1) (gaps s)
     \<and> length (gaps s) \<le> gcap s \<and> gcap s \<le> mg"

lemma word_lt_next: "fr < g \<Longrightarrow> fr < fr + (1::u64)"
  using inc_less_eq_iff [of fr fr] by (metis linorder_not_le inc_less_eq_triv_imp word_order.extremum_strict)

lemma upto_next: "fr < fr + 1 \<Longrightarrow> {0<..fr + 1} = insert (fr + 1) {0<..(fr::u64)}"
  using word_greater_zero_iff [of "fr + 1"]
  by (auto dest: less_inc_imp_less_eq simp: order.order_iff_strict [of _ "fr + 1"] intro: order.strict_trans order_le_less_trans)

lemma absorb_loop_correct:
  assumes "sorted_wrt (<) gs" and "\<forall>g \<in> set gs. fr < g" and "absorb_loop gs fr = (fr', gs')"
  shows "sorted_wrt (<) gs' \<and> (\<forall>g \<in> set gs'. fr' < g \<and> g \<noteq> fr' + 1) \<and> {0<..fr'} \<union> set gs' = {0<..fr} \<union> set gs
    \<and> length gs' \<le> length gs \<and> fr \<le> fr'"
  using assms
proof (induction gs arbitrary: fr)
  case (Cons g gs)
  show ?case
  proof (cases "g = fr + 1")
    case True
    have lt: "fr < fr + 1" using Cons.prems(2) True by auto
    have "\<forall>x \<in> set gs. fr + 1 < x" using Cons.prems(1) True by auto
    then show ?thesis using Cons.IH [of "fr + 1"] Cons.prems(1,3) True upto_next [OF lt] lt by auto
  next
    case False
    have "\<forall>x \<in> set gs. fr + 1 < x" using Cons.prems(1,2) inc_le by (auto intro: order_le_less_trans)
    then show ?thesis using Cons.prems False by auto
  qed
qed auto

lemma absorb_correct:
  assumes "sorted_wrt (<) (gaps s)" and "\<forall>g \<in> set (gaps s). frontier s < g" and "length (gaps s) \<le> gcap s" and "gcap s \<le> mg"
  shows "slot_ok mg (absorb s)" and "slot_applied (absorb s) = slot_applied s"
    and "stream (absorb s) = stream s" and "frontier s \<le> frontier (absorb s)"
proof -
  obtain fr gs where e: "absorb_loop (gaps s) (frontier s) = (fr, gs)" by (cases "absorb_loop (gaps s) (frontier s)")
  note a = absorb_loop_correct [OF assms(1,2) e]
  show "slot_ok mg (absorb s)" "slot_applied (absorb s) = slot_applied s" "stream (absorb s) = stream s" "frontier s \<le> frontier (absorb s)"
    using a assms(3,4) by (auto simp: absorb_def e slot_ok_def slot_applied_def list_all_iff)
qed

lemma gap_loop_correct:
  assumes "sorted_wrt (<) gs" and "hi \<le> length gs" and "lo \<le> hi"
    and "\<forall>i < lo. gs ! i < seq" and "\<forall>i. hi \<le> i \<and> i < length gs \<longrightarrow> seq < gs ! i"
    and "gap_loop gs seq lo hi = (found, at)"
  shows "(found \<longleftrightarrow> seq \<in> set gs) \<and> at \<le> length gs
    \<and> (\<not> found \<longrightarrow> (\<forall>i < at. gs ! i < seq) \<and> (\<forall>i. at \<le> i \<and> i < length gs \<longrightarrow> seq < gs ! i))"
  using assms
proof (induction gs seq lo hi rule: gap_loop.induct)
  case (1 gs seq lo hi)
  define m where "m = lo + (hi - lo) div 2"
  show ?case
  proof (cases "lo < hi")
    case False
    then have "lo = hi" using "1.prems" by simp
    then have "gs ! i \<noteq> seq" if "i < length gs" for i
      using "1.prems"(4,5) that by (metis linorder_not_le order_less_irrefl)
    then have "seq \<notin> set gs" by (auto simp: in_set_conv_nth)
    moreover have "gap_loop gs seq lo hi = (False, lo)" using False by (subst gap_loop.simps) simp
    ultimately show ?thesis using "1.prems" \<open>lo = hi\<close> by auto
  next
    case True
    then have m: "lo \<le> m" "m < hi" "m < length gs" using "1.prems"(2) by (auto simp: m_def)
    have lt: "gs ! i < gs ! j" if "i < j" "j < length gs" for i j
      using "1.prems"(1) that by (simp add: sorted_wrt_iff_nth_less)
    have le: "gs ! i \<le> gs ! j" if "i \<le> j" "j < length gs" for i j
      using lt [of i j] that by (cases "i = j") auto
    consider "gs ! m = seq" | "gs ! m < seq" | "gs ! m \<noteq> seq" "\<not> gs ! m < seq" by blast
    then show ?thesis
    proof cases
      case eq: 1
      then have "gap_loop gs seq lo hi = (True, m)" using True by (subst gap_loop.simps) (simp add: Let_def m_def)
      then show ?thesis using "1.prems" m eq by auto
    next
      case 2
      then have s: "gap_loop gs seq lo hi = gap_loop gs seq (m + 1) hi" using True by (subst gap_loop.simps) (auto simp: Let_def m_def)
      have ne: "gs ! m \<noteq> seq" using 2 by simp
      have below: "\<forall>i < m + 1. gs ! i < seq"
        using order_le_less_trans [OF le 2] m(3) by simp
      have "m + 1 \<le> hi" using m(2) by simp
      then show ?thesis
        by (rule "1.IH"(1) [OF True m_def ne 2 "1.prems"(1,2) _ below "1.prems"(5) "1.prems"(6) [unfolded s]])
    next
      case 3
      then have s: "gap_loop gs seq lo hi = gap_loop gs seq lo m" using True by (subst gap_loop.simps) (auto simp: Let_def m_def)
      have "seq < gs ! m" using 3 by auto
      then have above: "\<forall>i. m \<le> i \<and> i < length gs \<longrightarrow> seq < gs ! i" using order_less_le_trans [OF _ le] by blast
      have "m \<le> length gs" using m(3) by simp
      then show ?thesis
        by (rule "1.IH"(2) [OF True m_def 3 "1.prems"(1) _ m(1) "1.prems"(4) above "1.prems"(6) [unfolded s]])
    qed
  qed
qed

lemma gap_find_correct:
  assumes "slot_ok mg s" and "gap_find s seq = (found, at)"
  shows "found \<longleftrightarrow> seq \<in> set (gaps s)" and "at \<le> length (gaps s)"
    and "\<not> found \<Longrightarrow> sorted_wrt (<) (take at (gaps s) @ seq # drop at (gaps s))"
proof -
  let ?g = "gaps s"
  have so: "sorted_wrt (<) ?g" using assms(1) by (simp add: slot_ok_def)
  have v: "\<forall>i < 0. ?g ! i < seq" "\<forall>i. length ?g \<le> i \<and> i < length ?g \<longrightarrow> seq < ?g ! i" by auto
  note c = gap_loop_correct [OF so order.refl le0 v assms(2) [unfolded gap_find_def]]
  show "found \<longleftrightarrow> seq \<in> set ?g" "at \<le> length ?g" using c by auto
  assume "\<not> found"
  then have "\<forall>x \<in> set (take at ?g). x < seq" "\<forall>x \<in> set (drop at ?g). seq < x"
    using c by (auto simp: in_set_conv_nth)
  moreover have "sorted_wrt (<) (take at ?g @ drop at ?g)" using so by simp
  ultimately show "sorted_wrt (<) (take at ?g @ seq # drop at ?g)"
    unfolding sorted_wrt_append by auto
qed

lemma slot_applied_pos: "slot_ok mg s \<Longrightarrow> q \<in> slot_applied s \<Longrightarrow> 0 < q"
  by (auto simp: slot_applied_def slot_ok_def list_all_iff intro: word_gt_0_no order_le_less_trans [OF word_zero_le])

lemma slot_seen:
  "slot_ok mg s \<Longrightarrow> q \<noteq> 0 \<Longrightarrow> q \<in> slot_applied s \<longleftrightarrow> q \<le> frontier s \<or> fst (gap_find s q)"
  using gap_find_correct(1) [of mg s q "fst (gap_find s q)" "snd (gap_find s q)"]
  by (auto simp: slot_applied_def word_neq_0_conv)

text \<open>
  Recording into a slot: it succeeds only on a number that is not yet applied and adds exactly that one;
  it refuses with \<^const>\<open>TSDB_ERR_EXISTS\<close> exactly the applied ones; every refusal leaves the slot as it was.
\<close>

lemma record_slot_correct:
  assumes ok: "slot_ok mg s" and q: "q \<noteq> 0" and r: "record_slot al mg s q = (rc, s')"
  shows "slot_ok mg s'" "stream s' = stream s"
    and "rc = Inr () \<Longrightarrow> q \<notin> slot_applied s \<and> slot_applied s' = insert q (slot_applied s)"
    and "rc \<noteq> Inr () \<Longrightarrow> s' = s"
    and "rc = Inl TSDB_ERR_EXISTS \<longleftrightarrow> q \<in> slot_applied s"
    and "rc \<in> {Inr (), Inl TSDB_ERR_EXISTS, Inl TSDB_ERR_FULL, Inl TSDB_ERR_NOMEM}"
    and "rc = Inl TSDB_ERR_FULL \<Longrightarrow> length (gaps s) = mg"
    and "q = frontier s + 1 \<Longrightarrow> rc \<noteq> Inl TSDB_ERR_FULL \<and> rc \<noteq> Inl TSDB_ERR_NOMEM"
proof -
  obtain found at where g: "gap_find s q = (found, at)" by (cases "gap_find s q")
  note gf = gap_find_correct [OF ok g]
  have seen: "q \<in> slot_applied s \<longleftrightarrow> q \<le> frontier s \<or> found" using slot_seen [OF ok q] g by simp
  have lens: "length (gaps s) \<le> gcap s" "gcap s \<le> mg" using ok by (auto simp: slot_ok_def)
  consider (ex) "q \<in> slot_applied s" | (nxt) "q \<notin> slot_applied s" "q = frontier s + 1"
    | (ooo) "q \<notin> slot_applied s" "q \<noteq> frontier s + 1" by blast
  note cs = this
  have ex: "rc = Inl TSDB_ERR_EXISTS \<and> s' = s" if "q \<in> slot_applied s"
    using that seen r g by (auto simp: record_slot_def split: if_splits)
  have nxt: "rc = Inr () \<and> s' = absorb (s\<lparr>frontier := q\<rparr>)" if "q \<notin> slot_applied s" "q = frontier s + 1"
    using that seen r g by (auto simp: record_slot_def)
  have nxt_ok: "slot_ok mg s' \<and> stream s' = stream s \<and> slot_applied s' = insert q (slot_applied s)"
    if n: "q \<notin> slot_applied s" "q = frontier s + 1"
  proof -
    have lt: "frontier s < q" using n seen by auto
    have "sorted_wrt (<) (gaps (s\<lparr>frontier := q\<rparr>))" "\<forall>x \<in> set (gaps (s\<lparr>frontier := q\<rparr>)). frontier (s\<lparr>frontier := q\<rparr>) < x"
      using ok inc_le n(2) by (auto simp: slot_ok_def list_all_iff order.strict_iff_order)
    note ab = absorb_correct [OF this, of mg]
    have "slot_applied (s\<lparr>frontier := q\<rparr>) = insert q (slot_applied s)"
      using upto_next [of "frontier s"] lt n(2) by (auto simp: slot_applied_def)
    then show ?thesis using ab lens nxt [OF n] by simp
  qed
  have ooo: "rc = Inl TSDB_ERR_FULL \<and> s' = s \<and> length (gaps s) = mg \<or> rc = Inl TSDB_ERR_NOMEM \<and> s' = s
      \<or> rc = Inr () \<and> slot_ok mg s' \<and> stream s' = stream s \<and> slot_applied s' = insert q (slot_applied s)"
    if n: "q \<notin> slot_applied s" "q \<noteq> frontier s + 1"
  proof -
    have nf: "\<not> found" "\<not> q \<le> frontier s" using n seen by auto
    have set: "set (take at (gaps s) @ q # drop at (gaps s)) = insert q (set (gaps s))"
      by (metis Un_insert_right append_take_drop_id list.simps(15) set_append)
    have len: "length (take at (gaps s) @ q # drop at (gaps s)) = Suc (length (gaps s))" using gf(2) by simp
    show ?thesis
    proof (cases "length (gaps s) \<ge> mg \<or> length (gaps s) = gcap s \<and> \<not> al")
      case True
      then show ?thesis using r g n nf lens unfolding record_slot_def Let_def by (cases "length (gaps s) \<ge> mg") simp_all
    next
      case False
      define nc where "nc = (if gcap s \<noteq> 0 then gcap s * 2 else 16)"
      define c where "c = (if length (gaps s) = gcap s then (if nc > mg then mg else nc) else gcap s)"
      have c: "length (gaps s) < c" "c \<le> mg" using False lens by (auto simp: c_def nc_def)
      have "rc = Inr () \<and> s' = s\<lparr>gcap := c, gaps := take at (gaps s) @ q # drop at (gaps s)\<rparr>"
        using r g n nf False unfolding record_slot_def c_def nc_def Let_def by (cases "length (gaps s) = gcap s") simp_all
      then show ?thesis using ok gf(3) nf set len c n(2) by (auto simp: slot_ok_def slot_applied_def list_all_iff simp del: set_append)
    qed
  qed
  show "slot_ok mg s'" "stream s' = stream s"
    "rc = Inr () \<Longrightarrow> q \<notin> slot_applied s \<and> slot_applied s' = insert q (slot_applied s)"
    "rc \<noteq> Inr () \<Longrightarrow> s' = s" "rc = Inl TSDB_ERR_EXISTS \<longleftrightarrow> q \<in> slot_applied s"
    "rc \<in> {Inr (), Inl TSDB_ERR_EXISTS, Inl TSDB_ERR_FULL, Inl TSDB_ERR_NOMEM}"
    "rc = Inl TSDB_ERR_FULL \<Longrightarrow> length (gaps s) = mg"
    "q = frontier s + 1 \<Longrightarrow> rc \<noteq> Inl TSDB_ERR_FULL \<and> rc \<noteq> Inl TSDB_ERR_NOMEM"
    using ex nxt nxt_ok ooo ok by blast+
qed

lemma dropWhile_sorted:
  "sorted_wrt (<) gs \<Longrightarrow> set (dropWhile (\<lambda>g. g \<le> fr) gs) = {g \<in> set gs. fr < (g :: u64)}"
  by (induction gs) (auto intro: less_trans)

lemma sorted_dropWhile: "sorted_wrt (<) gs \<Longrightarrow> sorted_wrt (<) (dropWhile P gs)"
  by (induction gs) auto

lemma set_slot_frontier_correct:
  assumes "slot_ok mg s"
  shows "slot_ok mg (set_slot_frontier s fr)" "stream (set_slot_frontier s fr) = stream s"
    "slot_applied (set_slot_frontier s fr) = slot_applied s \<union> {0<..fr}"
    "frontier s \<le> frontier (set_slot_frontier s fr)" "fr \<le> frontier (set_slot_frontier s fr)"
proof -
  let ?s = "s\<lparr>frontier := fr, gaps := dropWhile (\<lambda>g. g \<le> fr) (gaps s)\<rparr>"
  have so: "sorted_wrt (<) (gaps s)" and len: "length (gaps s) \<le> gcap s" "gcap s \<le> mg"
    using assms by (auto simp: slot_ok_def)
  have "sorted_wrt (<) (gaps ?s)" "\<forall>g \<in> set (gaps ?s). frontier ?s < g" "length (gaps ?s) \<le> gcap ?s" "gcap ?s \<le> mg"
    using so sorted_dropWhile dropWhile_sorted [OF so] len order_trans [OF length_dropWhile_le len(1)] by auto
  note ab = absorb_correct [OF this]
  have pos: "\<forall>g \<in> set (gaps s). 0 < g" using slot_applied_pos [OF assms] by (auto simp: slot_applied_def)
  have "slot_applied ?s = slot_applied s \<union> {0<..fr}" if "frontier s < fr"
  proof -
    have "{0<..frontier s} \<subseteq> {0<..fr}" using that by auto
    moreover have "set (gaps s) \<subseteq> {g \<in> set (gaps s). fr < g} \<union> {0<..fr}" using pos by auto
    ultimately show ?thesis unfolding slot_applied_def using dropWhile_sorted [OF so, of fr] by auto
  qed
  then show "slot_ok mg (set_slot_frontier s fr)" "stream (set_slot_frontier s fr) = stream s"
    "slot_applied (set_slot_frontier s fr) = slot_applied s \<union> {0<..fr}"
    "frontier s \<le> frontier (set_slot_frontier s fr)" "fr \<le> frontier (set_slot_frontier s fr)"
    using ab assms by (auto simp: set_slot_frontier_def slot_applied_def)
qed

section \<open>What a ledger stands for\<close>

definition ledger_applied :: "tsdb_dedup_ledger \<Rightarrow> u64 \<Rightarrow> u64 set" where
  "ledger_applied l st = (case dedup_find l st of None \<Rightarrow> {} | Some i \<Rightarrow> slot_applied (streams l ! i))"

definition ledger_ok :: "tsdb_dedup_ledger \<Rightarrow> bool" where
  "ledger_ok l \<longleftrightarrow> list_all (slot_ok (max_gap l)) (streams l)
     \<and> distinct (filter (\<lambda>x. x \<noteq> 0) (map stream (streams l)))
     \<and> nstreams l = length (filter (\<lambda>x. x \<noteq> 0) (map stream (streams l)))"

lemma dedup_find_SomeD: "dedup_find l st = Some i \<Longrightarrow> i < length (streams l) \<and> stream (streams l ! i) = st"
  unfolding dedup_find_def by (auto simp: find_Some_iff)

lemma dedup_find_NoneD: "dedup_find l st = None \<Longrightarrow> i < length (streams l) \<Longrightarrow> stream (streams l ! i) \<noteq> st"
  unfolding dedup_find_def by (auto simp: find_None_iff)

lemma dedup_find_cong:
  assumes "length (streams l') = length (streams l)"
    and "\<And>i. i < length (streams l) \<Longrightarrow> stream (streams l' ! i) = st \<longleftrightarrow> stream (streams l ! i) = st"
  shows "dedup_find l' st = dedup_find l st"
  unfolding dedup_find_def by (rule find_cong) (use assms in auto)

lemma put_slot_simps [simp]:
  "streams (put_slot l i s) = (streams l)[i := s]" "nstreams (put_slot l i s) = nstreams l" "max_gap (put_slot l i s) = max_gap l"
  by (simp_all add: put_slot_def)

text \<open>Overwriting a slot with one of the same stream changes what that stream has applied and nothing else.\<close>

lemma put_slot_applied:
  assumes "dedup_find l st = Some i" and "stream s = st"
  shows "ledger_applied (put_slot l i s) st' = (if st' = st then slot_applied s else ledger_applied l st')"
proof -
  note f = dedup_find_SomeD [OF assms(1)]
  have "dedup_find (put_slot l i s) st' = dedup_find l st'"
    using f assms(2) by (intro dedup_find_cong) (auto simp: nth_list_update)
  moreover have "j \<noteq> i" if "dedup_find l st' = Some j" "st' \<noteq> st" for j using dedup_find_SomeD [OF that(1)] f that(2) by auto
  ultimately show ?thesis using f assms by (auto simp: ledger_applied_def split: option.splits)
qed

lemma put_slot_ok:
  assumes "ledger_ok l" and "i < length (streams l)" and "slot_ok (max_gap l) s" and "stream s = stream (streams l ! i)"
  shows "ledger_ok (put_slot l i s)"
proof -
  have "map stream ((streams l)[i := s]) = map stream (streams l)"
    using assms(2,4) by (simp add: map_update list_update_same_conv)
  then show ?thesis using assms by (auto simp: ledger_ok_def list_all_iff dest: set_update_subset_insert [THEN subsetD])
qed

lemma find_or_add_found:
  assumes "ledger_ok l" and "st \<noteq> 0" and "find_or_add l st = (Some i, l')"
  shows "dedup_find l' st = Some i" "ledger_ok l'" "max_gap l' = max_gap l" "length (streams l') = length (streams l)"
    "st' \<noteq> 0 \<Longrightarrow> ledger_applied l' st' = ledger_applied l st'"
proof -
  consider (old) "dedup_find l st = Some i" "l' = l"
    | (new) "dedup_find l st = None" "i < length (streams l)" "stream (streams l ! i) = 0"
        "l' = put_slot l i ((streams l ! i)\<lparr>stream := st, frontier := 0, gaps := []\<rparr>)\<lparr>nstreams := nstreams l + 1\<rparr>"
    using assms(3) by (auto simp: find_or_add_def find_Some_iff split: option.splits)
  then have "dedup_find l' st = Some i \<and> ledger_ok l' \<and> max_gap l' = max_gap l \<and> length (streams l') = length (streams l)
      \<and> (\<forall>st'. st' \<noteq> 0 \<longrightarrow> ledger_applied l' st' = ledger_applied l st')"
  proof cases
    case old
    then show ?thesis using assms(1) by simp
  next
    case new
    let ?s = "(streams l ! i)\<lparr>stream := st, frontier := 0, gaps := []\<rparr>"
    have l': "streams l' = (streams l)[i := ?s]" "max_gap l' = max_gap l" "nstreams l' = nstreams l + 1" using new(4) by simp_all
    have no: "stream (streams l ! j) \<noteq> st" if "j < length (streams l)" for j using dedup_find_NoneD [OF new(1) that] .
    have f: "dedup_find l' st = Some i"
      unfolding dedup_find_def l' find_Some_iff using new(2) no less_trans [OF _ new(2)]
      by (intro exI [of _ i]) (auto simp: nth_list_update)
    have g: "dedup_find l' st' = dedup_find l st'" if "st' \<noteq> 0" "st' \<noteq> st" for st'
    proof (rule dedup_find_cong)
      show "stream (streams l' ! j) = st' \<longleftrightarrow> stream (streams l ! j) = st'" if "j < length (streams l)" for j
        using that \<open>st' \<noteq> 0\<close> \<open>st' \<noteq> st\<close> new(3) by (cases "j = i") (simp_all add: l')
    qed (simp add: l')
    have ap: "ledger_applied l' st' = ledger_applied l st'" if "st' \<noteq> 0" for st'
    proof (cases "st' = st")
      case True
      then show ?thesis using f new(1,2) by (simp add: ledger_applied_def l' slot_applied_def)
    next
      case False
      have "j \<noteq> i" if "dedup_find l st' = Some j" for j using dedup_find_SomeD [OF that] new(3) \<open>st' \<noteq> 0\<close> by auto
      then show ?thesis using g [OF that False] by (auto simp: ledger_applied_def l' split: option.splits)
    qed
    have split: "streams l = take i (streams l) @ streams l ! i # drop (Suc i) (streams l)"
      using new(2) by (rule id_take_nth_drop)
    have upd: "(streams l)[i := ?s] = take i (streams l) @ ?s # drop (Suc i) (streams l)"
      using new(2) by (rule upd_conv_take_nth_drop)
    define A where "A = filter (\<lambda>x. x \<noteq> 0) (map stream (take i (streams l)))"
    define B where "B = filter (\<lambda>x. x \<noteq> 0) (map stream (drop (Suc i) (streams l)))"
    have old: "filter (\<lambda>x. x \<noteq> 0) (map stream (streams l)) = A @ B"
      by (subst split) (simp add: new(3) A_def B_def)
    have "filter (\<lambda>x. x \<noteq> 0) (map stream (streams l')) = A @ st # B"
      unfolding l' upd using assms(2) by (simp add: A_def B_def)
    moreover have "st \<notin> stream ` set (streams l)" using no by (metis imageE in_set_conv_nth)
    then have "st \<notin> set (A @ B)" unfolding old [symmetric] by auto
    moreover have "slot_ok (max_gap l) ?s"
      using assms(1) new(2) by (auto simp: ledger_ok_def list_all_length slot_ok_def dest!: spec [of _ i])
    ultimately have "ledger_ok l'"
      using assms(1) old by (auto simp: ledger_ok_def list_all_iff l' dest: set_update_subset_insert [THEN subsetD])
    then show ?thesis using f ap l' by simp
  qed
  then show "dedup_find l' st = Some i" "ledger_ok l'" "max_gap l' = max_gap l" "length (streams l') = length (streams l)"
    "st' \<noteq> 0 \<Longrightarrow> ledger_applied l' st' = ledger_applied l st'" by blast+
qed

lemma find_or_add_none: "find_or_add l st = (None, l') \<Longrightarrow> l' = l \<and> dedup_find l st = None"
  by (auto simp: find_or_add_def split: option.splits)

lemma ledger_slot_ok: "ledger_ok l \<Longrightarrow> dedup_find l st = Some i \<Longrightarrow> slot_ok (max_gap l) (streams l ! i)"
  by (auto simp: ledger_ok_def list_all_length dest: dedup_find_SomeD)

lemma seen_exact:
  assumes "ledger_ok l" and "q \<noteq> 0"
  shows "tsdb_dedup_seen l st q \<longleftrightarrow> q \<in> ledger_applied l st"
  using assms slot_seen [OF ledger_slot_ok [OF assms(1)], of st _ q]
  by (auto simp: tsdb_dedup_seen_def ledger_applied_def split: option.splits)

lemma record_correct:
  assumes l: "ledger_ok l" and st: "st \<noteq> 0" and q: "q \<noteq> 0" and r: "tsdb_dedup_record al l st q = (rc, l')"
  shows "ledger_ok l'" "max_gap l' = max_gap l" "length (streams l') = length (streams l)"
    and "rc = Inl TSDB_ERR_EXISTS \<longleftrightarrow> q \<in> ledger_applied l st"
    and "st' \<noteq> 0 \<Longrightarrow> ledger_applied l' st' = (if rc = Inr () \<and> st' = st then insert q (ledger_applied l st) else ledger_applied l st')"
    and "rc \<in> {Inr (), Inl TSDB_ERR_EXISTS, Inl TSDB_ERR_FULL, Inl TSDB_ERR_NOMEM}"
proof -
  obtain oi l1 where fa: "find_or_add l st = (oi, l1)" by (cases "find_or_add l st")
  have "ledger_ok l' \<and> max_gap l' = max_gap l \<and> length (streams l') = length (streams l)
      \<and> (rc = Inl TSDB_ERR_EXISTS \<longleftrightarrow> q \<in> ledger_applied l st)
      \<and> (\<forall>st'. st' \<noteq> 0 \<longrightarrow> ledger_applied l' st' = (if rc = Inr () \<and> st' = st then insert q (ledger_applied l st) else ledger_applied l st'))
      \<and> rc \<in> {Inr (), Inl TSDB_ERR_EXISTS, Inl TSDB_ERR_FULL, Inl TSDB_ERR_NOMEM}"
  proof (cases oi)
    case None
    then have "l1 = l" "dedup_find l st = None" using find_or_add_none fa by auto
    then show ?thesis using r q fa None l by (auto simp: tsdb_dedup_record_def ledger_applied_def)
  next
    case (Some i)
    note f = find_or_add_found [OF l st fa [unfolded Some]]
    obtain s where rs: "record_slot al (max_gap l) (streams l1 ! i) q = (rc, s)" and l': "l' = put_slot l1 i s"
      using r q fa Some by (auto simp: tsdb_dedup_record_def split: prod.splits)
    have so: "slot_ok (max_gap l) (streams l1 ! i)" using ledger_slot_ok [OF f(2,1)] f(3) by simp
    note rc = record_slot_correct [OF so q rs]
    have i: "i < length (streams l1)" "stream (streams l1 ! i) = st" using dedup_find_SomeD [OF f(1)] by auto
    have ap: "ledger_applied l' st' = (if st' = st then slot_applied s else ledger_applied l st')" if "st' \<noteq> 0" for st'
      unfolding l' using put_slot_applied [OF f(1), of s] rc(2) i(2) f(5) that by simp
    have cur: "slot_applied (streams l1 ! i) = ledger_applied l st"
      using f(5) [OF st] f(1) by (simp add: ledger_applied_def)
    have "ledger_ok l'" unfolding l' using put_slot_ok [OF f(2) i(1)] rc(1,2) f(3) by simp
    then show ?thesis using ap rc cur f(3,4) l' by (cases "rc = Inr ()") auto
  qed
  then show "ledger_ok l'" "max_gap l' = max_gap l" "length (streams l') = length (streams l)"
    "rc = Inl TSDB_ERR_EXISTS \<longleftrightarrow> q \<in> ledger_applied l st"
    "st' \<noteq> 0 \<Longrightarrow> ledger_applied l' st' = (if rc = Inr () \<and> st' = st then insert q (ledger_applied l st) else ledger_applied l st')"
    "rc \<in> {Inr (), Inl TSDB_ERR_EXISTS, Inl TSDB_ERR_FULL, Inl TSDB_ERR_NOMEM}"
    by blast+
qed

lemma set_frontier_correct:
  assumes l: "ledger_ok l" and st: "st \<noteq> 0" and r: "tsdb_dedup_set_frontier l st fr = (rc, l')"
  shows "ledger_ok l'" "max_gap l' = max_gap l" "length (streams l') = length (streams l)"
    and "st' \<noteq> 0 \<Longrightarrow> ledger_applied l' st' = (if rc = Inr () \<and> st' = st then ledger_applied l st \<union> {0<..fr} else ledger_applied l st')"
    and "rc \<noteq> Inr () \<Longrightarrow> dedup_find l st = None \<and> l' = l"
proof -
  obtain oi l1 where fa: "find_or_add l st = (oi, l1)" by (cases "find_or_add l st")
  have "ledger_ok l' \<and> max_gap l' = max_gap l \<and> length (streams l') = length (streams l)
      \<and> (\<forall>st'. st' \<noteq> 0 \<longrightarrow> ledger_applied l' st' = (if rc = Inr () \<and> st' = st then ledger_applied l st \<union> {0<..fr} else ledger_applied l st'))
      \<and> (rc \<noteq> Inr () \<longrightarrow> dedup_find l st = None \<and> l' = l)"
  proof (cases oi)
    case None
    then show ?thesis using r fa find_or_add_none [of l st l1] l by (auto simp: tsdb_dedup_set_frontier_def)
  next
    case (Some i)
    note f = find_or_add_found [OF l st fa [unfolded Some]]
    let ?s = "set_slot_frontier (streams l1 ! i) fr"
    have l': "rc = Inr ()" "l' = put_slot l1 i ?s" using r fa Some by (auto simp: tsdb_dedup_set_frontier_def)
    have so: "slot_ok (max_gap l) (streams l1 ! i)" using ledger_slot_ok [OF f(2,1)] f(3) by simp
    note sf = set_slot_frontier_correct [OF so, of fr]
    have i: "i < length (streams l1)" "stream (streams l1 ! i) = st" using dedup_find_SomeD [OF f(1)] by auto
    have ap: "ledger_applied l' st' = (if st' = st then slot_applied ?s else ledger_applied l st')" if "st' \<noteq> 0" for st'
      unfolding l' using put_slot_applied [OF f(1), of ?s] sf(2) i(2) f(5) that by simp
    have cur: "slot_applied (streams l1 ! i) = ledger_applied l st"
      using f(5) [OF st] f(1) by (simp add: ledger_applied_def)
    have "ledger_ok l'" unfolding l' using put_slot_ok [OF f(2) i(1)] sf(1,2) f(3) by simp
    then show ?thesis using ap sf(3) cur f(3,4) l' by auto
  qed
  then show "ledger_ok l'" "max_gap l' = max_gap l" "length (streams l') = length (streams l)"
    "st' \<noteq> 0 \<Longrightarrow> ledger_applied l' st' = (if rc = Inr () \<and> st' = st then ledger_applied l st \<union> {0<..fr} else ledger_applied l st')"
    "rc \<noteq> Inr () \<Longrightarrow> dedup_find l st = None \<and> l' = l"
    by blast+
qed

text \<open>Stream 0 is looked up in a free slot, so its operations keep the invariant as well.\<close>

lemma find_or_add_zero: "find_or_add l 0 = (dedup_find l 0, l)"
  by (auto simp: find_or_add_def dedup_find_def split: option.splits)

lemma record_keeps:
  assumes "ledger_ok l" and "tsdb_dedup_record al l st q = (rc, l')"
  shows "ledger_ok l' \<and> max_gap l' = max_gap l \<and> length (streams l') = length (streams l)"
proof -
  consider "q = 0" | "q \<noteq> 0" "st \<noteq> 0" | (z) "q \<noteq> 0" "st = 0" by blast
  then show ?thesis
  proof cases
    case z
    show ?thesis
    proof (cases "dedup_find l 0")
      case (Some i)
      obtain rc s where rs: "record_slot al (max_gap l) (streams l ! i) q = (rc, s)" by (cases "record_slot al (max_gap l) (streams l ! i) q")
      note rc = record_slot_correct [OF ledger_slot_ok [OF assms(1) Some] z(1) rs]
      have "l' = put_slot l i s" using assms(2) z Some rs by (simp add: tsdb_dedup_record_def find_or_add_zero)
      then show ?thesis using put_slot_ok [OF assms(1), of i s] dedup_find_SomeD [OF Some] rc(1,2) by simp
    qed (use assms z in \<open>simp add: tsdb_dedup_record_def find_or_add_zero\<close>)
  qed (use assms record_correct(1-3) in \<open>auto simp: tsdb_dedup_record_def\<close>)
qed

lemma set_frontier_keeps:
  assumes "ledger_ok l" and "tsdb_dedup_set_frontier l st fr = (rc, l')"
  shows "ledger_ok l' \<and> max_gap l' = max_gap l \<and> length (streams l') = length (streams l)"
proof (cases "st = 0")
  case True
  show ?thesis
  proof (cases "dedup_find l 0")
    case (Some i)
    note sf = set_slot_frontier_correct [OF ledger_slot_ok [OF assms(1) Some], of fr]
    have "l' = put_slot l i (set_slot_frontier (streams l ! i) fr)"
      using assms(2) True Some by (simp add: tsdb_dedup_set_frontier_def find_or_add_zero)
    then show ?thesis using put_slot_ok [OF assms(1), of i "set_slot_frontier (streams l ! i) fr"] dedup_find_SomeD [OF Some] sf(1,2) by simp
  qed (use assms True in \<open>simp add: tsdb_dedup_set_frontier_def find_or_add_zero\<close>)
next
  case False
  then show ?thesis using set_frontier_correct(1-3) [OF assms(1) False assms(2)] by simp
qed

lemma restore_loop_keeps:
  "ledger_ok l \<Longrightarrow> ledger_ok (restore_loop n recs l) \<and> max_gap (restore_loop n recs l) = max_gap l
     \<and> length (streams (restore_loop n recs l)) = length (streams l)"
proof (induction n arbitrary: recs l)
  case (Suc n)
  let ?l = "snd (tsdb_dedup_set_frontier l (le_acc 0 0 (take 8 recs)) (le_acc 0 0 (take 8 (drop 8 recs))))"
  have "ledger_ok ?l \<and> max_gap ?l = max_gap l \<and> length (streams ?l) = length (streams l)"
    using set_frontier_keeps [OF Suc.prems] by (metis prod.collapse)
  then show ?case using Suc.IH [of ?l "drop 16 recs"] by simp
qed simp

lemma load_keeps:
  "ledger_ok l \<Longrightarrow> tsdb_dedup_checkpoint_load e l file = (rc, l')
     \<Longrightarrow> ledger_ok l' \<and> max_gap l' = max_gap l \<and> length (streams l') = length (streams l)"
  using restore_loop_keeps by (auto simp: tsdb_dedup_checkpoint_load_def Let_def split: option.splits if_splits)

lemma open_ok: "tsdb_dedup_open ok ms mg = Inr l \<Longrightarrow> ledger_ok l \<and> max_gap l = mg \<and> length (streams l) = ms"
  by (auto simp: tsdb_dedup_open_def ledger_ok_def list_all_iff slot_ok_def split: if_splits)

lemma open_empty: "tsdb_dedup_open ok ms mg = Inr l \<Longrightarrow> st \<noteq> 0 \<Longrightarrow> ledger_applied l st = {}"
  by (auto simp: tsdb_dedup_open_def ledger_applied_def dedup_find_def find_Some_iff split: if_splits option.splits)

inductive ledger_reach :: "nat \<Rightarrow> nat \<Rightarrow> tsdb_dedup_ledger \<Rightarrow> bool" for ms mg where
  opened: "tsdb_dedup_open ok ms mg = Inr l \<Longrightarrow> ledger_reach ms mg l"
| recorded: "ledger_reach ms mg l \<Longrightarrow> tsdb_dedup_record al l st q = (rc, l') \<Longrightarrow> ledger_reach ms mg l'"
| frontier_set: "ledger_reach ms mg l \<Longrightarrow> tsdb_dedup_set_frontier l st fr = (rc, l') \<Longrightarrow> ledger_reach ms mg l'"
| base_advanced: "ledger_reach ms mg l \<Longrightarrow> tsdb_dedup_advance_base l st base = (rc, l') \<Longrightarrow> ledger_reach ms mg l'"
| loaded: "ledger_reach ms mg l \<Longrightarrow> tsdb_dedup_checkpoint_load e l file = (rc, l') \<Longrightarrow> ledger_reach ms mg l'"

lemma ledger_reach_ok: "ledger_reach ms mg l \<Longrightarrow> ledger_ok l \<and> max_gap l = mg \<and> length (streams l) = ms"
proof (induction rule: ledger_reach.induct)
  case (base_advanced l st base rc l')
  then show ?case using set_frontier_keeps by (auto simp: tsdb_dedup_advance_base_def split: if_splits)
qed (use open_ok record_keeps set_frontier_keeps load_keeps in \<open>fast+\<close>)

section \<open>Checkpoints restore the frontiers\<close>

lemma find_or_add_room:
  assumes "ledger_ok l" and "nstreams l < length (streams l)"
  obtains i l' where "find_or_add l st = (Some i, l')"
proof -
  have "\<exists>s \<in> set (streams l). stream s = 0"
  proof (rule ccontr)
    assume "\<not> ?thesis"
    then have "filter (\<lambda>x. x \<noteq> 0) (map stream (streams l)) = map stream (streams l)" by (auto simp: filter_id_conv)
    then show False using assms by (simp add: ledger_ok_def)
  qed
  then have "List.find (\<lambda>i. stream (streams l ! i) = 0) [0..<length (streams l)] \<noteq> None"
    by (auto simp: find_None_iff in_set_conv_nth)
  then have "fst (find_or_add l st) \<noteq> None" by (auto simp: find_or_add_def split: option.splits)
  then show ?thesis using that by (cases "find_or_add l st") auto
qed

lemma find_or_add_nstreams: "find_or_add l st = (oi, l') \<Longrightarrow> nstreams l' \<le> nstreams l + 1"
  by (auto simp: find_or_add_def split: option.splits)

definition restore_all :: "stream_t list \<Rightarrow> tsdb_dedup_ledger \<Rightarrow> tsdb_dedup_ledger" where
  "restore_all = fold (\<lambda>s l. snd (tsdb_dedup_set_frontier l (stream s) (frontier s)))"

lemma restore_loop_records:
  "restore_loop (length ss) (concat (map (\<lambda>s. le_bytes 8 (stream s) @ le_bytes 8 (frontier s)) ss) @ rest) l = restore_all ss l"
  by (induction ss arbitrary: l) (simp_all add: restore_all_def)

lemma restore_all_applied:
  assumes "ledger_ok l" and "\<forall>s \<in> set ss. stream s \<noteq> 0" and "nstreams l + length ss \<le> length (streams l)" and "st \<noteq> 0"
  shows "ledger_applied (restore_all ss l) st = ledger_applied l st \<union> (\<Union>s \<in> {s \<in> set ss. stream s = st}. {0<..frontier s})"
  using assms(1-3)
proof (induction ss arbitrary: l)
  case (Cons s ss)
  obtain i l1 where fa: "find_or_add l (stream s) = (Some i, l1)"
    using find_or_add_room [OF Cons.prems(1)] Cons.prems(3) by auto
  obtain l' where sf: "tsdb_dedup_set_frontier l (stream s) (frontier s) = (Inr (), l')"
    and n: "nstreams l' \<le> nstreams l + 1"
    using fa find_or_add_nstreams [OF fa] by (auto simp: tsdb_dedup_set_frontier_def)
  have s0: "stream s \<noteq> 0" using Cons.prems(2) by simp
  note c = set_frontier_correct [OF Cons.prems(1) s0 sf]
  have "ledger_applied (restore_all ss l') st = ledger_applied l' st \<union> (\<Union>s \<in> {s \<in> set ss. stream s = st}. {0<..frontier s})"
    using Cons.prems n c(1,3) by (intro Cons.IH) auto
  moreover have "ledger_applied l' st = ledger_applied l st \<union> (if stream s = st then {0<..frontier s} else {})"
    using c(4) [OF assms(4)] by auto
  moreover have "restore_all (s # ss) l = restore_all ss l'" by (simp add: restore_all_def sf)
  ultimately show ?case by auto
qed (simp add: restore_all_def)

lemma length_ckpt_records:
  "length (ckpt_records ss) = 16 * length (filter (\<lambda>s. stream s \<noteq> 0 \<and> frontier s \<noteq> 0) ss)"
  unfolding ckpt_records_def by (induction ss) auto

lemma distinct_filter_nth:
  "distinct (filter P xs) \<Longrightarrow> i < length xs \<Longrightarrow> j < length xs \<Longrightarrow> xs ! i = xs ! j \<Longrightarrow> P (xs ! i) \<Longrightarrow> i = j"
proof (induction xs arbitrary: i j)
  case (Cons x xs)
  have m: "xs ! k \<in> set (filter P xs)" if "k < length xs" "P (xs ! k)" for k using that by simp
  show ?case
  proof (cases i)
    case 0
    show ?thesis
    proof (cases j)
      case (Suc k)
      then show ?thesis using Cons.prems m [of k] 0 by auto
    qed (simp add: 0)
  next
    case (Suc k)
    show ?thesis
    proof (cases j)
      case 0
      then show ?thesis using Cons.prems m [of k] Suc by auto
    next
      case (Suc k')
      then show ?thesis using Cons.prems Cons.IH [of k k'] \<open>i = Suc k\<close> by (auto split: if_splits)
    qed
  qed
qed simp

lemma saved_frontiers:
  assumes "ledger_ok l" and "st \<noteq> 0"
  shows "(\<Union>s \<in> {s \<in> set (filter (\<lambda>s. stream s \<noteq> 0 \<and> frontier s \<noteq> 0) (streams l)). stream s = st}. {0<..frontier s})
    = {0<..tsdb_dedup_frontier l st}"
proof (cases "dedup_find l st")
  case None
  then have "stream s \<noteq> st" if "s \<in> set (streams l)" for s using that dedup_find_NoneD by (metis in_set_conv_nth)
  then show ?thesis using None by (auto simp: tsdb_dedup_frontier_def)
next
  case (Some i)
  note f = dedup_find_SomeD [OF Some]
  have "s = streams l ! i" if s: "s \<in> set (streams l)" "stream s = st" for s
  proof -
    obtain j where j: "j < length (streams l)" "s = streams l ! j" using s(1) by (metis in_set_conv_nth)
    have "i = j"
    proof (rule ccontr)
      assume "i \<noteq> j"
      moreover have "map stream (streams l) ! i = st" "map stream (streams l) ! j = st" using f j s(2) by auto
      ultimately show False using distinct_filter_nth [of "\<lambda>x. x \<noteq> 0" "map stream (streams l)" i j] f j(1) assms
        by (simp add: ledger_ok_def)
    qed
    then show ?thesis using j by simp
  qed
  then have "{s \<in> set (filter (\<lambda>s. stream s \<noteq> 0 \<and> frontier s \<noteq> 0) (streams l)). stream s = st}
      = (if frontier (streams l ! i) = 0 then {} else {streams l ! i})"
    using f assms(2) by auto
  then show ?thesis using Some by (auto simp: tsdb_dedup_frontier_def)
qed

lemma load_save:
  assumes l: "ledger_ok l" "length (streams l) < 2 ^ 32"
    and e: "ld_seek e" "ld_alloc e" "ld_read e"
  shows "tsdb_dedup_checkpoint_load e l0 (Some (ckpt_body l @ le_bytes 4 (tsdb_crc32c (ckpt_body l))))
    = (Inr (), restore_all (filter (\<lambda>s. stream s \<noteq> 0 \<and> frontier s \<noteq> 0) (streams l)) l0)"
proof -
  define ss where "ss = filter (\<lambda>s. stream s \<noteq> 0 \<and> frontier s \<noteq> 0) (streams l)"
  define recs where "recs = concat (map (\<lambda>s. le_bytes 8 (stream s) @ le_bytes 8 (frontier s)) ss)"
  define crc where "crc = le_bytes 4 (tsdb_crc32c (ckpt_body l))"
  have body: "ckpt_body l = le_bytes 4 DDP_MAGIC @ le_bytes 4 DDP_VERSION @ le_bytes 4 (of_nat (length ss) :: u32) @ le_bytes 4 (0 :: u32) @ recs"
    by (simp add: ckpt_body_def ckpt_records_def ss_def recs_def)
  have lr: "length recs = 16 * length ss"
    using length_ckpt_records [of "streams l"] by (simp add: ckpt_records_def recs_def ss_def)
  have lb: "length (ckpt_body l) = 16 + 16 * length ss" using lr by (simp add: body)
  have "length ss \<le> length (streams l)" by (simp add: ss_def)
  then have n: "unat (of_nat (length ss) :: u32) = length ss" using l(2) by (simp add: unat_of_nat)
  let ?buf = "ckpt_body l @ crc"
  have parts: "take 4 ?buf = le_bytes 4 DDP_MAGIC" "take 4 (drop 4 ?buf) = le_bytes 4 DDP_VERSION"
    "take 4 (drop 8 ?buf) = le_bytes 4 (of_nat (length ss) :: u32)" "drop 16 ?buf = recs @ crc"
    by (simp_all add: body)
  have tail: "length ?buf - 4 = 16 + 16 * length ss" "take (16 + 16 * length ss) ?buf = ckpt_body l" "take 4 (drop (16 + 16 * length ss) ?buf) = crc"
    using lb by (simp_all add: crc_def)
  have "tsdb_dedup_checkpoint_load e l0 (Some ?buf) = (Inr (), restore_loop (length ss) (recs @ crc) l0)"
    using e n unfolding tsdb_dedup_checkpoint_load_def option.case Let_def DDP_HDR_def tail parts
    by (simp add: lb crc_def)
  then show ?thesis unfolding recs_def restore_loop_records by (simp add: ss_def crc_def)
qed

lemma load_burst:
  assumes "length w = length v" "length w \<le> 4" "v \<noteq> w"
    and "length (pre @ w @ post) \<ge> 16" and "ld_seek e" "ld_alloc e" "ld_read e"
  shows "tsdb_dedup_checkpoint_load e l (Some ((pre @ v @ post) @ le_bytes 4 (tsdb_crc32c (pre @ w @ post)))) = (Inl TSDB_ERR_CORRUPT, l)"
proof -
  define b where "b = pre @ v @ post"
  have n: "tsdb_crc32c b \<noteq> tsdb_crc32c (pre @ w @ post)" using crc32c_burst [of pre v post w] assms(1-3) by (auto simp: b_def)
  have l: "length b \<ge> 16" using assms(1,4) by (simp add: b_def)
  have "tsdb_dedup_checkpoint_load e l (Some (b @ le_bytes 4 (tsdb_crc32c (pre @ w @ post)))) = (Inl TSDB_ERR_CORRUPT, l)"
    using n l assms(5-7) by (simp add: tsdb_dedup_checkpoint_load_def Let_def DDP_HDR_def)
  then show ?thesis by (simp add: b_def)
qed

lemma length_saved:
  "length (filter (\<lambda>s. stream s \<noteq> 0 \<and> frontier s \<noteq> 0) ss) \<le> length (filter (\<lambda>x. x \<noteq> 0) (map stream ss))"
  by (induction ss) auto

section \<open>Properties\<close>

text \<open>C29: every ledger reached from \<^verbatim>\<open>tsdb_dedup_open\<close> by recording, moving frontiers, advancing bases and loading
  checkpoints, with failing allocations and damaged files included, keeps its invariant: in every slot the
  gaps are strictly ascending, above the frontier and not adjacent to it, no more than \<^verbatim>\<open>max_gap\<close> and within
  the allocated array; no stream has two slots; the slot count is right; the array keeps its size.\<close>

theorem ledger_invariant:
  assumes "ledger_reach ms mg l"
  shows "length (streams l) = ms \<and> max_gap l = mg \<and> tsdb_dedup_gap_count l st \<le> mg
    \<and> list_all (\<lambda>s. sorted_wrt (<) (gaps s) \<and> list_all (\<lambda>g. frontier s < g \<and> g \<noteq> frontier s + 1) (gaps s)
         \<and> length (gaps s) \<le> gcap s \<and> gcap s \<le> mg) (streams l)
    \<and> distinct (filter (\<lambda>x. x \<noteq> 0) (map stream (streams l)))
    \<and> nstreams l = length (filter (\<lambda>x. x \<noteq> 0) (map stream (streams l)))"
proof -
  note ok = ledger_reach_ok [OF assms]
  have "tsdb_dedup_gap_count l st \<le> mg"
    using ok ledger_slot_ok [of l st] by (fastforce simp: tsdb_dedup_gap_count_def slot_ok_def split: option.splits)
  moreover have m: "max_gap l = mg" using ok by blast
  ultimately show ?thesis using ok unfolding ledger_ok_def slot_ok_def m by blast
qed

text \<open>A ledger of two slots into which 5 and then 1 of stream 7 were recorded.\<close>

theorem ledger_invariant_witness:
  "ledger_reach 2 3 (snd (tsdb_dedup_record True (snd (tsdb_dedup_record True
     \<lparr>streams = replicate 2 \<lparr>stream = 0, frontier = 0, gaps = [], gcap = 0\<rparr>, nstreams = 0, max_gap = 3\<rparr> 7 5)) 7 1))
   \<and> tsdb_dedup_gap_count (snd (tsdb_dedup_record True (snd (tsdb_dedup_record True
     \<lparr>streams = replicate 2 \<lparr>stream = 0, frontier = 0, gaps = [], gcap = 0\<rparr>, nstreams = 0, max_gap = 3\<rparr> 7 5)) 7 1)) 7 \<le> 3"
proof -
  let ?l = "\<lparr>streams = replicate 2 \<lparr>stream = 0, frontier = 0, gaps = [], gcap = 0\<rparr>, nstreams = 0, max_gap = 3\<rparr>"
  have "ledger_reach 2 3 ?l" by (rule opened [of True]) (simp add: tsdb_dedup_open_def)
  then have "ledger_reach 2 3 (snd (tsdb_dedup_record True (snd (tsdb_dedup_record True ?l 7 5)) 7 1))"
    by (metis recorded prod.collapse)
  then show ?thesis using ledger_invariant by blast
qed

text \<open>C28: on a ledger that satisfies the invariant the operations are those of a set of applied numbers per
  stream: \<^verbatim>\<open>seen\<close> is membership, \<^verbatim>\<open>record\<close> succeeds only on a new number and then adds exactly that number to
  exactly that stream, answers \<^verbatim>\<open>TSDB_ERR_EXISTS\<close> exactly on the members and changes no set when it refuses
  for another reason (window full, no slot, no memory), and a new frontier adds the numbers up to it.\<close>

theorem ledger_refines_sets:
  assumes "ledger_ok l" and "st \<noteq> 0" and "q \<noteq> 0" and "st' \<noteq> 0"
    and "tsdb_dedup_record al l st q = (rc, l1)" and "tsdb_dedup_set_frontier l st fr = (rc', l2)"
  shows "(tsdb_dedup_seen l st q \<longleftrightarrow> q \<in> ledger_applied l st)
    \<and> (rc = Inl TSDB_ERR_EXISTS \<longleftrightarrow> q \<in> ledger_applied l st)
    \<and> ledger_applied l1 st' = (if rc = Inr () \<and> st' = st then insert q (ledger_applied l st) else ledger_applied l st')
    \<and> ledger_applied l2 st' = (if rc' = Inr () \<and> st' = st then ledger_applied l st \<union> {0<..fr} else ledger_applied l st')
    \<and> ledger_ok l1 \<and> ledger_ok l2"
  using seen_exact [OF assms(1,3)] record_correct [OF assms(1-3,5)] set_frontier_correct [OF assms(1,2,6)] assms(4) by simp

theorem ledger_refines_sets_witness:
  "tsdb_dedup_seen \<lparr>streams = [\<lparr>stream = 7, frontier = 3, gaps = [5, 9], gcap = 4\<rparr>], nstreams = 1, max_gap = 4\<rparr> 7 9
    \<longleftrightarrow> 9 \<in> ledger_applied \<lparr>streams = [\<lparr>stream = 7, frontier = 3, gaps = [5, 9], gcap = 4\<rparr>], nstreams = 1, max_gap = 4\<rparr> 7"
proof -
  let ?l = "\<lparr>streams = [\<lparr>stream = 7, frontier = 3, gaps = [5, 9], gcap = 4\<rparr>], nstreams = 1, max_gap = 4\<rparr>"
  have "ledger_ok ?l" by (simp add: ledger_ok_def slot_ok_def)
  then show ?thesis
    using ledger_refines_sets [of ?l 7 9 7 True "fst (tsdb_dedup_record True ?l 7 9)" "snd (tsdb_dedup_record True ?l 7 9)" 12
      "fst (tsdb_dedup_set_frontier ?l 7 12)" "snd (tsdb_dedup_set_frontier ?l 7 12)"] by simp
qed

text \<open>C32: the bound on the window is reached only by a stream that holds \<^verbatim>\<open>max_gap\<close> out-of-order numbers, and the
  next number in order is never refused for lack of room or memory once the stream has a slot, so a
  full window always drains.\<close>

theorem full_window_drains:
  assumes "ledger_ok l" and "st \<noteq> 0" and "dedup_find l st = Some i" and "tsdb_dedup_frontier l st \<noteq> - 1" and "q \<noteq> 0"
  shows "fst (tsdb_dedup_record al l st (tsdb_dedup_frontier l st + 1)) = Inr ()
    \<and> (fst (tsdb_dedup_record al l st q) = Inl TSDB_ERR_FULL \<longrightarrow> tsdb_dedup_gap_count l st = max_gap l)"
proof
  let ?s = "streams l ! i" and ?n = "tsdb_dedup_frontier l st + 1"
  have fr: "tsdb_dedup_frontier l st = frontier ?s" using assms(3) by (simp add: tsdb_dedup_frontier_def)
  have so: "slot_ok (max_gap l) ?s" using assms(1,3) by (rule ledger_slot_ok)
  have rec: "tsdb_dedup_record al l st q = (case record_slot al (max_gap l) ?s q of (rc, s) \<Rightarrow> (rc, put_slot l i s))" if "q \<noteq> 0" for q
    using assms(3) that by (simp add: tsdb_dedup_record_def find_or_add_def)
  have lt: "frontier ?s < ?n" using assms(4) fr by (metis inc_less_eq_triv_imp linorder_not_le)
  then have n0: "?n \<noteq> 0" by auto
  have "?n \<notin> slot_applied ?s" using lt so by (auto simp: slot_applied_def slot_ok_def list_all_iff fr)
  then show "fst (tsdb_dedup_record al l st ?n) = Inr ()"
    unfolding rec [OF n0] using record_slot_correct(5,6,8) [OF so n0] fr by (cases "record_slot al (max_gap l) ?s ?n") auto
  show "fst (tsdb_dedup_record al l st q) = Inl TSDB_ERR_FULL \<longrightarrow> tsdb_dedup_gap_count l st = max_gap l"
    using record_slot_correct(7) [OF so assms(5)] assms(3) rec [OF assms(5)]
    by (cases "record_slot al (max_gap l) ?s q") (auto simp: tsdb_dedup_gap_count_def)
qed

theorem full_window_drains_witness:
  "fst (tsdb_dedup_record False \<lparr>streams = [\<lparr>stream = 7, frontier = 3, gaps = [5, 9], gcap = 2\<rparr>], nstreams = 1, max_gap = 2\<rparr> 7 4) = Inr ()"
proof -
  let ?l = "\<lparr>streams = [\<lparr>stream = 7, frontier = 3, gaps = [5, 9], gcap = 2\<rparr>], nstreams = 1, max_gap = 2\<rparr>"
  have "ledger_ok ?l" by (simp add: ledger_ok_def slot_ok_def)
  moreover have "dedup_find ?l 7 = Some 0" by (simp add: dedup_find_def)
  ultimately show ?thesis using full_window_drains [of ?l 7 0 11 False] by (simp add: tsdb_dedup_frontier_def)
qed

text \<open>C30: a saved checkpoint loaded into any ledger with slots left for its streams restores exactly the saved
  frontiers: afterwards a stream has applied what it had before and every number up to its saved
  frontier. A save that fails at any step leaves the previous file as it was.\<close>

theorem checkpoint_round_trip:
  assumes "ledger_ok l" and "length (streams l) < 2 ^ 32" and "ledger_ok l0"
    and "nstreams l0 + nstreams l \<le> length (streams l0)" and "st \<noteq> 0"
    and "tsdb_dedup_checkpoint_save e l old = (rc, file)"
    and "tsdb_dedup_checkpoint_load \<lparr>ld_seek = True, ld_alloc = True, ld_read = True\<rparr> l0 file = (rc', l1)"
  shows "if rc = Inr () then rc' = Inr () \<and> ledger_applied l1 st = ledger_applied l0 st \<union> {0<..tsdb_dedup_frontier l st}
    else file = old"
proof (cases "rc = Inr ()")
  case True
  let ?ss = "filter (\<lambda>s. stream s \<noteq> 0 \<and> frontier s \<noteq> 0) (streams l)"
  have f: "file = Some (ckpt_body l @ le_bytes 4 (tsdb_crc32c (ckpt_body l)))"
    using assms(6) True by (auto simp: tsdb_dedup_checkpoint_save_def Let_def split: if_splits)
  have "l1 = restore_all ?ss l0" "rc' = Inr ()"
    using load_save [OF assms(1,2), of "\<lparr>ld_seek = True, ld_alloc = True, ld_read = True\<rparr>" l0] assms(7) f by auto
  moreover have "length ?ss \<le> nstreams l"
    using assms(1) length_saved [of "streams l"] by (simp add: ledger_ok_def)
  ultimately show ?thesis
    using restore_all_applied [OF assms(3) _ _ assms(5), of ?ss] assms(4) saved_frontiers [OF assms(1,5)] True by auto
next
  case False
  then show ?thesis using assms(6) by (auto simp: tsdb_dedup_checkpoint_save_def Let_def split: if_splits)
qed

theorem checkpoint_round_trip_witness:
  "\<exists>l1. tsdb_dedup_checkpoint_load \<lparr>ld_seek = True, ld_alloc = True, ld_read = True\<rparr>
       \<lparr>streams = [\<lparr>stream = 0, frontier = 0, gaps = [], gcap = 0\<rparr>], nstreams = 0, max_gap = 4\<rparr>
       (snd (tsdb_dedup_checkpoint_save \<lparr>sv_alloc = True, sv_write = True, sv_rename = True\<rparr>
          \<lparr>streams = [\<lparr>stream = 7, frontier = 3, gaps = [5, 9], gcap = 4\<rparr>], nstreams = 1, max_gap = 4\<rparr> None)) = (Inr (), l1)
     \<and> ledger_applied l1 7 = {0<..3}"
proof -
  let ?l = "\<lparr>streams = [\<lparr>stream = 7, frontier = 3, gaps = [5, 9], gcap = 4\<rparr>], nstreams = 1, max_gap = 4\<rparr>"
  let ?fresh = "\<lparr>streams = [\<lparr>stream = 0, frontier = 0, gaps = [], gcap = 0\<rparr>], nstreams = 0, max_gap = 4\<rparr>"
  let ?e = "\<lparr>sv_alloc = True, sv_write = True, sv_rename = True\<rparr>"
  let ?f = "\<lparr>ld_seek = True, ld_alloc = True, ld_read = True\<rparr>"
  have ok: "ledger_ok ?l" "ledger_ok ?fresh" by (simp_all add: ledger_ok_def slot_ok_def)
  obtain rc' l1 where ld: "tsdb_dedup_checkpoint_load ?f ?fresh (snd (tsdb_dedup_checkpoint_save ?e ?l None)) = (rc', l1)"
    by (cases "tsdb_dedup_checkpoint_load ?f ?fresh (snd (tsdb_dedup_checkpoint_save ?e ?l None))")
  have sv: "tsdb_dedup_checkpoint_save ?e ?l None = (Inr (), snd (tsdb_dedup_checkpoint_save ?e ?l None))"
    by (simp add: tsdb_dedup_checkpoint_save_def Let_def)
  have "dedup_find ?fresh 7 = None" "dedup_find ?l 7 = Some 0" by (simp_all add: dedup_find_def)
  then have ap: "ledger_applied ?fresh 7 = {}" "tsdb_dedup_frontier ?l 7 = 3"
    by (simp_all add: ledger_applied_def tsdb_dedup_frontier_def)
  have "if Inr () = (Inr () :: tsdb_err + unit) then rc' = Inr () \<and> ledger_applied l1 7 = ledger_applied ?fresh 7 \<union> {0<..tsdb_dedup_frontier ?l 7}
      else snd (tsdb_dedup_checkpoint_save ?e ?l None) = None"
    by (rule checkpoint_round_trip [OF ok(1) _ ok(2) _ _ sv ld]) simp_all
  then show ?thesis unfolding ap using ld by auto
qed


lemma le_bytes_one_zero: "le_bytes 4 (1 :: u32) \<noteq> le_bytes 4 (0 :: u32)"
proof
  assume "le_bytes 4 (1 :: u32) = le_bytes 4 (0 :: u32)"
  then have "(le_acc 0 0 (le_bytes 4 (1 :: u32)) :: u32) = le_acc 0 0 (le_bytes 4 (0 :: u32))" by (rule arg_cong)
  moreover have "(8::nat) * 4 = LENGTH(32)" by simp
  ultimately show False by (simp only: le_acc_le_bytes) simp
qed


end
