(* ===== verification/Raft_Log.thy ===== *)
theory Raft_Log
  imports Core_Types
begin

text \<open>
  Model of \<^verbatim>\<open>src/raft/raft_log.c\<close>, the persistent state of a Raft node: current term, vote, snapshot marker and
  the log segment. Files are byte lists (\<^verbatim>\<open>None\<close> when absent) and part of the state beside the in-memory
  fields, so that a restart is opening the log again from the files alone. The offset array is a function
  from positions; system calls and allocations that may fail are boolean arguments.
\<close>

section \<open>State and file formats\<close>

definition META_MAGIC :: u32 where "META_MAGIC = 0x4D544652"
definition VOTE_MAGIC :: u32 where "VOTE_MAGIC = 0x56544652"
definition SNAP_MAGIC :: u32 where "SNAP_MAGIC = 0x53544652"
definition LOG_ENTRY_MAGIC :: u32 where "LOG_ENTRY_MAGIC = 0x45544652"
definition LOG_VERSION :: u32 where "LOG_VERSION = 1"
definition MAX_ENTRY_PAYLOAD :: nat where "MAX_ENTRY_PAYLOAD = 2 ^ 20"

record raft_entry =
  e_index :: u64
  e_term :: u64
  e_type :: u32
  e_payload :: "u8 list"

record raft_files =
  meta_file :: "u8 list option"
  vote_file :: "u8 list option"
  snap_file :: "u8 list option"
  seg_file :: "u8 list"

record tsdb_raft_log =
  files :: raft_files
  current_term :: u64
  voted_for :: u64
  snap_index :: u64
  snap_term :: u64
  first_index :: u64
  last_index :: u64
  last_term :: u64
  offsets :: "nat \<Rightarrow> nat"

definition seg :: "tsdb_raft_log \<Rightarrow> u8 list" where
  "seg rl = seg_file (files rl)"

definition set_seg :: "u8 list \<Rightarrow> tsdb_raft_log \<Rightarrow> tsdb_raft_log" where
  "set_seg bs rl = rl\<lparr>files := (files rl)\<lparr>seg_file := bs\<rparr>\<rparr>"

text \<open>An atomic replacement of a small control file: it happens or the old content stays.\<close>

definition meta_write :: "bool \<Rightarrow> tsdb_raft_log \<Rightarrow> bool \<times> tsdb_raft_log" where
  "meta_write ok rl = (if ok then (True, rl\<lparr>files := (files rl)\<lparr>meta_file :=
     Some (le_bytes 4 META_MAGIC @ le_bytes 4 LOG_VERSION @ le_bytes 8 (current_term rl))\<rparr>\<rparr>) else (False, rl))"

definition vote_write :: "bool \<Rightarrow> tsdb_raft_log \<Rightarrow> bool \<times> tsdb_raft_log" where
  "vote_write ok rl = (if ok then (True, rl\<lparr>files := (files rl)\<lparr>vote_file :=
     Some (le_bytes 4 VOTE_MAGIC @ le_bytes 4 LOG_VERSION @ le_bytes 8 (voted_for rl))\<rparr>\<rparr>) else (False, rl))"

definition snap_meta_write :: "bool \<Rightarrow> tsdb_raft_log \<Rightarrow> bool \<times> tsdb_raft_log" where
  "snap_meta_write ok rl = (if ok then (True, rl\<lparr>files := (files rl)\<lparr>snap_file :=
     Some (le_bytes 4 SNAP_MAGIC @ le_bytes 4 LOG_VERSION @ le_bytes 8 (snap_index rl) @ le_bytes 8 (snap_term rl))\<rparr>\<rparr>) else (False, rl))"

definition meta_load :: "tsdb_raft_log \<Rightarrow> tsdb_raft_log" where
  "meta_load rl = (case meta_file (files rl) of
     None \<Rightarrow> rl
   | Some b \<Rightarrow> if length b \<ge> 16 \<and> le_acc 0 0 (take 4 b) = META_MAGIC
              then rl\<lparr>current_term := le_acc 0 0 (take 8 (drop 8 b))\<rparr> else rl)"

definition vote_load :: "tsdb_raft_log \<Rightarrow> tsdb_raft_log" where
  "vote_load rl = (case vote_file (files rl) of
     None \<Rightarrow> rl
   | Some b \<Rightarrow> if length b \<ge> 16 \<and> le_acc 0 0 (take 4 b) = VOTE_MAGIC
              then rl\<lparr>voted_for := le_acc 0 0 (take 8 (drop 8 b))\<rparr> else rl)"

definition snap_meta_load :: "tsdb_raft_log \<Rightarrow> tsdb_raft_log" where
  "snap_meta_load rl = (case snap_file (files rl) of
     None \<Rightarrow> rl
   | Some b \<Rightarrow> if length b \<ge> 24 \<and> le_acc 0 0 (take 4 b) = SNAP_MAGIC
              then rl\<lparr>snap_index := le_acc 0 0 (take 8 (drop 8 b)), snap_term := le_acc 0 0 (take 8 (drop 16 b))\<rparr> else rl)"

text \<open>An entry of the segment: header, payload and the payload length once more.\<close>

definition entry_bytes :: "raft_entry \<Rightarrow> u8 list" where
  "entry_bytes e = le_bytes 4 LOG_ENTRY_MAGIC @ le_bytes 8 (e_index e) @ le_bytes 8 (e_term e) @ le_bytes 4 (e_type e)
     @ le_bytes 4 (of_nat (length (e_payload e)) :: u32) @ e_payload e @ le_bytes 4 (of_nat (length (e_payload e)) :: u32)"

definition hdr_magic :: "u8 list \<Rightarrow> u32" where "hdr_magic bs = le_acc 0 0 (take 4 bs)"
definition hdr_index :: "u8 list \<Rightarrow> u64" where "hdr_index bs = le_acc 0 0 (take 8 (drop 4 bs))"
definition hdr_term :: "u8 list \<Rightarrow> u64" where "hdr_term bs = le_acc 0 0 (take 8 (drop 12 bs))"
definition hdr_type :: "u8 list \<Rightarrow> u32" where "hdr_type bs = le_acc 0 0 (take 4 (drop 20 bs))"
definition hdr_plen :: "u8 list \<Rightarrow> nat" where "hdr_plen bs = unat (le_acc 0 0 (take 4 (drop 24 bs)) :: u32)"

section \<open>Opening a log\<close>

text \<open>
  The scan of the segment. \<^verbatim>\<open>rest\<close> is what follows offset \<^verbatim>\<open>off\<close>. The result is the number of bytes kept and
  the scanned fields.
\<close>

function scan_loop :: "u8 list \<Rightarrow> nat \<Rightarrow> u64 \<Rightarrow> u64 \<Rightarrow> u64 \<Rightarrow> (nat \<Rightarrow> nat) \<Rightarrow> (u8 list \<times> u64 \<times> u64 \<times> u64 \<times> (nat \<Rightarrow> nat))" where
  "scan_loop sg off fi li lt offs =
     (let rest = drop off sg
      in if length rest < 4 then (sg, fi, li, lt, offs)
         else if hdr_magic rest \<noteq> LOG_ENTRY_MAGIC \<or> length rest < 28 \<or> hdr_plen rest > MAX_ENTRY_PAYLOAD
           \<or> length rest < 28 + hdr_plen rest + 4
           \<or> unat (le_acc 0 0 (take 4 (drop (28 + hdr_plen rest) rest)) :: u32) \<noteq> hdr_plen rest
         then (take off sg, fi, li, lt, offs)
         else let idx = hdr_index rest; fi' = (if li = 0 then idx else fi)
              in scan_loop sg (off + 32 + hdr_plen rest) fi' idx (hdr_term rest) (offs(unat (idx - fi') := off)))"
  by pat_completeness auto
termination
  by (relation "measure (\<lambda>(sg, off, fi, li, lt, offs). length sg - off)") auto

declare scan_loop.simps [simp del]

definition log_rebuild_offsets :: "tsdb_raft_log \<Rightarrow> tsdb_raft_log" where
  "log_rebuild_offsets rl =
     (case scan_loop (seg rl) 0 1 0 0 (offsets rl) of (sg, fi, li, lt, offs) \<Rightarrow>
        let rl1 = set_seg sg (rl\<lparr>first_index := fi, last_index := li, last_term := lt, offsets := offs\<rparr>)
        in if last_index rl1 < snap_index rl1
           then rl1\<lparr>last_index := snap_index rl1, last_term := snap_term rl1, first_index := snap_index rl1 + 1\<rparr>
           else rl1)"

definition tsdb_raft_log_open :: "raft_files \<Rightarrow> tsdb_raft_log" where
  "tsdb_raft_log_open fs = log_rebuild_offsets (snap_meta_load (vote_load (meta_load
     \<lparr>files = fs, current_term = 0, voted_for = 0, snap_index = 0, snap_term = 0, first_index = 0, last_index = 0,
      last_term = 0, offsets = (\<lambda>_. 0)\<rparr>)))"

section \<open>Operations\<close>

definition tsdb_raft_log_set_term :: "bool \<Rightarrow> bool \<Rightarrow> tsdb_raft_log \<Rightarrow> u64 \<Rightarrow> bool \<times> tsdb_raft_log" where
  "tsdb_raft_log_set_term ok_m ok_v rl t =
     (case meta_write ok_m (rl\<lparr>current_term := t, voted_for := 0\<rparr>) of (rc_m, rl1) \<Rightarrow>
        case vote_write ok_v rl1 of (rc_v, rl2) \<Rightarrow> (rc_m \<and> rc_v, rl2))"

definition tsdb_raft_log_set_voted_for :: "bool \<Rightarrow> tsdb_raft_log \<Rightarrow> u64 \<Rightarrow> bool \<times> tsdb_raft_log" where
  "tsdb_raft_log_set_voted_for ok rl node_id = vote_write ok (rl\<lparr>voted_for := node_id\<rparr>)"

definition at_index :: "tsdb_raft_log \<Rightarrow> u64 \<Rightarrow> u8 list" where
  "at_index rl idx = drop (offsets rl (unat (idx - first_index rl))) (seg rl)"

definition tsdb_raft_log_term_at :: "tsdb_raft_log \<Rightarrow> u64 \<Rightarrow> u64" where
  "tsdb_raft_log_term_at rl idx =
     (if idx = 0 then 0
      else if idx = snap_index rl then snap_term rl
      else if first_index rl \<le> idx \<and> idx \<le> last_index rl then
        let b = at_index rl idx
        in if length b \<ge> 20 \<and> hdr_magic b = LOG_ENTRY_MAGIC \<and> hdr_index b = idx then hdr_term b else 0
      else 0)"

text \<open>
  \<^verbatim>\<open>al\<close>: the offset array can grow; \<^verbatim>\<open>wr\<close>: writing and syncing succeeds; \<^verbatim>\<open>left\<close>: how many bytes of a failed
  write stay in the file when cutting it back fails too (0 when it does not).
\<close>

definition tsdb_raft_log_append :: "bool \<Rightarrow> bool \<Rightarrow> nat \<Rightarrow> tsdb_raft_log \<Rightarrow> raft_entry \<Rightarrow> bool \<times> tsdb_raft_log" where
  "tsdb_raft_log_append al wr left rl e =
     (if length (e_payload e) > MAX_ENTRY_PAYLOAD then (False, rl)
      else let idx = last_index rl + 1;
               rl1 = rl\<lparr>first_index := (if last_index rl = 0 then idx else first_index rl)\<rparr>;
               bytes = entry_bytes (e\<lparr>e_index := idx\<rparr>); off = length (seg rl1)
           in if \<not> al then (False, rl1)
              else if \<not> wr then (False, set_seg (seg rl1 @ take left bytes) rl1)
              else (True, set_seg (seg rl1 @ bytes) (rl1\<lparr>offsets := (offsets rl1)(unat (idx - first_index rl1) := off),
                            last_index := idx, last_term := e_term e\<rparr>)))"

definition tsdb_raft_log_read :: "bool \<Rightarrow> tsdb_raft_log \<Rightarrow> u64 \<Rightarrow> raft_entry option" where
  "tsdb_raft_log_read al rl idx =
     (if idx = 0 \<or> idx < first_index rl \<or> idx > last_index rl then None
      else let b = at_index rl idx
           in if length b < 28 \<or> hdr_magic b \<noteq> LOG_ENTRY_MAGIC \<or> hdr_plen b > MAX_ENTRY_PAYLOAD then None
              else if hdr_plen b > 0 \<and> (\<not> al \<or> length b < 28 + hdr_plen b) then None
              else Some \<lparr>e_index = hdr_index b, e_term = hdr_term b, e_type = hdr_type b, e_payload = take (hdr_plen b) (drop 28 b)\<rparr>)"

text \<open>\<^verbatim>\<open>tr\<close>: cutting the file succeeds; \<^verbatim>\<open>sy\<close>: seeking and syncing afterwards succeed.\<close>

definition tsdb_raft_log_truncate :: "bool \<Rightarrow> bool \<Rightarrow> tsdb_raft_log \<Rightarrow> u64 \<Rightarrow> bool \<times> tsdb_raft_log" where
  "tsdb_raft_log_truncate tr sy rl idx =
     (if idx = 0 \<or> idx > last_index rl then (True, rl)
      else if idx < first_index rl then (True, rl)
      else let cut = offsets rl (unat (idx - first_index rl))
           in if \<not> tr then (False, rl)
              else let rl1 = set_seg (take cut (seg rl)) rl
                   in if \<not> sy then (False, rl1)
                      else let rl2 = rl1\<lparr>last_index := idx - 1\<rparr>
                           in if last_index rl2 < first_index rl2
                              then (True, rl2\<lparr>first_index := 1, last_index := 0, last_term := 0\<rparr>)
                              else let b = at_index rl2 (last_index rl2)
                                   in (True, if length b \<ge> 20 then rl2\<lparr>last_term := hdr_term b\<rparr> else rl2))"

text \<open>
  Compaction copies the entries above the snapshot into a new segment. \<^verbatim>\<open>io\<close>: everything up to renaming the new
  segment into place succeeds; \<^verbatim>\<open>re\<close>: opening it again succeeds; \<^verbatim>\<open>sm\<close>: the marker is written.
\<close>

definition copy_entry :: "u8 list \<Rightarrow> u8 list option" where
  "copy_entry b =
     (if length b < 28 \<or> hdr_magic b \<noteq> LOG_ENTRY_MAGIC \<or> length b < 28 + hdr_plen b + 4
         \<or> unat (le_acc 0 0 (take 4 (drop (28 + hdr_plen b) b)) :: u32) \<noteq> hdr_plen b then None
      else Some (take (32 + hdr_plen b) b))"

fun compact_loop :: "tsdb_raft_log \<Rightarrow> nat list \<Rightarrow> u8 list \<Rightarrow> nat list \<Rightarrow> u64 \<Rightarrow> (u8 list \<times> nat list \<times> u64) option" where
  "compact_loop rl [] out offs lt = Some (out, offs, lt)"
| "compact_loop rl (i # is) out offs lt =
     (if i < unat (first_index rl) then compact_loop rl is out offs lt
      else let b = at_index rl (of_nat i)
           in case copy_entry b of
                None \<Rightarrow> None
              | Some bytes \<Rightarrow> compact_loop rl is (out @ bytes) (offs @ [length out]) (hdr_term b))"

definition tsdb_raft_log_compact :: "bool \<Rightarrow> bool \<Rightarrow> bool \<Rightarrow> tsdb_raft_log \<Rightarrow> u64 \<Rightarrow> u64 \<Rightarrow> bool \<times> tsdb_raft_log" where
  "tsdb_raft_log_compact io re sm rl sidx strm =
     (if sidx \<le> snap_index rl then (True, rl)
      else if \<not> io then (False, rl)
      else case compact_loop rl [unat (sidx + 1)..<Suc (unat (last_index rl))] [] [] 0 of
             None \<Rightarrow> (False, rl)
           | Some (out, offs, nlt) \<Rightarrow>
               if \<not> re then (False, set_seg out rl)
               else let rl1 = set_seg out (rl\<lparr>offsets := (\<lambda>p. if p < length offs then offs ! p else 0), first_index := sidx + 1,
                      last_index := (if offs = [] then sidx else sidx + of_nat (length offs)),
                      last_term := (if offs = [] then strm else nlt), snap_index := sidx, snap_term := strm\<rparr>)
                    in snap_meta_write sm rl1)"

section \<open>Entries in the segment\<close>

abbreviation entry_fits :: "raft_entry \<Rightarrow> bool" where
  "entry_fits e \<equiv> length (e_payload e) \<le> MAX_ENTRY_PAYLOAD"

abbreviation segment :: "raft_entry list \<Rightarrow> u8 list" where
  "segment es \<equiv> concat (map entry_bytes es)"

lemma length_entry_bytes [simp]: "length (entry_bytes e) = 32 + length (e_payload e)"
  by (simp add: entry_bytes_def)

lemma entry_plen: "entry_fits e \<Longrightarrow> unat (of_nat (length (e_payload e)) :: u32) = length (e_payload e)"
  by (simp add: MAX_ENTRY_PAYLOAD_def unat_of_nat)

lemma hdr_entry [simp]:
  "hdr_magic (entry_bytes e @ r) = LOG_ENTRY_MAGIC" "hdr_index (entry_bytes e @ r) = e_index e"
  "hdr_term (entry_bytes e @ r) = e_term e" "hdr_type (entry_bytes e @ r) = e_type e"
  by (simp_all add: hdr_magic_def hdr_index_def hdr_term_def hdr_type_def entry_bytes_def)

lemma plen_entry [simp]: "entry_fits e \<Longrightarrow> hdr_plen (entry_bytes e @ r) = length (e_payload e)"
  using entry_plen by (simp add: hdr_plen_def entry_bytes_def)

lemma hdr_entry_only [simp]:
  "hdr_magic (entry_bytes e) = LOG_ENTRY_MAGIC" "hdr_index (entry_bytes e) = e_index e"
  "hdr_term (entry_bytes e) = e_term e" "entry_fits e \<Longrightarrow> hdr_plen (entry_bytes e) = length (e_payload e)"
  using hdr_entry [of e "[]"] plen_entry [of e "[]"] by simp_all

lemma payload_entry [simp]: "take (length (e_payload e)) (drop 28 (entry_bytes e)) = e_payload e"
  by (simp add: entry_bytes_def)

lemma trailer_entry [simp]:
  "entry_fits e \<Longrightarrow> unat (le_acc 0 0 (drop (28 + length (e_payload e)) (entry_bytes e)) :: u32) = length (e_payload e)"
  using entry_plen by (simp add: entry_bytes_def)

text \<open>A strict part of an entry is not taken for an entry.\<close>

definition torn :: "u8 list \<Rightarrow> bool" where
  "torn t \<longleftrightarrow> hdr_magic t \<noteq> LOG_ENTRY_MAGIC \<or> length t < 28 \<or> hdr_plen t > MAX_ENTRY_PAYLOAD \<or> length t < 28 + hdr_plen t + 4
     \<or> unat (le_acc 0 0 (take 4 (drop (28 + hdr_plen t) t)) :: u32) \<noteq> hdr_plen t"

lemma torn_take:
  assumes "entry_fits e" and "k < length (entry_bytes e)"
  shows "torn (take k (entry_bytes e))"
proof (cases "k < 28")
  case True
  then show ?thesis by (simp add: torn_def)
next
  case False
  have "take 4 (drop 24 (take k (entry_bytes e))) = take 4 (drop 24 (entry_bytes e))"
    using False by (simp add: drop_take)
  then have "hdr_plen (take k (entry_bytes e)) = length (e_payload e)"
    using plen_entry [OF assms(1), of "[]"] by (simp add: hdr_plen_def)
  then show ?thesis using assms(2) by (simp add: torn_def)
qed

section \<open>Scanning the segment\<close>

lemma scan_entry:
  assumes "drop off sg = entry_bytes e @ r" and "entry_fits e"
  shows "scan_loop sg off fi li lt offs =
    (let fi' = (if li = 0 then e_index e else fi)
     in scan_loop sg (off + length (entry_bytes e)) fi' (e_index e) (e_term e) (offs(unat (e_index e - fi') := off)))"
  using assms(2) by (subst scan_loop.simps) (simp add: assms(1) Let_def add.assoc)

lemma scan_torn:
  assumes "torn (drop off sg)"
  shows "scan_loop sg off fi li lt offs = (if length sg - off < 4 then sg else take off sg, fi, li, lt, offs)"
  using assms by (subst scan_loop.simps) (auto simp: torn_def Let_def)

lemma torn_Nil [simp]: "torn []"
  by (simp add: torn_def)

lemma scan_rest:
  assumes "drop off sg = segment es @ t" and "torn t" and "off \<le> length sg"
    and "\<forall>i < length es. e_index (es ! i) = fi + of_nat (p + i) \<and> e_index (es ! i) \<noteq> 0 \<and> entry_fits (es ! i)"
    and "p + length es < 2 ^ 64" and "li \<noteq> 0"
  shows "\<exists>offs'. scan_loop sg off fi li lt offs =
      (if length t < 4 then sg else take (off + length (segment es)) sg, fi,
       if es = [] then li else e_index (last es), if es = [] then lt else e_term (last es), offs')
    \<and> (\<forall>i < p. offs' i = offs i) \<and> (\<forall>i < length es. offs' (p + i) = off + length (segment (take i es)))"
  using assms
proof (induction es arbitrary: off p li lt offs)
  case Nil
  then have "length t = length sg - off" by (metis append_Nil concat.simps(1) length_drop list.map(1))
  then show ?case using Nil by (simp add: scan_torn)
next
  case (Cons e es)
  have ei: "e_index e = fi + of_nat p" "e_index e \<noteq> 0" "entry_fits e" using Cons.prems(4) by auto
  have pos: "unat (e_index e - fi) = p" using ei(1) Cons.prems(5) by (simp add: unat_of_nat)
  have d: "drop off sg = entry_bytes e @ (segment es @ t)" using Cons.prems(1) by simp
  let ?o = "off + length (entry_bytes e)" and ?offs = "offs(p := off)"
  have d': "drop ?o sg = segment es @ t" using arg_cong [OF d, of "drop (length (entry_bytes e))"] by (simp add: add.commute)
  have len: "length sg = off + (length (entry_bytes e) + length (segment es @ t))"
    using arg_cong [OF d, of length] Cons.prems(3) by simp
  have idx: "\<forall>i < length es. e_index (es ! i) = fi + of_nat (Suc p + i) \<and> e_index (es ! i) \<noteq> 0 \<and> entry_fits (es ! i)"
  proof (intro allI impI)
    fix i assume "i < length es"
    then show "e_index (es ! i) = fi + of_nat (Suc p + i) \<and> e_index (es ! i) \<noteq> 0 \<and> entry_fits (es ! i)"
      using Cons.prems(4) [rule_format, of "Suc i"] by auto
  qed
  have step: "scan_loop sg off fi li lt offs = scan_loop sg ?o fi (e_index e) (e_term e) ?offs"
    using scan_entry [OF d ei(3)] Cons.prems(6) by (simp add: pos)
  have "?o \<le> length sg" "Suc p + length es < 2 ^ 64" using len Cons.prems(5) by simp_all
  note ih = Cons.IH [OF d' Cons.prems(2) this(1) idx this(2) ei(2), of "e_term e" ?offs]
  then obtain offs' where o: "scan_loop sg ?o fi (e_index e) (e_term e) ?offs =
      (if length t < 4 then sg else take (?o + length (segment es)) sg, fi,
       if es = [] then e_index e else e_index (last es), if es = [] then e_term e else e_term (last es), offs')"
    "\<forall>i < Suc p. offs' i = ?offs i" "\<forall>i < length es. offs' (Suc p + i) = ?o + length (segment (take i es))"
    by blast
  have "offs' (p + i) = off + length (segment (take i (e # es)))" if "i < length (e # es)" for i
    using o(2,3) that by (cases i) (auto simp del: length_entry_bytes)
  then show ?case using o(1,2) step by (auto simp del: length_entry_bytes simp: add.assoc)
qed

section \<open>The log as a list of entries\<close>

definition log_rep :: "tsdb_raft_log \<Rightarrow> raft_entry list \<Rightarrow> bool" where
  "log_rep rl es \<longleftrightarrow> seg rl = segment es \<and> first_index rl \<noteq> 0
     \<and> last_index rl = first_index rl + of_nat (length es) - 1 \<and> unat (first_index rl) + length es < 2 ^ 64
     \<and> (\<forall>i < length es. e_index (es ! i) = first_index rl + of_nat i \<and> entry_fits (es ! i) \<and> offsets rl i = length (segment (take i es)))
     \<and> (es \<noteq> [] \<longrightarrow> last_term rl = e_term (last es))"

lemma set_seg_simps [simp]:
  "seg (set_seg bs rl) = bs" "first_index (set_seg bs rl) = first_index rl" "last_index (set_seg bs rl) = last_index rl"
  "last_term (set_seg bs rl) = last_term rl" "offsets (set_seg bs rl) = offsets rl" "snap_index (set_seg bs rl) = snap_index rl"
  "snap_term (set_seg bs rl) = snap_term rl" "current_term (set_seg bs rl) = current_term rl" "voted_for (set_seg bs rl) = voted_for rl"
  by (simp_all add: set_seg_def seg_def)

lemma seg_updates [simp]:
  "seg (rl\<lparr>first_index := a\<rparr>) = seg rl" "seg (rl\<lparr>last_index := a\<rparr>) = seg rl" "seg (rl\<lparr>last_term := a\<rparr>) = seg rl"
  "seg (rl\<lparr>offsets := f\<rparr>) = seg rl" "seg (rl\<lparr>current_term := a\<rparr>) = seg rl" "seg (rl\<lparr>voted_for := a\<rparr>) = seg rl"
  "seg (rl\<lparr>snap_index := a\<rparr>) = seg rl" "seg (rl\<lparr>snap_term := a\<rparr>) = seg rl"
  by (simp_all add: seg_def)

lemma segment_split: "segment es = segment (take i es) @ segment (drop i es)"
  by (metis append_take_drop_id concat_append map_append)

lemma unat_add_small: "unat a + n < 2 ^ 64 \<Longrightarrow> unat (a + of_nat n :: u64) = unat a + n"
  by (simp add: unat_word_ariths unat_of_nat)

lemma unat_add_pred:
  assumes "unat a + n < 2 ^ 64" and "a \<noteq> 0"
  shows "unat (a + of_nat n - 1 :: u64) = unat a + n - 1"
proof -
  have "a + of_nat n - 1 = of_nat (unat a + n - 1)"
    using assms(2) by (subst of_nat_diff) (simp_all add: Suc_le_eq unat_gt_0)
  then show ?thesis using assms(1) by (simp add: unat_of_nat)
qed

lemma log_rep_last: "log_rep rl es \<Longrightarrow> unat (last_index rl) = unat (first_index rl) + length es - 1"
  unfolding log_rep_def using unat_add_pred by simp

lemma log_rep_range:
  assumes "log_rep rl es" and "first_index rl \<le> idx" and "idx \<le> last_index rl"
  shows "unat (idx - first_index rl) < length es" and "idx = first_index rl + of_nat (unat (idx - first_index rl))"
proof -
  have "unat (idx - first_index rl) = unat idx - unat (first_index rl)" using assms(2) by (rule unat_sub)
  moreover have "unat (first_index rl) \<le> unat idx" "unat idx \<le> unat (last_index rl)" using assms(2,3) by (simp_all add: word_le_nat_alt)
  moreover have "unat (first_index rl) \<noteq> 0" using assms(1) by (simp add: log_rep_def unat_eq_zero)
  ultimately show "unat (idx - first_index rl) < length es" using log_rep_last [OF assms(1)] by linarith
  show "idx = first_index rl + of_nat (unat (idx - first_index rl))" by simp
qed

lemma log_rep_in_range:
  assumes "log_rep rl es" and "i < length es"
  shows "first_index rl \<le> first_index rl + of_nat i" and "first_index rl + of_nat i \<le> last_index rl"
    and "unat (first_index rl + of_nat i - first_index rl) = i" and "first_index rl + of_nat i \<noteq> 0"
proof -
  have b: "unat (first_index rl) + i < 2 ^ 64" "first_index rl \<noteq> 0" using assms by (auto simp: log_rep_def)
  then have u: "unat (first_index rl + of_nat i) = unat (first_index rl) + i" by (simp add: unat_add_small)
  show "first_index rl \<le> first_index rl + of_nat i" "first_index rl + of_nat i \<le> last_index rl"
    using u log_rep_last [OF assms(1)] assms(2) by (simp_all add: word_le_nat_alt)
  show "unat (first_index rl + of_nat i - first_index rl) = i" using b(1) by (simp add: unat_of_nat)
  show "first_index rl + of_nat i \<noteq> 0" using u b(2) by (metis add_is_0 unat_0 unat_eq_zero)
qed

lemma log_rep_at:
  assumes "log_rep rl es" and "i < length es"
  shows "at_index rl (first_index rl + of_nat i) = entry_bytes (es ! i) @ segment (drop (Suc i) es)"
proof -
  have "at_index rl (first_index rl + of_nat i) = drop (length (segment (take i es))) (segment es)"
    using assms log_rep_in_range(3) [OF assms] by (simp add: at_index_def log_rep_def)
  also have "\<dots> = segment (drop i es)" using segment_split [of es i] by (metis append_eq_conv_conj)
  finally show ?thesis using assms(2) by (simp add: Cons_nth_drop_Suc [symmetric])
qed

lemma log_rep_read:
  assumes "log_rep rl es" and "i < length es"
  shows "tsdb_raft_log_read True rl (first_index rl + of_nat i) = Some (es ! i)"
proof -
  have f: "entry_fits (es ! i)" using assms by (simp add: log_rep_def)
  note r = log_rep_in_range [OF assms]
  show ?thesis
    using r(1,2,4) f unfolding tsdb_raft_log_read_def log_rep_at [OF assms] Let_def by (simp add: not_less)
qed

lemma log_rep_term_at:
  assumes "log_rep rl es" and "i < length es" and "first_index rl + of_nat i \<noteq> snap_index rl"
  shows "tsdb_raft_log_term_at rl (first_index rl + of_nat i) = e_term (es ! i)"
proof -
  have e: "e_index (es ! i) = first_index rl + of_nat i" using assms by (simp add: log_rep_def)
  note r = log_rep_in_range [OF assms(1,2)]
  show ?thesis using r(1,2,4) assms(3) e unfolding tsdb_raft_log_term_at_def log_rep_at [OF assms(1,2)] Let_def by simp
qed

lemma log_rep_append:
  assumes rep: "log_rep rl es" and room: "unat (last_index rl) + 2 < 2 ^ 64" and fits: "entry_fits e"
  shows "\<exists>rl'. tsdb_raft_log_append True True left rl e = (True, rl') \<and> log_rep rl' (es @ [e\<lparr>e_index := last_index rl + 1\<rparr>])
    \<and> last_index rl' = last_index rl + 1"
proof -
  let ?f = "first_index rl" and ?n = "length es" and ?e = "e\<lparr>e_index := last_index rl + 1\<rparr>"
  have idx: "last_index rl + 1 = ?f + of_nat ?n" using rep by (simp add: log_rep_def)
  have bound: "unat ?f + Suc ?n < 2 ^ 64" using log_rep_last [OF rep] room by linarith
  have first: "(if last_index rl = 0 then last_index rl + 1 else ?f) = ?f"
  proof (cases "last_index rl = 0")
    case True
    have "unat ?f \<noteq> 0" using rep by (simp add: log_rep_def unat_eq_zero)
    moreover have "unat (last_index rl) = 0" using True by simp
    ultimately have "?n = 0" using log_rep_last [OF rep] by linarith
    then show ?thesis using True idx by simp
  qed simp
  have pos: "unat (of_nat ?n :: u64) = ?n" using bound by (simp add: unat_of_nat)
  define rl' where "rl' = set_seg (seg rl @ entry_bytes ?e) (rl\<lparr>first_index := ?f, offsets := (offsets rl)(?n := length (seg rl)),
    last_index := last_index rl + 1, last_term := e_term e\<rparr>)"
  have "tsdb_raft_log_append True True left rl e = (True, rl')"
    using fits unfolding tsdb_raft_log_append_def Let_def rl'_def first by (simp add: idx pos)
  moreover have "log_rep rl' (es @ [?e])"
    using rep bound fits idx unfolding log_rep_def by (auto simp: rl'_def nth_append less_Suc_eq)
  ultimately show ?thesis by (auto simp: rl'_def)
qed

text \<open>
  Truncation keeps the entries below the index. When nothing is left the log starts again at index 1,
  whatever the snapshot marker says.
\<close>

lemma log_rep_truncate:
  assumes rep: "log_rep rl es" and i: "i < length es"
  shows "\<exists>rl'. tsdb_raft_log_truncate True True rl (first_index rl + of_nat i) = (True, rl') \<and> log_rep rl' (take i es)
    \<and> (if i = 0 then first_index rl' = 1 \<and> last_index rl' = 0 else first_index rl' = first_index rl \<and> last_index rl' = first_index rl + of_nat i - 1)"
proof -
  let ?f = "first_index rl" and ?idx = "first_index rl + of_nat i"
  note r = log_rep_in_range [OF rep i]
  have of_nat_i: "unat (of_nat i :: u64) = i" using r(3) by simp
  have off: "offsets rl i = length (segment (take i es))" using rep i by (simp add: log_rep_def)
  define rl1 where "rl1 = set_seg (take (length (segment (take i es))) (seg rl)) rl\<lparr>last_index := ?idx - 1\<rparr>"
  have seg1: "take (length (segment (take i es))) (seg rl) = segment (take i es)"
  proof -
    have "seg rl = segment es" using rep unfolding log_rep_def by blast
    from trans [OF this segment_split [of es i]] show ?thesis by simp
  qed
  have step: "tsdb_raft_log_truncate True True rl ?idx =
      (if last_index rl1 < first_index rl1 then (True, rl1\<lparr>first_index := 1, last_index := 0, last_term := 0\<rparr>)
       else (True, if length (at_index rl1 (last_index rl1)) \<ge> 20 then rl1\<lparr>last_term := hdr_term (at_index rl1 (last_index rl1))\<rparr> else rl1))"
    using r unfolding tsdb_raft_log_truncate_def Let_def rl1_def by (simp add: of_nat_i off not_less)
  have b: "unat ?f + i < 2 ^ 64" "?f \<noteq> 0" using rep i by (auto simp: log_rep_def)
  have l1: "last_index rl1 = ?f + of_nat i - 1" "first_index rl1 = ?f" "seg rl1 = segment (take i es)" "offsets rl1 = offsets rl"
    using seg1 by (simp_all add: rl1_def)
  have ul: "unat (last_index rl1) = unat ?f + i - 1" unfolding l1 using unat_add_pred b by blast
  show ?thesis
  proof (cases "i = 0")
    case True
    have "last_index rl1 < first_index rl1" using ul b(2) True by (simp add: word_less_nat_alt l1(2) unat_gt_0)
    then show ?thesis unfolding step using True l1 by (simp add: log_rep_def)
  next
    case False
    have ge: "\<not> last_index rl1 < first_index rl1" using ul False by (simp add: word_less_nat_alt l1(2))
    have lastidx: "last_index rl1 = first_index rl1 + of_nat (i - 1)" using False by (simp add: l1 of_nat_diff)
    have rep1: "log_rep (rl1\<lparr>last_term := e_term (es ! (i - 1))\<rparr>) (take i es)"
      using rep i b False l1 unfolding log_rep_def by (auto simp: min_def last_conv_nth)
    have "at_index rl1 (last_index rl1) = entry_bytes (take i es ! (i - 1)) @ segment (drop (Suc (i - 1)) (take i es))"
      using log_rep_at [OF rep1, of "i - 1"] False i lastidx by (simp add: at_index_def)
    then show ?thesis unfolding step using ge rep1 False l1 i by simp
  qed
qed

lemma log_rep_truncate_out:
  assumes "idx = 0 \<or> idx > last_index rl \<or> idx < first_index rl"
  shows "tsdb_raft_log_truncate tr sy rl idx = (True, rl)"
  using assms by (auto simp: tsdb_raft_log_truncate_def)

text \<open>A restart: the segment is scanned again, and a torn entry at its end is dropped.\<close>

lemma scan_segment:
  assumes es: "\<forall>i < length es. e_index (es ! i) = f + of_nat i \<and> entry_fits (es ! i)" and f: "f \<noteq> 0" "unat f + length es < 2 ^ 64"
    and t: "torn t"
  shows "\<exists>offs'. scan_loop (segment es @ t) 0 1 0 0 offs =
      (if length t < 4 then segment es @ t else segment es, if es = [] then 1 else f,
       if es = [] then 0 else e_index (last es), if es = [] then 0 else e_term (last es), offs')
    \<and> (\<forall>i < length es. offs' i = length (segment (take i es)))"
proof (cases es)
  case Nil
  then show ?thesis using scan_torn [of 0 t] t by simp
next
  case (Cons e es1)
  let ?sg = "segment es @ t" and ?o = "length (entry_bytes e)"
  have e: "e_index e = f" "entry_fits e" using es [rule_format, of 0] Cons by auto
  have d: "drop 0 ?sg = entry_bytes e @ (segment es1 @ t)" by (simp add: Cons)
  have step: "scan_loop ?sg 0 1 0 0 offs = scan_loop ?sg ?o f f (e_term e) (offs(0 := 0))"
    using scan_entry [OF d e(2)] e(1) by (simp add: Let_def)
  have idx: "\<forall>i < length es1. e_index (es1 ! i) = f + of_nat (1 + i) \<and> e_index (es1 ! i) \<noteq> 0 \<and> entry_fits (es1 ! i)"
  proof (intro allI impI)
    fix i assume i: "i < length es1"
    have "unat (f + of_nat (Suc i)) = unat f + Suc i" using f(2) i Cons by (intro unat_add_small) simp
    then have "f + of_nat (Suc i) \<noteq> 0" by (metis add_is_0 nat.distinct(1) unat_0)
    then show "e_index (es1 ! i) = f + of_nat (1 + i) \<and> e_index (es1 ! i) \<noteq> 0 \<and> entry_fits (es1 ! i)"
      using es [rule_format, of "Suc i"] i Cons by (auto simp del: of_nat_Suc)
  qed
  have "drop ?o ?sg = segment es1 @ t" "?o \<le> length ?sg" "1 + length es1 < 2 ^ 64" using f(2) by (simp_all add: Cons)
  from scan_rest [OF this(1) t this(2) idx this(3) f(1), of "e_term e" "offs(0 := 0)"]
  obtain offs' where o: "scan_loop ?sg ?o f f (e_term e) (offs(0 := 0)) =
      (if length t < 4 then ?sg else take (?o + length (segment es1)) ?sg, f,
       if es1 = [] then f else e_index (last es1), if es1 = [] then e_term e else e_term (last es1), offs')"
    "offs' 0 = 0" "\<forall>i < length es1. offs' (1 + i) = ?o + length (segment (take i es1))" by auto
  have "offs' i = length (segment (take i es))" if "i < length es" for i
    using o(2,3) that Cons by (cases i) (auto simp del: length_entry_bytes)
  then show ?thesis using step o(1) Cons e(1) by (auto simp del: length_entry_bytes)
qed

text \<open>The control files hold what is in memory.\<close>

definition synced :: "tsdb_raft_log \<Rightarrow> bool" where
  "synced rl \<longleftrightarrow>
     (current_term rl = 0 \<and> meta_file (files rl) = None
      \<or> meta_file (files rl) = Some (le_bytes 4 META_MAGIC @ le_bytes 4 LOG_VERSION @ le_bytes 8 (current_term rl)))
   \<and> (voted_for rl = 0 \<and> vote_file (files rl) = None
      \<or> vote_file (files rl) = Some (le_bytes 4 VOTE_MAGIC @ le_bytes 4 LOG_VERSION @ le_bytes 8 (voted_for rl)))
   \<and> (snap_index rl = 0 \<and> snap_term rl = 0 \<and> snap_file (files rl) = None
      \<or> snap_file (files rl) = Some (le_bytes 4 SNAP_MAGIC @ le_bytes 4 LOG_VERSION @ le_bytes 8 (snap_index rl) @ le_bytes 8 (snap_term rl)))"

lemma open_control:
  assumes "synced rl" and "meta_file fs = meta_file (files rl)" "vote_file fs = vote_file (files rl)" "snap_file fs = snap_file (files rl)"
  shows "snap_meta_load (vote_load (meta_load \<lparr>files = fs, current_term = 0, voted_for = 0, snap_index = 0, snap_term = 0,
      first_index = 0, last_index = 0, last_term = 0, offsets = o0\<rparr>))
    = \<lparr>files = fs, current_term = current_term rl, voted_for = voted_for rl, snap_index = snap_index rl, snap_term = snap_term rl,
      first_index = 0, last_index = 0, last_term = 0, offsets = o0\<rparr>"
proof -
  have m: "meta_load \<lparr>files = fs, current_term = 0, voted_for = 0, snap_index = 0, snap_term = 0,
      first_index = 0, last_index = 0, last_term = 0, offsets = o0\<rparr>
    = \<lparr>files = fs, current_term = current_term rl, voted_for = 0, snap_index = 0, snap_term = 0,
      first_index = 0, last_index = 0, last_term = 0, offsets = o0\<rparr>"
    using assms unfolding synced_def by (elim conjE disjE) (simp_all add: meta_load_def)
  have v: "vote_load \<lparr>files = fs, current_term = current_term rl, voted_for = 0, snap_index = 0, snap_term = 0,
      first_index = 0, last_index = 0, last_term = 0, offsets = o0\<rparr>
    = \<lparr>files = fs, current_term = current_term rl, voted_for = voted_for rl, snap_index = 0, snap_term = 0,
      first_index = 0, last_index = 0, last_term = 0, offsets = o0\<rparr>"
    using assms unfolding synced_def by (elim conjE disjE) (simp_all add: vote_load_def)
  show ?thesis unfolding m v using assms unfolding synced_def by (elim conjE disjE) (simp_all add: snap_meta_load_def)
qed

lemma open_rep:
  assumes rep: "log_rep rl es" and sy: "synced rl" and snap: "snap_index rl \<le> last_index rl" and t: "torn t" "t = [] \<or> 4 \<le> length t"
    and start: "es = [] \<longrightarrow> first_index rl = snap_index rl + 1"
  shows "log_rep (tsdb_raft_log_open ((files rl)\<lparr>seg_file := seg rl @ t\<rparr>)) es"
    and "last_index (tsdb_raft_log_open ((files rl)\<lparr>seg_file := seg rl @ t\<rparr>)) = last_index rl"
    and "first_index (tsdb_raft_log_open ((files rl)\<lparr>seg_file := seg rl @ t\<rparr>)) = first_index rl"
    and "current_term (tsdb_raft_log_open ((files rl)\<lparr>seg_file := seg rl @ t\<rparr>)) = current_term rl"
    and "voted_for (tsdb_raft_log_open ((files rl)\<lparr>seg_file := seg rl @ t\<rparr>)) = voted_for rl"
    and "snap_index (tsdb_raft_log_open ((files rl)\<lparr>seg_file := seg rl @ t\<rparr>)) = snap_index rl"
proof -
  define fs where "fs = (files rl)\<lparr>seg_file := seg rl @ t\<rparr>"
  define rl0 where "rl0 = \<lparr>files = fs, current_term = current_term rl, voted_for = voted_for rl, snap_index = snap_index rl, snap_term = snap_term rl,
      first_index = 0, last_index = 0, last_term = 0, offsets = (\<lambda>_. 0)\<rparr>"
  have op: "tsdb_raft_log_open fs = log_rebuild_offsets rl0"
    unfolding tsdb_raft_log_open_def rl0_def using open_control [OF sy, of fs] by (simp add: fs_def)
  have sg: "seg rl0 = segment es @ t" using rep by (simp add: rl0_def fs_def seg_def log_rep_def)
  have es: "\<forall>i < length es. e_index (es ! i) = first_index rl + of_nat i \<and> entry_fits (es ! i)"
    and f: "first_index rl \<noteq> 0" "unat (first_index rl) + length es < 2 ^ 64" using rep by (auto simp: log_rep_def)
  obtain offs' where sc: "scan_loop (segment es @ t) 0 1 0 0 (offsets rl0) =
      (if length t < 4 then segment es @ t else segment es, if es = [] then 1 else first_index rl,
       if es = [] then 0 else e_index (last es), if es = [] then 0 else e_term (last es), offs')"
    and offs: "\<forall>i < length es. offs' i = length (segment (take i es))"
    using scan_segment [OF es f t(1)] by blast
  have kept: "(if length t < 4 then segment es @ t else segment es) = segment es" using t(2) by auto
  have "log_rep (log_rebuild_offsets rl0) es \<and> last_index (log_rebuild_offsets rl0) = last_index rl
      \<and> first_index (log_rebuild_offsets rl0) = first_index rl \<and> current_term (log_rebuild_offsets rl0) = current_term rl
      \<and> voted_for (log_rebuild_offsets rl0) = voted_for rl \<and> snap_index (log_rebuild_offsets rl0) = snap_index rl"
  proof (cases "es = []")
    case True
    have l: "last_index rl = snap_index rl" "first_index rl = snap_index rl + 1"
      using rep start True by (simp_all add: log_rep_def)
    then have n: "snap_index rl + 1 \<noteq> 0" "unat (snap_index rl + 1) < 2 ^ 64" using f by simp_all
    show ?thesis
    proof (cases "snap_index rl = 0")
      case True0: True
      then show ?thesis using True sc kept l unfolding log_rebuild_offsets_def sg by (simp add: rl0_def log_rep_def Let_def)
    next
      case False
      then have "0 < snap_index rl" by (simp add: word_neq_0_conv)
      then show ?thesis using True sc kept l n unfolding log_rebuild_offsets_def sg by (simp add: rl0_def log_rep_def Let_def)
    qed
  next
    case False
    have li: "e_index (last es) = last_index rl"
    proof -
      have "1 \<le> length es" using False by (simp add: Suc_le_eq)
      then have "(of_nat (length es - 1) :: u64) = of_nat (length es) - 1" by (simp del: One_nat_def add: of_nat_diff)
      then show ?thesis using es False rep by (simp add: last_conv_nth log_rep_def)
    qed
    then show ?thesis using False sc kept leD [OF snap] offs es f rep unfolding log_rebuild_offsets_def sg
      by (simp add: rl0_def log_rep_def Let_def)
  qed
  then show "log_rep (tsdb_raft_log_open ((files rl)\<lparr>seg_file := seg rl @ t\<rparr>)) es"
    "last_index (tsdb_raft_log_open ((files rl)\<lparr>seg_file := seg rl @ t\<rparr>)) = last_index rl"
    "first_index (tsdb_raft_log_open ((files rl)\<lparr>seg_file := seg rl @ t\<rparr>)) = first_index rl"
    "current_term (tsdb_raft_log_open ((files rl)\<lparr>seg_file := seg rl @ t\<rparr>)) = current_term rl"
    "voted_for (tsdb_raft_log_open ((files rl)\<lparr>seg_file := seg rl @ t\<rparr>)) = voted_for rl"
    "snap_index (tsdb_raft_log_open ((files rl)\<lparr>seg_file := seg rl @ t\<rparr>)) = snap_index rl"
    unfolding fs_def [symmetric] op by blast+
qed

section \<open>Compaction\<close>

lemma copy_entry_segment:
  assumes rep: "log_rep rl es" and j: "j < length es"
  shows "copy_entry (at_index rl (first_index rl + of_nat j)) = Some (entry_bytes (es ! j))"
    and "hdr_term (at_index rl (first_index rl + of_nat j)) = e_term (es ! j)"
proof -
  have "entry_fits (es ! j)" using rep j by (simp add: log_rep_def)
  then show "copy_entry (at_index rl (first_index rl + of_nat j)) = Some (entry_bytes (es ! j))"
    and "hdr_term (at_index rl (first_index rl + of_nat j)) = e_term (es ! j)"
    unfolding log_rep_at [OF rep j] by (simp_all add: copy_entry_def)
qed

lemma snap_meta_write_simps [simp]:
  "fst (snap_meta_write sm rl) = sm" "log_rep (snd (snap_meta_write sm rl)) es = log_rep rl es"
  "first_index (snd (snap_meta_write sm rl)) = first_index rl" "last_index (snd (snap_meta_write sm rl)) = last_index rl"
  "snap_index (snd (snap_meta_write sm rl)) = snap_index rl" "last_term (snd (snap_meta_write sm rl)) = last_term rl"
  "current_term (snd (snap_meta_write sm rl)) = current_term rl" "voted_for (snd (snap_meta_write sm rl)) = voted_for rl"
  by (simp_all add: snap_meta_write_def log_rep_def seg_def)

lemma compact_loop_segment:
  assumes rep: "log_rep rl es" and "j \<le> length es"
  shows "compact_loop rl [unat (first_index rl) + j..<unat (first_index rl) + length es] out offs lt =
    Some (out @ segment (drop j es), offs @ map (\<lambda>i. length out + length (segment (take i (drop j es)))) [0..<length es - j],
      if j = length es then lt else e_term (last es))"
  using assms(2)
proof (induction "length es - j" arbitrary: j out offs lt)
  case 0
  then show ?case by simp
next
  case (Suc k)
  then have j: "j < length es" and k: "k = length es - Suc j" by simp_all
  have up: "[unat (first_index rl) + j..<unat (first_index rl) + length es]
      = (unat (first_index rl) + j) # [unat (first_index rl) + Suc j..<unat (first_index rl) + length es]"
    using j by (simp add: upt_conv_Cons)
  have dr: "drop j es = es ! j # drop (Suc j) es" using j by (simp add: Cons_nth_drop_Suc)
  have up0: "[0..<length es - j] = 0 # map Suc [0..<length es - Suc j]"
    using j by (simp add: upt_conv_Cons map_Suc_upt Suc_diff_Suc del: upt_Suc)
  have lst: "Suc j = length es \<Longrightarrow> e_term (es ! j) = e_term (last es)"
    by (metis diff_Suc_1 j last_conv_nth length_0_conv not_less_zero)
  show ?case
    unfolding up using Suc.hyps(1) [OF k, of "out @ entry_bytes (es ! j)" "offs @ [length out]" "e_term (es ! j)"] j lst
    by (cases "Suc j = length es") (simp_all add: copy_entry_segment [OF rep j] Let_def dr up0 comp_def add.assoc)
qed

lemma log_rep_compact:
  assumes rep: "log_rep rl es" and k: "0 < k" "k \<le> length es" and s: "sidx = first_index rl + of_nat (k - 1)" "snap_index rl < sidx"
    and t: "strm = e_term (es ! (k - 1))"
    and r: "r = tsdb_raft_log_compact True True sm rl sidx strm"
  shows "fst r = sm" and "log_rep (snd r) (drop k es)" and "first_index (snd r) = sidx + 1"
    and "last_index (snd r) = last_index rl" and "snap_index (snd r) = sidx" and "last_term (snd r) = last_term rl"
proof -
  have len: "unat (first_index rl) + length es < 2 ^ 64" and lt: "last_term rl = e_term (last es)"
    and li: "last_index rl = first_index rl + of_nat (length es) - 1"
    using rep k by (auto simp: log_rep_def)
  have s1: "sidx + 1 = first_index rl + of_nat k" using k s by (simp add: of_nat_diff Suc_le_eq)
  have n1: "unat (sidx + 1) = unat (first_index rl) + k" using unat_add_small [of "first_index rl" k] len k s1 by simp
  have ul: "Suc (unat (last_index rl)) = unat (first_index rl) + length es"
    using log_rep_last [OF rep] rep k by (simp add: log_rep_def)
  define rl1 where "rl1 = set_seg (segment (drop k es)) (rl\<lparr>offsets := (\<lambda>p. if p < length es - k then length (segment (take p (drop k es))) else 0),
      first_index := sidx + 1, last_index := last_index rl, last_term := last_term rl, snap_index := sidx, snap_term := strm\<rparr>)"
  have ns: "\<not> sidx \<le> snap_index rl" using s(2) by (simp only: not_le)
  have loop: "compact_loop rl [unat (sidx + 1)..<Suc (unat (last_index rl))] [] [] 0 =
      Some (segment (drop k es), map (\<lambda>i. length (segment (take i (drop k es)))) [0..<length es - k], if k = length es then 0 else e_term (last es))"
    unfolding n1 ul using compact_loop_segment [OF rep k(2), of "[]" "[]" 0] by simp
  have step: "r = snap_meta_write sm rl1"
  proof (cases "k = length es")
    case True
    then have "es ! (k - 1) = last es" using k by (simp add: last_conv_nth)
    moreover have "last_index rl = sidx" using s1 True unfolding li by (metis add_diff_cancel_right')
    ultimately show ?thesis
      unfolding r tsdb_raft_log_compact_def if_not_P [OF ns] loop rl1_def t using True lt by simp
  next
    case False
    have "sidx + of_nat (length es - k) = last_index rl"
    proof -
      have sx: "sidx = first_index rl + of_nat k - 1" using s1 by (metis add_diff_cancel_right')
      show ?thesis unfolding sx li using k by (simp add: of_nat_diff)
    qed
    moreover have "(\<lambda>p. if p < length es - k then map (\<lambda>i. length (segment (take i (drop k es)))) [0..<length es - k] ! p else 0)
        = (\<lambda>p. if p < length es - k then length (segment (take p (drop k es))) else 0)" by auto
    ultimately show ?thesis
      unfolding r tsdb_raft_log_compact_def if_not_P [OF ns] loop rl1_def t using False k lt by simp
  qed
  have n0: "sidx + 1 \<noteq> 0" using k n1 by (metis add_is_0 not_gr_zero unat_0)
  have "log_rep rl1 (drop k es)"
    unfolding log_rep_def rl1_def using rep k n0 n1 len lt s1 li
    by (simp add: log_rep_def of_nat_diff add.assoc)
  then show "fst r = sm" "log_rep (snd r) (drop k es)" "first_index (snd r) = sidx + 1"
    "last_index (snd r) = last_index rl" "snap_index (snd r) = sidx" "last_term (snd r) = last_term rl"
    unfolding step by (simp_all add: rl1_def)
qed

section \<open>The life of a log\<close>

lemma word_less_pred:
  fixes a b :: u64
  shows "a < b \<Longrightarrow> a \<le> b - 1"
proof -
  assume l: "a < b"
  then have "b \<noteq> 0" by auto
  then show ?thesis using l by (simp add: word_le_nat_alt word_less_nat_alt unat_minus_one)
qed

text \<open>
  What a log on disk guarantees between operations: it is the list of entries, the control files hold the
  fields in memory, and the surviving range starts right after the snapshot when it is empty.
\<close>

definition durable :: "tsdb_raft_log \<Rightarrow> raft_entry list \<Rightarrow> bool" where
  "durable rl es \<longleftrightarrow> log_rep rl es \<and> synced rl \<and> snap_index rl \<le> last_index rl \<and> (es = [] \<longrightarrow> first_index rl = snap_index rl + 1)"

abbreviation no_files :: raft_files where
  "no_files \<equiv> \<lparr>meta_file = None, vote_file = None, snap_file = None, seg_file = []\<rparr>"

lemma durable_open: "durable (tsdb_raft_log_open no_files) []"
  by (simp add: tsdb_raft_log_open_def meta_load_def vote_load_def snap_meta_load_def log_rebuild_offsets_def
      scan_loop.simps seg_def set_seg_def durable_def log_rep_def synced_def)

lemma durable_set_term:
  "durable rl es \<Longrightarrow> durable (snd (tsdb_raft_log_set_term True True rl t)) es
     \<and> current_term (snd (tsdb_raft_log_set_term True True rl t)) = t \<and> voted_for (snd (tsdb_raft_log_set_term True True rl t)) = 0"
  by (auto simp: durable_def tsdb_raft_log_set_term_def meta_write_def vote_write_def log_rep_def seg_def synced_def)

lemma durable_set_vote:
  "durable rl es \<Longrightarrow> durable (snd (tsdb_raft_log_set_voted_for True rl v)) es
     \<and> voted_for (snd (tsdb_raft_log_set_voted_for True rl v)) = v
     \<and> current_term (snd (tsdb_raft_log_set_voted_for True rl v)) = current_term rl"
  by (auto simp: durable_def tsdb_raft_log_set_voted_for_def vote_write_def log_rep_def seg_def synced_def)

lemma set_seg_control [simp]:
  "meta_file (files (set_seg bs rl)) = meta_file (files rl)" "vote_file (files (set_seg bs rl)) = vote_file (files rl)"
  "snap_file (files (set_seg bs rl)) = snap_file (files rl)"
  by (simp_all add: set_seg_def)

lemma set_seg_same: "set_seg (seg rl) rl = rl"
  by (simp add: set_seg_def seg_def)

lemma append_control:
  "synced (snd (tsdb_raft_log_append al wr left rl e)) = synced rl"
  "current_term (snd (tsdb_raft_log_append al wr left rl e)) = current_term rl"
  "voted_for (snd (tsdb_raft_log_append al wr left rl e)) = voted_for rl"
  "snap_index (snd (tsdb_raft_log_append al wr left rl e)) = snap_index rl"
  by (simp_all add: tsdb_raft_log_append_def Let_def synced_def)

lemma truncate_control:
  "synced (snd (tsdb_raft_log_truncate tr sy rl idx)) = synced rl"
  "current_term (snd (tsdb_raft_log_truncate tr sy rl idx)) = current_term rl"
  "voted_for (snd (tsdb_raft_log_truncate tr sy rl idx)) = voted_for rl"
  "snap_index (snd (tsdb_raft_log_truncate tr sy rl idx)) = snap_index rl"
  by (simp_all add: tsdb_raft_log_truncate_def Let_def synced_def)

lemma durable_append:
  assumes d: "durable rl es" and room: "unat (last_index rl) + 2 < 2 ^ 64" and fits: "entry_fits e"
  shows "durable (snd (tsdb_raft_log_append True True left rl e)) (es @ [e\<lparr>e_index := last_index rl + 1\<rparr>])"
proof -
  obtain rl' where a: "tsdb_raft_log_append True True left rl e = (True, rl')"
    and rep: "log_rep rl' (es @ [e\<lparr>e_index := last_index rl + 1\<rparr>])" and li: "last_index rl' = last_index rl + 1"
    using log_rep_append [OF _ room fits, of es left] d by (auto simp: durable_def)
  have "snap_index rl \<le> last_index rl + 1"
    using d room by (simp add: durable_def word_le_nat_alt unat_add_small [where n = 1, simplified])
  then show ?thesis using a rep li d append_control [of True True left rl e] by (simp add: durable_def)
qed

lemma durable_append_failed:
  assumes d: "durable rl es" and f: "\<not> al \<or> \<not> wr \<or> \<not> entry_fits e"
  shows "fst (tsdb_raft_log_append al wr 0 rl e) = False" and "durable (snd (tsdb_raft_log_append al wr 0 rl e)) es"
proof -
  have first: "first_index rl = 1" if z: "last_index rl = 0"
  proof -
    have rep: "log_rep rl es" using d by (simp add: durable_def)
    then have "0 < unat (first_index rl)" by (simp add: log_rep_def unat_gt_0)
    moreover have "unat (last_index rl) = 0" using z by simp
    ultimately have "length es = 0" using log_rep_last [OF rep] by linarith
    then show ?thesis using d z by (simp add: durable_def)
  qed
  have "rl\<lparr>first_index := (if last_index rl = 0 then last_index rl + 1 else first_index rl)\<rparr> = rl"
    using first by (cases "last_index rl = 0") simp_all
  then have "tsdb_raft_log_append al wr 0 rl e = (False, rl)"
    using f unfolding tsdb_raft_log_append_def Let_def by (simp add: set_seg_same not_le)
  then show "fst (tsdb_raft_log_append al wr 0 rl e) = False" "durable (snd (tsdb_raft_log_append al wr 0 rl e)) es"
    using d by simp_all
qed

lemma durable_truncate:
  assumes d: "durable rl es" and i: "i < length es" and s: "snap_index rl < first_index rl + of_nat i" "i = 0 \<Longrightarrow> snap_index rl = 0"
  shows "durable (snd (tsdb_raft_log_truncate True True rl (first_index rl + of_nat i))) (take i es)"
proof -
  let ?idx = "first_index rl + of_nat i"
  obtain rl' where t: "tsdb_raft_log_truncate True True rl ?idx = (True, rl')" and rep: "log_rep rl' (take i es)"
    and li: "if i = 0 then first_index rl' = 1 \<and> last_index rl' = 0 else first_index rl' = first_index rl \<and> last_index rl' = ?idx - 1"
    using log_rep_truncate [OF _ i, of rl] d by (auto simp: durable_def)
  have "snap_index rl \<le> ?idx - 1" using s(1) by (rule word_less_pred)
  moreover have "es \<noteq> []" using i by auto
  ultimately show ?thesis
    using t rep li s(2) d truncate_control [of True True rl ?idx] by (cases "i = 0") (simp_all add: durable_def)
qed

lemma compact_control:
  assumes "synced rl" and n: "\<not> sidx \<le> snap_index rl" and ok: "fst (tsdb_raft_log_compact True True True rl sidx strm)"
  shows "synced (snd (tsdb_raft_log_compact True True True rl sidx strm))"
    and "current_term (snd (tsdb_raft_log_compact True True True rl sidx strm)) = current_term rl"
    and "voted_for (snd (tsdb_raft_log_compact True True True rl sidx strm)) = voted_for rl"
proof -
  obtain out offs nlt where c: "compact_loop rl [unat (sidx + 1)..<Suc (unat (last_index rl))] [] [] 0 = Some (out, offs, nlt)"
    using ok unfolding tsdb_raft_log_compact_def if_not_P [OF n]
    by (cases "compact_loop rl [unat (sidx + 1)..<Suc (unat (last_index rl))] [] [] 0") auto
  show "synced (snd (tsdb_raft_log_compact True True True rl sidx strm))"
    "current_term (snd (tsdb_raft_log_compact True True True rl sidx strm)) = current_term rl"
    "voted_for (snd (tsdb_raft_log_compact True True True rl sidx strm)) = voted_for rl"
    using assms(1) unfolding tsdb_raft_log_compact_def if_not_P [OF n] c
    by (simp_all add: snap_meta_write_def synced_def)
qed

lemma durable_compact:
  assumes d: "durable rl es" and k: "0 < k" "k \<le> length es" and s: "sidx = first_index rl + of_nat (k - 1)" "snap_index rl < sidx"
    and t: "strm = e_term (es ! (k - 1))"
  shows "durable (snd (tsdb_raft_log_compact True True True rl sidx strm)) (drop k es)"
proof -
  have rep: "log_rep rl es" using d by (simp add: durable_def)
  note c = log_rep_compact [OF rep k s t refl, of True]
  have le: "sidx \<le> last_index rl"
  proof -
    have "unat (first_index rl) + (k - 1) < 2 ^ 64" using rep k by (auto simp: log_rep_def)
    from unat_add_small [OF this] have "unat sidx = unat (first_index rl) + (k - 1)" unfolding s(1) .
    then show ?thesis using log_rep_last [OF rep] k by (simp add: word_le_nat_alt)
  qed
  have "synced (snd (tsdb_raft_log_compact True True True rl sidx strm))"
    using compact_control(1) [of rl sidx strm] d c(1) s(2) by (simp add: durable_def not_le)
  then show ?thesis unfolding durable_def c(3-5) using c(2) le by simp
qed

text \<open>
  The runs of a log: a node that starts with an empty directory, changes term and vote, appends, loses entries to
  a new leader, compacts, and restarts from its files at any moment, with a strict part of an entry behind the
  segment when an append was interrupted. The last three arguments are what the caller was told: term, vote, entries.
\<close>

inductive log_run :: "tsdb_raft_log \<Rightarrow> u64 \<Rightarrow> u64 \<Rightarrow> raft_entry list \<Rightarrow> bool" where
  fresh: "log_run (tsdb_raft_log_open no_files) 0 0 []"
| set_term: "log_run rl t v es \<Longrightarrow> log_run (snd (tsdb_raft_log_set_term True True rl t')) t' 0 es"
| set_vote: "log_run rl t v es \<Longrightarrow> log_run (snd (tsdb_raft_log_set_voted_for True rl v')) t v' es"
| appended: "log_run rl t v es \<Longrightarrow> unat (last_index rl) + 2 < 2 ^ 64 \<Longrightarrow> entry_fits e \<Longrightarrow>
    log_run (snd (tsdb_raft_log_append True True left rl e)) t v (es @ [e\<lparr>e_index := last_index rl + 1\<rparr>])"
| append_failed: "log_run rl t v es \<Longrightarrow> \<not> al \<or> \<not> wr \<or> \<not> entry_fits e \<Longrightarrow> log_run (snd (tsdb_raft_log_append al wr 0 rl e)) t v es"
| truncated: "log_run rl t v es \<Longrightarrow> i < length es \<Longrightarrow> snap_index rl < first_index rl + of_nat i \<Longrightarrow> i \<noteq> 0 \<or> snap_index rl = 0 \<Longrightarrow>
    log_run (snd (tsdb_raft_log_truncate True True rl (first_index rl + of_nat i))) t v (take i es)"
| compacted: "log_run rl t v es \<Longrightarrow> 0 < k \<Longrightarrow> k \<le> length es \<Longrightarrow> snap_index rl < first_index rl + of_nat (k - 1) \<Longrightarrow>
    log_run (snd (tsdb_raft_log_compact True True True rl (first_index rl + of_nat (k - 1)) (e_term (es ! (k - 1))))) t v (drop k es)"
| restarted: "log_run rl t v es \<Longrightarrow> entry_fits e \<Longrightarrow> j < length (entry_bytes e) \<Longrightarrow> j = 0 \<or> 4 \<le> j \<Longrightarrow>
    log_run (tsdb_raft_log_open ((files rl)\<lparr>seg_file := seg rl @ take j (entry_bytes e)\<rparr>)) t v es"

lemma synced_restart:
  assumes "durable rl es" and t: "torn t" "t = [] \<or> 4 \<le> length t"
  shows "synced (tsdb_raft_log_open ((files rl)\<lparr>seg_file := seg rl @ t\<rparr>))"
proof -
  define fs where "fs = (files rl)\<lparr>seg_file := seg rl @ t\<rparr>"
  have sy: "synced rl" using assms by (simp add: durable_def)
  have "tsdb_raft_log_open fs = log_rebuild_offsets \<lparr>files = fs, current_term = current_term rl, voted_for = voted_for rl,
      snap_index = snap_index rl, snap_term = snap_term rl, first_index = 0, last_index = 0, last_term = 0, offsets = (\<lambda>_. 0)\<rparr>"
    unfolding tsdb_raft_log_open_def using open_control [OF sy, of fs] by (simp add: fs_def)
  then show ?thesis unfolding fs_def [symmetric] using sy
    by (simp add: log_rebuild_offsets_def synced_def Let_def fs_def split: prod.split)
qed

lemma durable_restart:
  assumes d: "durable rl es" and t: "torn t" "t = [] \<or> 4 \<le> length t"
  shows "durable (tsdb_raft_log_open ((files rl)\<lparr>seg_file := seg rl @ t\<rparr>)) es"
proof -
  have o: "log_rep rl es" "synced rl" "snap_index rl \<le> last_index rl" "es = [] \<longrightarrow> first_index rl = snap_index rl + 1"
    using d by (simp_all add: durable_def)
  show ?thesis
    unfolding durable_def open_rep(2-6) [OF o(1-3) t o(4)]
    using open_rep(1) [OF o(1-3) t o(4)] synced_restart [OF d t] o(3,4) by simp
qed

lemma log_run_durable: "log_run rl t v es \<Longrightarrow> durable rl es \<and> current_term rl = t \<and> voted_for rl = v"
proof (induction rule: log_run.induct)
  case fresh
  then show ?case using durable_open
    by (simp add: tsdb_raft_log_open_def meta_load_def vote_load_def snap_meta_load_def log_rebuild_offsets_def scan_loop.simps seg_def set_seg_def)
next
  case (set_term rl t v es t')
  then show ?case using durable_set_term by blast
next
  case (set_vote rl t v es v')
  then show ?case using durable_set_vote by blast
next
  case (appended rl t v es e left)
  then show ?case using durable_append [of rl es e left] append_control [of True True left rl e] by simp
next
  case (append_failed rl t v es al wr e)
  then show ?case using durable_append_failed(2) [of rl es al wr e] append_control [of al wr 0 rl e] by simp
next
  case (truncated rl t v es i)
  then show ?case using durable_truncate [of rl es i] truncate_control [of True True rl "first_index rl + of_nat i"] by auto
next
  case (compacted rl t v es k)
  let ?s = "first_index rl + of_nat (k - 1)" and ?t = "e_term (es ! (k - 1))"
  have rep: "log_rep rl es" and sy: "synced rl" using compacted.IH by (simp_all add: durable_def)
  have n: "\<not> ?s \<le> snap_index rl" using compacted.hyps(4) by (simp only: not_le)
  have ok: "fst (tsdb_raft_log_compact True True True rl ?s ?t)"
    using log_rep_compact(1) [OF rep compacted.hyps(2,3) refl compacted.hyps(4) refl refl, of True] by simp
  show ?case using durable_compact [OF _ compacted.hyps(2,3) refl compacted.hyps(4) refl] compact_control(2,3) [OF sy n ok] compacted.IH by simp
next
  case (restarted rl t v es e j)
  let ?t = "take j (entry_bytes e)"
  have t: "torn ?t" "?t = [] \<or> 4 \<le> length ?t" using restarted.hyps torn_take [of e j] by auto
  have o: "log_rep rl es" "synced rl" "snap_index rl \<le> last_index rl" "es = [] \<longrightarrow> first_index rl = snap_index rl + 1"
    using restarted.IH by (simp_all add: durable_def)
  show ?case using durable_restart [OF _ t, of rl es] restarted.IH unfolding open_rep(4,5) [OF o(1-3) t o(4)] by simp
qed

lemma truncate_all:
  assumes d: "durable rl es" and ne: "es \<noteq> []"
  obtains rl' where "tsdb_raft_log_truncate True True rl (first_index rl) = (True, rl')" "log_rep rl' []" "synced rl'"
    "first_index rl' = 1" "last_index rl' = 0" "snap_index rl' = snap_index rl"
proof -
  have rep: "log_rep rl es" using d by (simp add: durable_def)
  show thesis
    using log_rep_truncate [OF rep, of 0] ne truncate_control [of True True rl "first_index rl"] d that
    by (auto simp: durable_def)
qed

lemma magic_bytes: "le_bytes 4 LOG_ENTRY_MAGIC = [0x52, 0x46, 0x54, 0x45]"
  by code_simp

text \<open>
  The segment is replaced before the marker is written. When the marker is not (or the node stops in between) and
  no entry survives, the next start knows neither the entries nor the snapshot.
\<close>

lemma compact_window_loses_log:
  assumes d: "durable rl es" and ne: "es \<noteq> []" and s: "snap_index rl < last_index rl"
    and r: "r = tsdb_raft_log_compact True True False rl (last_index rl) (last_term rl)"
  shows "last_index (snd r) = last_index rl \<and> last_index (tsdb_raft_log_open (files (snd r))) = snap_index rl"
proof -
  have rep: "log_rep rl es" and sy: "synced rl" using d by (simp_all add: durable_def)
  have li: "last_index rl = first_index rl + of_nat (length es - 1)"
    using rep ne by (simp add: log_rep_def of_nat_diff Suc_le_eq)
  have lt: "last_term rl = e_term (es ! (length es - 1))" using rep ne by (simp add: log_rep_def last_conv_nth)
  have "0 < length es" using ne by simp
  note c = log_rep_compact [OF rep this order.refl li s lt r]
  have "seg (snd r) = []" using c(2) by (simp add: log_rep_def)
  moreover have "meta_file (files (snd r)) = meta_file (files rl)" "vote_file (files (snd r)) = vote_file (files rl)"
    "snap_file (files (snd r)) = snap_file (files rl)"
    unfolding r by (simp_all add: tsdb_raft_log_compact_def snap_meta_write_def Let_def split: option.split prod.split)
  ultimately have "last_index (tsdb_raft_log_open (files (snd r))) = snap_index rl"
    unfolding tsdb_raft_log_open_def open_control [OF sy \<open>meta_file _ = _\<close> \<open>vote_file _ = _\<close> \<open>snap_file _ = _\<close>]
    by (simp add: log_rebuild_offsets_def scan_loop.simps seg_def Let_def word_neq_0_conv [symmetric])
  then show ?thesis using c(4) by simp
qed

section \<open>Properties\<close>





text \<open>C35: Truncating the whole surviving tail forgets the snapshot. On a log with a snapshot at an index above 1 and
  entries behind it, \<^verbatim>\<open>tsdb_raft_log_truncate\<close> at the first of them restarts the log at index 1: the next entry
  is stored under an index the snapshot covers, not after it, and after a restart it is no longer in the log.\<close>

theorem truncate_forgets_snapshot:
  assumes d: "durable rl es" and "es \<noteq> []" and s: "1 < snap_index rl" and fits: "entry_fits e"
    and rl1: "rl1 = snd (tsdb_raft_log_truncate True True rl (first_index rl))" and rl2: "rl2 = snd (tsdb_raft_log_append True True 0 rl1 e)"
  shows "fst (tsdb_raft_log_append True True 0 rl1 e) \<and> tsdb_raft_log_read True rl2 1 = Some (e\<lparr>e_index := 1\<rparr>)
    \<and> last_index rl2 < snap_index rl2 \<and> tsdb_raft_log_read True (tsdb_raft_log_open (files rl2)) 1 = None"
proof -
  obtain rl' where t: "tsdb_raft_log_truncate True True rl (first_index rl) = (True, rl')" "log_rep rl' []" "synced rl'"
    "first_index rl' = 1" "last_index rl' = 0" "snap_index rl' = snap_index rl"
    by (rule truncate_all [OF d \<open>es \<noteq> []\<close>])
  have eq1: "rl1 = rl'" using t(1) rl1 by simp
  obtain rl'' where a: "tsdb_raft_log_append True True 0 rl' e = (True, rl'')" "log_rep rl'' [e\<lparr>e_index := 1\<rparr>]" "last_index rl'' = 1"
    using log_rep_append [OF t(2) _ fits, of 0] t(5) by auto
  have eq2: "rl2 = rl''" using a(1) rl2 eq1 by simp
  have f1: "first_index rl'' = 1" and sn: "snap_index rl'' = snap_index rl" and sy: "synced rl''"
    using a(2,3) append_control(1,4) [of True True 0 rl' e] a(1) t(3,6) by (simp_all add: log_rep_def)
  have rd: "tsdb_raft_log_read True rl'' 1 = Some (e\<lparr>e_index := 1\<rparr>)" using log_rep_read [OF a(2), of 0] f1 by simp
  let ?o = "tsdb_raft_log_open (files rl'')"
  define rl0 where "rl0 = \<lparr>files = files rl'', current_term = current_term rl'', voted_for = voted_for rl'', snap_index = snap_index rl'',
      snap_term = snap_term rl'', first_index = 0, last_index = 0, last_term = 0, offsets = (\<lambda>_. 0)\<rparr>"
  have op: "?o = log_rebuild_offsets rl0"
    unfolding tsdb_raft_log_open_def rl0_def using open_control [OF sy, of "files rl''"] by simp
  have sg: "seg rl0 = segment [e\<lparr>e_index := 1\<rparr>] @ []" using a(2) by (simp add: rl0_def seg_def log_rep_def)
  obtain offs' where "scan_loop (segment [e\<lparr>e_index := 1\<rparr>] @ []) 0 1 0 0 (offsets rl0) = (segment [e\<lparr>e_index := 1\<rparr>], 1, 1, e_term e, offs')"
    using scan_segment [of "[e\<lparr>e_index := 1\<rparr>]" 1 "[]" "offsets rl0"] fits by auto
  then have "first_index ?o = snap_index rl + 1 \<and> last_index ?o = snap_index rl"
    unfolding op log_rebuild_offsets_def sg using s sn by (simp add: rl0_def Let_def)
  moreover have "1 < snap_index rl + 1"
  proof -
    have "unat (snap_index rl) + 1 < 2 ^ 64"
      using d log_rep_last [of rl es] by (auto simp: durable_def log_rep_def word_le_nat_alt)
    then have "unat (snap_index rl + 1) = unat (snap_index rl) + 1" using unat_add_small [of "snap_index rl" 1] by simp
    then show ?thesis using s by (simp add: word_less_nat_alt)
  qed
  ultimately have "tsdb_raft_log_read True ?o 1 = None" by (simp add: tsdb_raft_log_read_def)
  then show ?thesis using rd a(1,3) sn s by (simp add: eq1 eq2)
qed

text \<open>Three entries, the first two compacted away: a log in which the conclusion above is reached.\<close>

lemma snapshot_run: "\<exists>rl es. log_run rl 0 0 es \<and> es \<noteq> [] \<and> snap_index rl = 2"
proof -
  let ?e = "\<lparr>e_index = 0, e_term = 0, e_type = 0, e_payload = [7]\<rparr>"
  have f: "entry_fits ?e" by (simp add: MAX_ENTRY_PAYLOAD_def)
  have step: "\<exists>rl' es'. log_run rl' 0 0 es' \<and> first_index rl' = 1 \<and> length es' = Suc n \<and> snap_index rl' = 0"
    if r: "log_run rl 0 0 es" and len: "first_index rl = 1" "length es = n" "n < 10" "snap_index rl = 0" for rl es n
  proof -
    have rep: "log_rep rl es" using log_run_durable [OF r] by (simp add: durable_def)
    have "unat (last_index rl) = n" using log_rep_last [OF rep] len by simp
    then have room: "unat (last_index rl) + 2 < 2 ^ 64" using len by simp
    let ?rl = "snd (tsdb_raft_log_append True True 0 rl ?e)"
    have a: "log_run ?rl 0 0 (es @ [?e\<lparr>e_index := last_index rl + 1\<rparr>])" by (rule log_run.appended [OF r room f])
    moreover have "first_index ?rl = 1" using len f by (simp add: tsdb_raft_log_append_def Let_def not_less)
    ultimately show ?thesis using len append_control(4) [of True True 0 rl ?e]
      by (intro exI [of _ ?rl] exI [of _ "es @ [?e\<lparr>e_index := last_index rl + 1\<rparr>]"]) simp
  qed
  have "log_run (tsdb_raft_log_open no_files) 0 0 []" by (rule log_run.fresh)
  moreover have "first_index (tsdb_raft_log_open no_files) = 1 \<and> snap_index (tsdb_raft_log_open no_files) = 0"
    by (simp add: tsdb_raft_log_open_def meta_load_def vote_load_def snap_meta_load_def log_rebuild_offsets_def scan_loop.simps seg_def set_seg_def)
  ultimately obtain rl1 es1 where 1: "log_run rl1 0 0 es1" "first_index rl1 = 1" "length es1 = Suc 0" "snap_index rl1 = 0"
    using step [of "tsdb_raft_log_open no_files" "[]" 0] by auto
  obtain rl2 es2 where 2: "log_run rl2 0 0 es2" "first_index rl2 = 1" "length es2 = Suc (Suc 0)" "snap_index rl2 = 0"
    using step [OF 1(1-3)] 1(4) by auto
  obtain rl es where 3: "log_run rl 0 0 es" "first_index rl = 1" "length es = Suc (Suc (Suc 0))" "snap_index rl = 0"
    using step [OF 2(1-3)] 2(4) by auto
  let ?c = "snd (tsdb_raft_log_compact True True True rl (first_index rl + of_nat (2 - 1)) (e_term (es ! (2 - 1))))"
  have rep: "log_rep rl es" using log_run_durable [OF 3(1)] by (simp add: durable_def)
  have "log_run ?c 0 0 (drop 2 es)" by (rule log_run.compacted [OF 3(1)]) (use 3 in simp_all)
  moreover have "snap_index ?c = 2"
    using log_rep_compact(5) [OF rep _ _ refl _ refl refl, of 2 True] 3 by simp
  moreover have "drop 2 es \<noteq> []" using 3(3) by simp
  ultimately show ?thesis by blast
qed

theorem truncate_forgets_snapshot_witness:
  "\<exists>rl es e rl1 rl2. durable rl es \<and> es \<noteq> [] \<and> 1 < snap_index rl \<and> tsdb_raft_log_read True rl2 1 = Some (e\<lparr>e_index := 1\<rparr>)
     \<and> rl1 = snd (tsdb_raft_log_truncate True True rl (first_index rl)) \<and> rl2 = snd (tsdb_raft_log_append True True 0 rl1 e)
     \<and> tsdb_raft_log_read True (tsdb_raft_log_open (files rl2)) 1 = None"
proof -
  obtain rl es where r: "log_run rl 0 0 es" "es \<noteq> []" "snap_index rl = 2" using snapshot_run by blast
  let ?e = "\<lparr>e_index = 0, e_term = 0, e_type = 0, e_payload = [7]\<rparr>"
  have d: "durable rl es" using log_run_durable [OF r(1)] by blast
  have f: "entry_fits ?e" by (simp add: MAX_ENTRY_PAYLOAD_def)
  have s: "1 < snap_index rl" using r(3) by simp
  show ?thesis using truncate_forgets_snapshot [OF d r(2) s f refl refl] d r(2) s by blast
qed

end
