(* ===== verification/Spec2Isabelle.thy ===== *)
theory Spec2Isabelle
  imports Core_Fields Codec_Block Server_Proto Cluster_Dedup Raft_Log
begin

text \<open>
  Verification of QEngine, a time-series database in C. This development models the compression
  layer: the bit streams of \<^verbatim>\<open>src/core/bits.h\<close> and the codecs of \<^verbatim>\<open>src/compress\<close>.
\<close>

end
